(* ===== verification/Mux_Prelude.thy ===== *)
theory Mux_Prelude
  imports Main "HOL-Library.Word"
begin

text \<open>
  Shared vocabulary of the development: the machine integers and byte strings of the Rust sources,
  fallible state-passing computations (a function over \<open>&mut self\<close> that returns
  \<open>Result<T, E>\<close>, whose early return with \<open>?\<close> keeps the mutations made so far), the checked and
  saturating integer operations of the standard library, and the generic lemmas on lists and words
  that the component theories share.
\<close>

unbundle bit_operations_syntax

type_synonym byte = "8 word"
type_synonym u16 = "16 word"
type_synonym u32 = "32 word"
type_synonym u64 = "64 word"

text \<open>\<open>usize\<close> is a 64-bit count. Lengths and budgets are \<open>nat\<close>; the places where the code
  converts or checks for overflow write the width out.\<close>

type_synonym usize = nat
type_synonym bytes = "byte list"

text \<open>A Rust \<open>String\<close> is a sequence of bytes that is valid UTF-8; its length counts bytes.\<close>

type_synonym rust_string = "byte list"

type_synonym ('s, 'e, 'a) action = "'s \<Rightarrow> ('e + 'a) \<times> 's"

named_theorems act_simps \<open>unfolding of fallible state-passing computations\<close>
named_theorems word_arith \<open>reading of machine-integer operations as arithmetic on nat\<close>

section \<open>Fallible computations with state\<close>

definition ok :: "'a \<Rightarrow> ('s, 'e, 'a) action" where
  "ok a s = (Inr a, s)"

definition err :: "'e \<Rightarrow> ('s, 'e, 'a) action" where
  "err e s = (Inl e, s)"

text \<open>\<open>and_then m k\<close> is \<open>let a = m?; k(a)\<close>: on an error the state reached so far is kept.\<close>

definition and_then :: "('s, 'e, 'a) action \<Rightarrow> ('a \<Rightarrow> ('s, 'e, 'b) action) \<Rightarrow> ('s, 'e, 'b) action" where
  "and_then m k s = (case m s of (Inl e, s') \<Rightarrow> (Inl e, s') | (Inr a, s') \<Rightarrow> k a s')"

text \<open>\<open>lift_err f m\<close> is \<open>m\<close> with its error converted, as \<open>?\<close> does through \<open>From\<close> and
  \<open>map_err\<close> does explicitly.\<close>

definition lift_err :: "('e \<Rightarrow> 'f) \<Rightarrow> ('s, 'e, 'a) action \<Rightarrow> ('s, 'f, 'a) action" where
  "lift_err f m s = (case m s of (Inl e, s') \<Rightarrow> (Inl (f e), s') | (Inr a, s') \<Rightarrow> (Inr a, s'))"

text \<open>A pure \<open>Result\<close> in a computation with state.\<close>

definition of_result :: "('e + 'a) \<Rightarrow> ('s, 'e, 'a) action" where
  "of_result r s = (r, s)"

definition map_err :: "('e \<Rightarrow> 'f) \<Rightarrow> ('e + 'a) \<Rightarrow> ('f + 'a)" where
  "map_err f r = (case r of Inl e \<Rightarrow> Inl (f e) | Inr a \<Rightarrow> Inr a)"

definition is_ok :: "('e + 'a) \<Rightarrow> bool" where
  "is_ok r = (case r of Inl _ \<Rightarrow> False | Inr _ \<Rightarrow> True)"

lemmas act_unfold [act_simps] = ok_def err_def and_then_def lift_err_def of_result_def

lemma map_err_simps [simp]:
  "map_err f (Inl e) = Inl (f e)"
  "map_err f (Inr a) = Inr a"
  by (simp_all add: map_err_def)

lemma is_ok_simps [simp]:
  "is_ok (Inr a)"
  "\<not> is_ok (Inl e)"
  by (simp_all add: is_ok_def)

lemma action_cases [case_names failed returned]:
  fixes p :: "('e + 'a) \<times> 's"
  obtains e s where "p = (Inl e, s)" | a s where "p = (Inr a, s)"
  by (metis old.sum.exhaust surj_pair)

lemma and_then_Inr:
  "and_then m k s = (Inr b, t) \<longleftrightarrow> (\<exists>a u. m s = (Inr a, u) \<and> k a u = (Inr b, t))"
  by (auto simp: and_then_def split: prod.splits sum.splits)

lemma and_then_Inl:
  "and_then m k s = (Inl e, t) \<longleftrightarrow>
     m s = (Inl e, t) \<or> (\<exists>a u. m s = (Inr a, u) \<and> k a u = (Inl e, t))"
  by (auto simp: and_then_def split: prod.splits sum.splits)

section \<open>Panics\<close>

text \<open>Code that can panic (\<open>expect\<close>, arithmetic underflow) returns a value of this type, so that
  \<open>Panic\<close> is a branch of the model and its absence is a theorem.\<close>

datatype 'a run = Done 'a | Panic

section \<open>Checked and saturating arithmetic\<close>

definition checked_add :: "'a::len word \<Rightarrow> 'a word \<Rightarrow> 'a word option" where
  "checked_add a b = (if unat a + unat b < 2 ^ LENGTH('a) then Some (a + b) else None)"

definition saturating_add :: "'a::len word \<Rightarrow> 'a word \<Rightarrow> 'a word" where
  "saturating_add a b = (if unat a + unat b < 2 ^ LENGTH('a) then a + b else - 1)"

definition saturating_sub :: "'a::len word \<Rightarrow> 'a word \<Rightarrow> 'a word" where
  "saturating_sub a b = (if b \<le> a then a - b else 0)"

definition div_ceil :: "'a::len word \<Rightarrow> 'a word \<Rightarrow> 'a word" where
  "div_ceil a b = (if a mod b = 0 then a div b else a div b + 1)"

definition usize_max :: usize where
  "usize_max = 2 ^ 64 - 1"

definition usize_checked_mul :: "usize \<Rightarrow> usize \<Rightarrow> usize option" where
  "usize_checked_mul a b = (if a * b \<le> usize_max then Some (a * b) else None)"

definition usize_checked_add :: "usize \<Rightarrow> usize \<Rightarrow> usize option" where
  "usize_checked_add a b = (if a + b \<le> usize_max then Some (a + b) else None)"

definition usize_div_ceil :: "usize \<Rightarrow> usize \<Rightarrow> usize" where
  "usize_div_ceil a b = (if a mod b = 0 then a div b else a div b + 1)"

text \<open>\<open>n as u64\<close> and \<open>n as u32\<close> keep the low bits.\<close>

definition as_u64 :: "usize \<Rightarrow> u64" where
  "as_u64 n = of_nat n"

definition as_u32 :: "usize \<Rightarrow> usize" where
  "as_u32 n = n mod 2 ^ 32"

definition u32_max :: usize where
  "u32_max = 2 ^ 32 - 1"

lemma checked_add_Some [word_arith]:
  fixes a b c :: "'a::len word"
  shows "checked_add a b = Some c \<longleftrightarrow> unat a + unat b < 2 ^ LENGTH('a) \<and> unat c = unat a + unat b"
  by (auto simp: checked_add_def unat_word_ariths word_unat_eq_iff)

lemma checked_add_None [word_arith]:
  fixes a b :: "'a::len word"
  shows "checked_add a b = None \<longleftrightarrow> 2 ^ LENGTH('a) \<le> unat a + unat b"
  by (auto simp: checked_add_def)

lemma unat_saturating_add [word_arith]:
  fixes a b :: "'a::len word"
  shows "unat (saturating_add a b) = min (unat a + unat b) (2 ^ LENGTH('a) - 1)"
  by (auto simp: saturating_add_def unat_word_ariths unsigned_minus_1_eq_mask mask_eq_exp_minus_1)

lemma unat_saturating_sub [word_arith]:
  "unat (saturating_sub a b) = unat a - unat b"
  by (auto simp: saturating_sub_def word_le_nat_alt unat_sub)

lemma unat_div_ceil_two [word_arith]:
  fixes a :: u64
  shows "unat (div_ceil a 2) = (unat a + 1) div 2"
proof -
  have "unat (a div 2 + 1) = unat a div 2 + 1"
    using unsigned_less [of a, where ?'a = nat] by (simp add: unat_word_ariths unat_div)
  then show ?thesis
    by (auto simp: div_ceil_def unat_div unat_mod word_unat_eq_iff) presburger+
qed

lemma usize_div_ceil_two: "usize_div_ceil n 2 = (n + 1) div 2"
  by (simp add: usize_div_ceil_def) presburger

lemma unat_as_u64: "n < 2 ^ 64 \<Longrightarrow> unat (as_u64 n) = n"
  by (simp add: as_u64_def unat_of_nat take_bit_eq_mod)

lemma unat_as_u64_mod: "unat (as_u64 n) = n mod 2 ^ 64"
  by (simp add: as_u64_def unat_of_nat take_bit_eq_mod)

lemma as_u32_id: "n \<le> u32_max \<Longrightarrow> as_u32 n = n"
  by (simp add: as_u32_def u32_max_def)

section \<open>Words\<close>

lemma nat_push_bit_or:
  fixes a b :: nat
  assumes "b < 2 ^ n"
  shows "push_bit n a OR b = a * 2 ^ n + b"
proof -
  have b: "take_bit n b = b" using assms by (simp add: take_bit_nat_eq_self)
  have "push_bit n a AND b = 0"
    by (subst b [symmetric]) (auto simp: bit_eq_iff bit_simps)
  then have "push_bit n a + b = push_bit n a OR b"
    by (rule disjunctive_add_eq_or)
  then show ?thesis by (simp add: push_bit_eq_mult)
qed

text \<open>Joining bit fields with \<open>|\<close> after a shift is addition when the fields do not overlap.\<close>

lemma unat_push_bit_or:
  fixes a b :: "'a::len word"
  assumes "unat b < 2 ^ n" "unat a * 2 ^ n < 2 ^ LENGTH('a)"
  shows "unat (push_bit n a OR b) = unat a * 2 ^ n + unat b"
  using assms
  by (simp add: unsigned_or_eq unsigned_push_bit_eq nat_push_bit_or flip: push_bit_eq_mult)
     (simp add: push_bit_eq_mult take_bit_nat_eq_self nat_push_bit_or [unfolded push_bit_eq_mult])

lemma unat_byte_less: "unat (b :: byte) < 256"
  using unsigned_less [of b, where ?'a = nat] by simp

lemma unat_u64_less: "unat (w :: u64) < 2 ^ 64"
  using unsigned_less [of w, where ?'a = nat] by simp

lemma unat_byte_u64: "unat (ucast (b :: byte) :: u64) = unat b"
  by (simp add: unsigned_ucast_eq take_bit_nat_eq_self unsigned_less [of b, THEN less_trans])

section \<open>Lists\<close>

lemma drop_length_append [simp]: "length xs = n \<Longrightarrow> drop n (xs @ ys) = ys"
  by simp

lemma sum_list_le_mem: "(x :: nat) \<in> set xs \<Longrightarrow> x \<le> sum_list xs"
  by (simp add: member_le_sum_list)

section \<open>Sums over the domain of a map\<close>

lemma sum_dom_update:
  fixes f :: "'v \<Rightarrow> nat"
  assumes "finite (dom m)" "m k = Some v"
  shows "(\<Sum>i\<in>dom (m(k \<mapsto> v')). f (the ((m(k \<mapsto> v')) i))) + f v = (\<Sum>i\<in>dom m. f (the (m i))) + f v'"
proof -
  have "(\<Sum>i\<in>dom m - {k}. f (the ((m(k \<mapsto> v')) i))) = (\<Sum>i\<in>dom m - {k}. f (the (m i)))"
    by (intro sum.cong) auto
  moreover have "dom (m(k \<mapsto> v')) = dom m" using assms(2) by auto
  ultimately show ?thesis
    using assms by (simp add: sum.remove [of "dom m" k] domI del: fun_upd_apply) simp
qed

lemma sum_dom_insert:
  fixes f :: "'v \<Rightarrow> nat"
  assumes "finite (dom m)" "m k = None"
  shows "(\<Sum>i\<in>dom (m(k \<mapsto> v)). f (the ((m(k \<mapsto> v)) i))) = (\<Sum>i\<in>dom m. f (the (m i))) + f v"
proof -
  have "(\<Sum>i\<in>dom m. f (the ((m(k \<mapsto> v)) i))) = (\<Sum>i\<in>dom m. f (the (m i)))"
    using assms(2) by (intro sum.cong) auto
  moreover have "k \<notin> dom m" using assms(2) by auto
  ultimately show ?thesis using assms(1) by (simp add: domI)
qed

end
