(* ===== verification/Byte_Buffers.thy ===== *)
theory Byte_Buffers
  imports Mux_Prelude
begin

text \<open>
  The codec of \<^verbatim>\<open>muxtls-proto\<close> is generic in the \<open>Buf\<close> and \<open>BufMut\<close> traits of the \<open>bytes\<close>
  crate, which is not part of the repository. A value of type \<open>'b buf_ops\<close> is the dictionary of the
  \<open>Buf\<close> operations the codec calls and \<open>'o buf_mut_ops\<close> that of \<open>BufMut\<close>; the codec's definitions
  take them as arguments. The locales \<open>buf\<close> and \<open>buf_mut\<close> state the documented behaviour of the two
  traits relative to the unread bytes of a source and the written bytes of a sink. The interpretations
  \<open>bytes_buf\<close> and \<open>bytes_sink\<close> are the instances the runtime uses: a \<open>Bytes\<close> value read from the
  front and a \<open>BytesMut\<close> value extended at the end, both represented by their contents.
\<close>

record 'b buf_ops =
  has_remaining :: "'b \<Rightarrow> bool"
  remaining :: "'b \<Rightarrow> usize"
  get_u8 :: "'b \<Rightarrow> byte \<times> 'b"
  copy_to_bytes :: "usize \<Rightarrow> 'b \<Rightarrow> bytes \<times> 'b"

record 'o buf_mut_ops =
  put_u8 :: "byte \<Rightarrow> 'o \<Rightarrow> 'o"
  put_u16 :: "u16 \<Rightarrow> 'o \<Rightarrow> 'o"
  put_u32 :: "u32 \<Rightarrow> 'o \<Rightarrow> 'o"
  put_u64 :: "u64 \<Rightarrow> 'o \<Rightarrow> 'o"
  put_slice :: "bytes \<Rightarrow> 'o \<Rightarrow> 'o"

text \<open>The bytes of a machine integer in network order, most significant first.\<close>

definition be_bytes :: "nat \<Rightarrow> 'a::len word \<Rightarrow> bytes" where
  "be_bytes n w = map (\<lambda>i. ucast (drop_bit (8 * i) w)) (rev [0..<n])"

lemma length_be_bytes [simp]: "length (be_bytes n w) = n"
  by (simp add: be_bytes_def)

lemma be_bytes_0 [simp]: "be_bytes 0 w = []"
  by (simp add: be_bytes_def)

lemma be_bytes_Suc: "be_bytes (Suc n) w = ucast (drop_bit (8 * n) w) # be_bytes n w"
  by (simp add: be_bytes_def)

text \<open>The number a sequence of bytes stands for, after the digits already read.\<close>

primrec be_value :: "nat \<Rightarrow> bytes \<Rightarrow> nat" where
  "be_value acc [] = acc"
| "be_value acc (b # bs) = be_value (acc * 256 + unat b) bs"

lemma unat_be_digit:
  "unat (ucast (drop_bit (8 * n) w) :: byte) = unat w div 256 ^ n mod 256"
  by (simp add: unsigned_ucast_eq unat_drop_bit_eq take_bit_eq_mod)
    (simp add: drop_bit_eq_div power_mult)

lemma be_value_be_bytes: "be_value acc (be_bytes n w) = acc * 256 ^ n + unat w mod 256 ^ n"
proof (induction n arbitrary: acc)
  case 0
  then show ?case by simp
next
  case (Suc n)
  have "unat w mod 256 ^ Suc n = unat w div 256 ^ n mod 256 * 256 ^ n + unat w mod 256 ^ n"
    by (metis mod_mult2_eq mult.commute power_Suc)
  moreover have "be_value acc (be_bytes (Suc n) w) =
      (acc * 256 + unat w div 256 ^ n mod 256) * 256 ^ n + unat w mod 256 ^ n"
    by (simp only: be_bytes_Suc be_value.simps Suc.IH unat_be_digit)
  ultimately show ?case
    by (simp add: algebra_simps)
qed

lemma be_value_less: "be_value acc bs < (acc + 1) * 256 ^ length bs"
proof (induction bs arbitrary: acc)
  case Nil
  then show ?case by simp
next
  case (Cons b bs)
  have "be_value (acc * 256 + unat b) bs < (acc * 256 + unat b + 1) * 256 ^ length bs"
    by (rule Cons.IH)
  also have "\<dots> \<le> (acc * 256 + 256) * 256 ^ length bs"
    using unat_byte_less [of b] by (intro mult_le_mono1) simp
  finally show ?case by (simp add: algebra_simps)
qed

locale buf =
  fixes B :: "'b buf_ops"
    and unread :: "'b \<Rightarrow> bytes"
  assumes has_remaining_iff: "has_remaining B b \<longleftrightarrow> unread b \<noteq> []"
    and remaining_length: "remaining B b = length (unread b)"
    and get_u8_head: "unread b \<noteq> [] \<Longrightarrow> fst (get_u8 B b) = hd (unread b)"
    and get_u8_tail: "unread b \<noteq> [] \<Longrightarrow> unread (snd (get_u8 B b)) = tl (unread b)"
    and copy_taken: "n \<le> length (unread b) \<Longrightarrow> fst (copy_to_bytes B n b) = take n (unread b)"
    and copy_rest: "n \<le> length (unread b) \<Longrightarrow> unread (snd (copy_to_bytes B n b)) = drop n (unread b)"
begin

lemmas read_simps = has_remaining_iff remaining_length get_u8_head get_u8_tail copy_taken copy_rest

end

locale buf_mut =
  fixes M :: "'o buf_mut_ops"
    and written :: "'o \<Rightarrow> bytes"
  assumes put_u8_written: "written (put_u8 M b s) = written s @ [b]"
    and put_u16_written: "written (put_u16 M w16 s) = written s @ be_bytes 2 w16"
    and put_u32_written: "written (put_u32 M w32 s) = written s @ be_bytes 4 w32"
    and put_u64_written: "written (put_u64 M w64 s) = written s @ be_bytes 8 w64"
    and put_slice_written: "written (put_slice M xs s) = written s @ xs"
begin

lemmas put_written =
  put_u8_written put_u16_written put_u32_written put_u64_written put_slice_written

end

definition bytes_ops :: "bytes buf_ops" where
  "bytes_ops = \<lparr> has_remaining = (\<lambda>b. b \<noteq> []), remaining = length,
     get_u8 = (\<lambda>b. (hd b, tl b)), copy_to_bytes = (\<lambda>n b. (take n b, drop n b)) \<rparr>"

definition bytes_mut_ops :: "bytes buf_mut_ops" where
  "bytes_mut_ops = \<lparr> put_u8 = (\<lambda>b s. s @ [b]), put_u16 = (\<lambda>w s. s @ be_bytes 2 w),
     put_u32 = (\<lambda>w s. s @ be_bytes 4 w), put_u64 = (\<lambda>w s. s @ be_bytes 8 w),
     put_slice = (\<lambda>xs s. s @ xs) \<rparr>"

lemma bytes_ops_simps [simp]:
  "has_remaining bytes_ops b \<longleftrightarrow> b \<noteq> []"
  "remaining bytes_ops b = length b"
  "get_u8 bytes_ops (x # xs) = (x, xs)"
  "copy_to_bytes bytes_ops n b = (take n b, drop n b)"
  by (simp_all add: bytes_ops_def)

interpretation bytes_buf: buf bytes_ops "\<lambda>b. b"
  by unfold_locales (auto simp: bytes_ops_def)

interpretation bytes_sink: buf_mut bytes_mut_ops "\<lambda>b. b"
  by unfold_locales (auto simp: bytes_mut_ops_def)

end
