(* ===== verification/Varint.thy ===== *)
theory Varint
  imports Byte_Buffers
begin

text \<open>
  \<^verbatim>\<open>muxtls-proto/src/varint.rs\<close>: the QUIC-style variable-length integer, its shortest encoding and
  its decoder. The two top bits of the first byte give the encoded length.
\<close>

section \<open>Model\<close>

datatype varint = VarInt (into_inner: u64)

datatype varint_error = ValueTooLarge u64 | VarIntUnexpectedEof

definition varint_MAX :: u64 where
  "varint_MAX = push_bit 62 1 - 1"

definition from_u64 :: "u64 \<Rightarrow> varint_error + varint" where
  "from_u64 v = (if v > varint_MAX then Inl (ValueTooLarge v) else Inr (VarInt v))"

definition varint_encoded_len :: "varint \<Rightarrow> usize" where
  "varint_encoded_len x =
     (let v = into_inner x in
      if v \<le> 0x3f then 1 else if v \<le> 0x3fff then 2 else if v \<le> 0x3fffffff then 4 else 8)"

definition varint_encode :: "'o buf_mut_ops \<Rightarrow> varint \<Rightarrow> 'o \<Rightarrow> 'o" where
  "varint_encode M x out =
     (let v = into_inner x in
      if v \<le> 0x3f then put_u8 M (ucast v) out
      else if v \<le> 0x3fff then put_u16 M (0x4000 OR ucast v) out
      else if v \<le> 0x3fffffff then put_u32 M (0x80000000 OR ucast v) out
      else put_u64 M (0xc000000000000000 OR v) out)"

definition varint_decode :: "'b buf_ops \<Rightarrow> ('b, varint_error, varint) action" where
  "varint_decode B src =
     (if \<not> has_remaining B src then (Inl VarIntUnexpectedEof, src)
      else
        let (first, src) = get_u8 B src;
            tag = drop_bit 6 first;
            hi = ucast (first AND 0x3f) :: u64
        in if tag = 0 then (from_u64 hi, src)
           else if tag = 1 then
             (if remaining B src < 1 then (Inl VarIntUnexpectedEof, src)
              else let (b0, src) = get_u8 B src
                   in (from_u64 (push_bit 8 hi OR ucast b0), src))
           else if tag = 2 then
             (if remaining B src < 3 then (Inl VarIntUnexpectedEof, src)
              else let (b2, src) = get_u8 B src; (b1, src) = get_u8 B src; (b0, src) = get_u8 B src
                   in (from_u64 (push_bit 24 hi OR push_bit 16 (ucast b2)
                         OR push_bit 8 (ucast b1) OR ucast b0), src))
           else
             (if remaining B src < 7 then (Inl VarIntUnexpectedEof, src)
              else let (b6, src) = get_u8 B src; (b5, src) = get_u8 B src; (b4, src) = get_u8 B src;
                       (b3, src) = get_u8 B src; (b2, src) = get_u8 B src; (b1, src) = get_u8 B src;
                       (b0, src) = get_u8 B src
                   in (from_u64 (push_bit 56 hi OR push_bit 48 (ucast b6) OR push_bit 40 (ucast b5)
                         OR push_bit 32 (ucast b4) OR push_bit 24 (ucast b3) OR push_bit 16 (ucast b2)
                         OR push_bit 8 (ucast b1) OR ucast b0), src)))"

definition varint_try_from :: "u64 \<Rightarrow> varint_error + varint" where
  "varint_try_from value = from_u64 value"

definition u64_from :: "varint \<Rightarrow> u64" where
  "u64_from value = into_inner value"

definition wf_varint :: "varint \<Rightarrow> bool" where
  "wf_varint x \<longleftrightarrow> into_inner x \<le> varint_MAX"

section \<open>Bytes of the encoding\<close>

text \<open>The written bytes do not depend on the sink: \<open>varint_bytes\<close> is what every sink appends.\<close>

definition varint_bytes :: "varint \<Rightarrow> bytes" where
  "varint_bytes x =
     (let v = into_inner x in
      if v \<le> 0x3f then [ucast v]
      else if v \<le> 0x3fff then be_bytes 2 (0x4000 OR ucast v :: u16)
      else if v \<le> 0x3fffffff then be_bytes 4 (0x80000000 OR ucast v :: u32)
      else be_bytes 8 (0xc000000000000000 OR v))"

context buf_mut
begin

lemma varint_encode_written: "written (varint_encode M x out) = written out @ varint_bytes x"
  by (simp add: varint_encode_def varint_bytes_def Let_def put_written)

end

lemma length_varint_bytes: "length (varint_bytes x) = varint_encoded_len x"
  by (simp add: varint_bytes_def varint_encoded_len_def Let_def)

lemma varint_encoded_len_bounds: "1 \<le> varint_encoded_len x" "varint_encoded_len x \<le> 8"
  by (simp_all add: varint_encoded_len_def Let_def)

lemma varint_bytes_not_Nil [simp]: "varint_bytes x \<noteq> []"
  using varint_encoded_len_bounds(1) [of x] length_varint_bytes [of x] by force

lemma from_u64_Inr: "from_u64 v = Inr x \<longleftrightarrow> v \<le> varint_MAX \<and> x = VarInt v"
  by (auto simp: from_u64_def)

lemma from_u64_wf: "from_u64 v = Inr x \<Longrightarrow> wf_varint x \<and> into_inner x = v"
  by (auto simp: from_u64_Inr wf_varint_def)

lemma unat_varint_MAX: "unat varint_MAX = 2 ^ 62 - 1"
  by (simp add: varint_MAX_def)


lemma from_u64_unat: "unat v < 2 ^ 62 \<Longrightarrow> from_u64 v = Inr (VarInt v)"
  by (simp add: from_u64_Inr word_le_nat_alt unat_varint_MAX)

lemma wf_varint_unat: "wf_varint x \<longleftrightarrow> unat (into_inner x) < 2 ^ 62"
  by (auto simp: wf_varint_def word_le_nat_alt unat_varint_MAX)

section \<open>The integer representation of the protocol\<close>

text \<open>
  The wire format of PROTOCOL.md on numbers: the first byte's top two bits \<open>t\<close> announce \<open>2 ^ t\<close>
  bytes, whose remaining bits are a big-endian number. \<open>quic_decode\<close> is the specification of the
  decoder.
\<close>

definition quic_decode :: "bytes \<Rightarrow> (varint_error + nat) \<times> bytes" where
  "quic_decode xs =
     (case xs of [] \<Rightarrow> (Inl VarIntUnexpectedEof, [])
      | f # bs \<Rightarrow>
          let k = 2 ^ (unat f div 64) - 1 in
          if length bs < k then (Inl VarIntUnexpectedEof, bs)
          else (Inr (be_value (unat f mod 64) (take k bs)), drop k bs))"

lemma unat_low6: "unat ((f::byte) AND 0x3f) = unat f mod 64"
proof -
  have "f AND 0x3f = take_bit 6 f"
    by (simp add: take_bit_eq_mask mask_eq_exp_minus_1)
  then have "unat (f AND 0x3f) = take_bit 6 (unat f)"
    by (simp only: unsigned_take_bit_eq)
  then show ?thesis
    by (simp add: take_bit_eq_mod)
qed

lemma tag_eq: "drop_bit 6 (f::byte) = of_nat k \<longleftrightarrow> k mod 256 = unat f div 64"
proof -
  have "unat (drop_bit 6 f) = unat f div 64"
    by (simp add: unat_drop_bit_eq) (simp add: drop_bit_eq_div)
  then show ?thesis by (auto simp: word_unat_eq_iff unat_of_nat take_bit_eq_mod)
qed

lemmas tag_iffs = tag_eq [of _ 0, simplified] tag_eq [of _ 1, simplified] tag_eq [of _ 2, simplified]
lemmas field_simps_u64 = unat_push_bit_or unat_low6 unat_byte_u64

context buf
begin

text \<open>One lemma per tag: the value the decoder hands to \<^verbatim>\<open>from_u64\<close> and the bytes left.\<close>

lemma varint_decode_tag0:
  assumes "unread src = f # bs" "unat f div 64 = 0"
  shows "\<exists>v. unat v = be_value (unat f mod 64) [] \<and> fst (varint_decode B src) = from_u64 v
    \<and> unread (snd (varint_decode B src)) = bs"
  using assms
  by (intro exI [of _ "ucast (f AND 0x3f)"])
    (simp add: varint_decode_def case_prod_beta read_simps tag_iffs field_simps_u64)

lemma varint_decode_tag1:
  assumes "unread src = f # b0 # bs" "unat f div 64 = 1"
  shows "\<exists>v. unat v = be_value (unat f mod 64) [b0] \<and> fst (varint_decode B src) = from_u64 v
    \<and> unread (snd (varint_decode B src)) = bs"
  using assms unat_byte_less [of b0]
  by (intro exI [of _ "push_bit 8 (ucast (f AND 0x3f)) OR ucast b0"])
    (simp add: varint_decode_def case_prod_beta Let_def read_simps tag_iffs field_simps_u64)

lemma varint_decode_tag2:
  assumes "unread src = f # b2 # b1 # b0 # bs" "unat f div 64 = 2"
  shows "\<exists>v. unat v = be_value (unat f mod 64) [b2, b1, b0] \<and> fst (varint_decode B src) = from_u64 v
    \<and> unread (snd (varint_decode B src)) = bs"
  using assms unat_byte_less [of b0] unat_byte_less [of b1] unat_byte_less [of b2]
  by (intro exI [of _ "push_bit 24 (ucast (f AND 0x3f)) OR push_bit 16 (ucast b2)
        OR push_bit 8 (ucast b1) OR ucast b0"])
    (simp add: varint_decode_def case_prod_beta Let_def read_simps tag_iffs field_simps_u64)

lemma varint_decode_tag3:
  assumes "unread src = f # b6 # b5 # b4 # b3 # b2 # b1 # b0 # bs" "unat f div 64 = 3"
  shows "\<exists>v. unat v = be_value (unat f mod 64) [b6, b5, b4, b3, b2, b1, b0]
    \<and> fst (varint_decode B src) = from_u64 v \<and> unread (snd (varint_decode B src)) = bs"
  using assms unat_byte_less [of b0] unat_byte_less [of b1] unat_byte_less [of b2]
    unat_byte_less [of b3] unat_byte_less [of b4] unat_byte_less [of b5] unat_byte_less [of b6]
  by (intro exI [of _ "push_bit 56 (ucast (f AND 0x3f)) OR push_bit 48 (ucast b6)
        OR push_bit 40 (ucast b5) OR push_bit 32 (ucast b4) OR push_bit 24 (ucast b3)
        OR push_bit 16 (ucast b2) OR push_bit 8 (ucast b1) OR ucast b0"])
    (simp add: varint_decode_def case_prod_beta Let_def read_simps tag_iffs field_simps_u64)

lemma varint_decode_short:
  assumes "unread src = f # bs" "length bs < 2 ^ (unat f div 64) - 1"
  shows "fst (varint_decode B src) = Inl VarIntUnexpectedEof
    \<and> unread (snd (varint_decode B src)) = bs"
proof -
  have "unat f div 64 < 4" using unat_byte_less [of f] by simp
  then consider "unat f div 64 = 0" | "unat f div 64 = 1" | "unat f div 64 = 2" | "unat f div 64 = 3"
    by linarith
  then show ?thesis
    using assms
    by cases (simp_all add: varint_decode_def case_prod_beta read_simps tag_iffs)
qed

lemma upt_tails:
  "[0..<1] = [0::nat]" "[0..<3] = [0::nat, 1, 2]" "[0..<7] = [0::nat, 1, 2, 3, 4, 5, 6]"
  by code_simp+

lemma varint_decode_long:
  assumes u: "unread src = f # bs" and k: "k = 2 ^ (unat f div 64) - 1" "k \<le> length bs"
  shows "\<exists>v. unat v = be_value (unat f mod 64) (take k bs) \<and> fst (varint_decode B src) = from_u64 v
    \<and> unread (snd (varint_decode B src)) = drop k bs"
proof -
  have len: "take k bs = map ((!) bs) [0..<k]"
    using k(2) by (intro nth_equalityI) simp_all
  have bs: "bs = take k bs @ drop k bs" by simp
  have "unat f div 64 < 4" using unat_byte_less [of f] by simp
  then consider "unat f div 64 = 0" | "unat f div 64 = 1" | "unat f div 64 = 2" | "unat f div 64 = 3"
    by linarith
  then show ?thesis
  proof cases
    case 1
    then show ?thesis using varint_decode_tag0 [OF u] k by simp
  next
    case 2
    then have "take k bs = [bs ! 0]" using k len upt_tails by simp
    then show ?thesis using varint_decode_tag1 [of src f "bs ! 0" "drop k bs"] u bs 2 by simp
  next
    case 3
    then have "take k bs = [bs ! 0, bs ! 1, bs ! 2]" using k len upt_tails by simp
    then show ?thesis
      using varint_decode_tag2 [of src f "bs ! 0" "bs ! 1" "bs ! 2" "drop k bs"] u bs 3 by simp
  next
    case 4
    then have "take k bs = [bs ! 0, bs ! 1, bs ! 2, bs ! 3, bs ! 4, bs ! 5, bs ! 6]"
      using k len upt_tails by simp
    then show ?thesis
      using varint_decode_tag3 [of src f "bs ! 0" "bs ! 1" "bs ! 2" "bs ! 3" "bs ! 4" "bs ! 5" "bs ! 6"
          "drop k bs"] u bs 4 by simp
  qed
qed

lemma tag_value_bound:
  assumes "k = 2 ^ (unat (f::byte) div 64) - 1"
  shows "be_value (unat f mod 64) (take k bs) < 2 ^ 62"
proof -
  have f: "unat f div 64 < 4" using unat_byte_less [of f] by simp
  have k: "k \<le> 7" using f power_increasing [of "unat f div 64" 3 "2::nat"] assms by simp
  have "be_value (unat f mod 64) (take k bs) < (unat f mod 64 + 1) * 256 ^ length (take k bs)"
    by (rule be_value_less)
  also have "\<dots> \<le> 64 * 256 ^ 7"
    using k by (intro mult_le_mono power_increasing) (simp_all add: Suc_le_eq)
  finally show ?thesis by simp
qed

lemma varint_decode_quic:
  "(case fst (varint_decode B src) of Inl e \<Rightarrow> Inl e | Inr x \<Rightarrow> Inr (unat (into_inner x))) =
     fst (quic_decode (unread src))" (is ?result)
  "unread (snd (varint_decode B src)) = snd (quic_decode (unread src))" (is ?rest)
proof -
  have "?result \<and> ?rest"
  proof (cases "unread src")
    case Nil
    then show ?thesis by (simp add: varint_decode_def read_simps quic_decode_def)
  next
    case (Cons f bs)
    define k where "k = 2 ^ (unat f div 64) - (1::nat)"
    show ?thesis
    proof (cases "length bs < k")
      case True
      then show ?thesis
        using varint_decode_short [OF Cons] Cons by (simp add: quic_decode_def k_def)
    next
      case False
      then obtain v where v: "unat v = be_value (unat f mod 64) (take k bs)"
          "fst (varint_decode B src) = from_u64 v" "unread (snd (varint_decode B src)) = drop k bs"
        using varint_decode_long [OF Cons k_def] by auto
      then have "from_u64 v = Inr (VarInt v)"
        using from_u64_unat tag_value_bound [OF k_def] by simp
      then show ?thesis using v False Cons by (simp add: quic_decode_def k_def Let_def)
    qed
  qed
  then show ?result and ?rest by simp_all
qed

end

text \<open>Every sink receives an encoding that the specification reads back.\<close>

lemma quic_decode_be_bytes:
  assumes w: "unat w = t * (64 * 256 ^ n) + v" "v < 64 * 256 ^ n"
    and t: "t < 4" "m = 2 ^ t" and m: "m = Suc n"
  shows "quic_decode (be_bytes m w @ rest) = (Inr v, rest)"
proof -
  have top: "unat w div 256 ^ n = t * 64 + v div 256 ^ n"
    using w(1) by (simp add: div_add1_eq [of "t * (64 * 256 ^ n)"] mult.assoc [symmetric])
  have v: "v div 256 ^ n < 64" using w(2) by (simp add: less_mult_imp_div_less mult.commute)
  have f: "unat w div 256 ^ n mod 256 = t * 64 + v div 256 ^ n"
    using top v t(1) by simp
  have low: "unat w mod 256 ^ n = v mod 256 ^ n"
    using w(1) by (simp add: mod_add_eq [symmetric] mult.assoc [symmetric])
  have n: "2 ^ t - 1 = n" using t(2) m by simp
  have "be_value (v div 256 ^ n) (be_bytes n w) = v"
    by (simp add: be_value_be_bytes low div_mult_mod_eq)
  then show ?thesis
    using v n by (simp add: quic_decode_def m be_bytes_Suc unat_be_digit f)
qed

lemma unat_ucast_le:
  fixes v :: "'a::len word"
  assumes "unat v < 2 ^ LENGTH('b::len)"
  shows "unat (ucast v :: 'b word) = unat v"
  using assms by (simp add: unsigned_ucast_eq take_bit_nat_eq_self)

lemma unat_or_tag:
  fixes tag v :: "'a::len word"
  assumes "tag = push_bit n t" "unat v < 2 ^ n" "unat t * 2 ^ n < 2 ^ LENGTH('a)"
  shows "unat (tag OR v) = unat t * 2 ^ n + unat v"
  using assms unat_push_bit_or [of v n t] by simp

lemma quic_decode_varint_bytes:
  assumes "wf_varint x"
  shows "quic_decode (varint_bytes x @ rest) = (Inr (unat (into_inner x)), rest)"
proof -
  let ?v = "into_inner x"
  have v: "unat ?v < 2 ^ 62" using assms by (simp add: wf_varint_unat)
  consider (one) "?v \<le> 0x3f" | (two) "\<not> ?v \<le> 0x3f" "?v \<le> 0x3fff"
    | (four) "\<not> ?v \<le> 0x3fff" "?v \<le> 0x3fffffff" | (eight) "\<not> ?v \<le> 0x3fffffff" by auto
  then show ?thesis
  proof cases
    case one
    then have "unat ?v \<le> 63" by (simp add: word_le_nat_alt)
    then have "quic_decode (be_bytes 1 (ucast ?v :: byte) @ rest) = (Inr (unat ?v), rest)"
      by (intro quic_decode_be_bytes [where t = 0 and n = 0]) (simp_all add: unat_ucast_le)
    then show ?thesis using one by (simp add: varint_bytes_def be_bytes_Suc)
  next
    case two
    then have le: "unat ?v \<le> 0x3fff" by (simp add: word_le_nat_alt)
    then have "unat (0x4000 OR ucast ?v :: u16) = 1 * 2 ^ 14 + unat ?v"
      by (subst unat_or_tag [where n = 14 and t = 1]) (simp_all add: unat_ucast_le)
    then have "quic_decode (be_bytes 2 (0x4000 OR ucast ?v :: u16) @ rest) = (Inr (unat ?v), rest)"
      using le by (intro quic_decode_be_bytes [where t = 1 and n = 1]) simp_all
    then show ?thesis using two by (simp add: varint_bytes_def)
  next
    case four
    then have le: "unat ?v \<le> 0x3fffffff" by (simp add: word_le_nat_alt)
    then have "unat (0x80000000 OR ucast ?v :: u32) = 2 * 2 ^ 30 + unat ?v"
      by (subst unat_or_tag [where n = 30 and t = 2]) (simp_all add: unat_ucast_le)
    then have "quic_decode (be_bytes 4 (0x80000000 OR ucast ?v :: u32) @ rest) = (Inr (unat ?v), rest)"
      using le by (intro quic_decode_be_bytes [where t = 2 and n = 3]) simp_all
    moreover have "\<not> ?v \<le> 0x3f" using four(1) by (simp add: word_le_nat_alt)
    ultimately show ?thesis using four by (simp add: varint_bytes_def)
  next
    case eight
    from v have "unat (0xc000000000000000 OR ?v) = 3 * 2 ^ 62 + unat ?v"
      by (subst unat_or_tag [where n = 62 and t = 3]) simp_all
    then have "quic_decode (be_bytes 8 (0xc000000000000000 OR ?v) @ rest) = (Inr (unat ?v), rest)"
      using v by (intro quic_decode_be_bytes [where t = 3 and n = 7]) simp_all
    moreover have "\<not> ?v \<le> 0x3f" "\<not> ?v \<le> 0x3fff" using eight by (simp_all add: word_le_nat_alt)
    ultimately show ?thesis using eight by (simp add: varint_bytes_def)
  qed
qed

lemma quic_decode_shortest:
  assumes "quic_decode xs = (Inr (unat (into_inner x)), ys)"
  shows "varint_encoded_len x + length ys \<le> length xs"
proof (cases xs)
  case Nil
  then show ?thesis using assms by (simp add: quic_decode_def)
next
  case (Cons f bs)
  define k where "k = 2 ^ (unat f div 64) - (1::nat)"
  have d: "k \<le> length bs" "unat (into_inner x) = be_value (unat f mod 64) (take k bs)" "ys = drop k bs"
    using assms Cons by (auto simp: quic_decode_def k_def Let_def split: if_splits)
  have "unat (into_inner x) < (unat f mod 64 + 1) * 256 ^ length (take k bs)"
    unfolding d(2) by (rule be_value_less)
  also have "\<dots> \<le> 64 * 256 ^ k"
    using d(1) by (intro mult_le_mono) (simp_all add: Suc_le_eq)
  finally have v: "unat (into_inner x) < 64 * 256 ^ k" .
  have "unat f div 64 < 4" using unat_byte_less [of f] by simp
  then consider "unat f div 64 = 0" | "unat f div 64 = 1" | "unat f div 64 = 2" | "unat f div 64 = 3"
    by linarith
  then have "varint_encoded_len x \<le> Suc k"
    by cases (use v in \<open>simp_all add: k_def varint_encoded_len_def word_le_nat_alt Let_def\<close>)
  then show ?thesis using Cons d by simp
qed

context buf
begin

lemma varint_decode_Inr:
  assumes "varint_decode B src = (Inr x, src')"
  shows "quic_decode (unread src) = (Inr (unat (into_inner x)), unread src')"
  using varint_decode_quic [of src] assms by (simp add: prod_eq_iff)

lemma varint_decode_Inl:
  assumes "varint_decode B src = (Inl e, src')"
  shows "quic_decode (unread src) = (Inl e, unread src')"
  using varint_decode_quic [of src] assms by (simp add: prod_eq_iff)

lemma varint_decode_wf:
  assumes "varint_decode B src = (Inr x, src')"
  shows "wf_varint x"
proof -
  from varint_decode_Inr [OF assms] obtain f bs where u: "unread src = f # bs"
    by (auto simp: quic_decode_def split: list.splits)
  with varint_decode_Inr [OF assms] show ?thesis
    using tag_value_bound [OF refl, of f bs]
    by (auto simp: quic_decode_def wf_varint_unat Let_def split: if_splits)
qed

lemma varint_decode_encoded:
  assumes "wf_varint x" "unread src = varint_bytes x @ rest"
  shows "fst (varint_decode B src) = Inr x \<and> unread (snd (varint_decode B src)) = rest"
proof -
  have q: "quic_decode (unread src) = (Inr (unat (into_inner x)), rest)"
    using quic_decode_varint_bytes assms by simp
  then obtain y where y: "fst (varint_decode B src) = Inr y" "unat (into_inner y) = unat (into_inner x)"
    using varint_decode_quic(1) [of src] by (cases "fst (varint_decode B src)") auto
  then have "y = x" by (cases x; cases y) (simp add: word_unat_eq_iff)
  then show ?thesis using y q varint_decode_quic(2) [of src] by simp
qed

end

section \<open>Properties\<close>

text \<open>C24 (roundtrip): whatever source and sink implement the buffer traits, decoding what
  \<^verbatim>\<open>VarInt::encode\<close> appended for an integer that \<^verbatim>\<open>VarInt::from_u64\<close> accepts returns that integer
  and leaves exactly the bytes that follow it.\<close>

theorem varint_roundtrip:
  assumes "buf B unread" "buf_mut M written"
    and "from_u64 v = Inr x"
    and "written out = []" "unread src = written (varint_encode M x out) @ rest"
  shows "fst (varint_decode B src) = Inr x \<and> unread (snd (varint_decode B src)) = rest"
proof -
  have "unread src = varint_bytes x @ rest"
    using buf_mut.varint_encode_written [OF assms(2)] assms(4,5) by simp
  with buf.varint_decode_encoded [OF assms(1)] from_u64_wf [OF assms(3)] show ?thesis by blast
qed

theorem varint_roundtrip_witness:
  "varint_decode bytes_ops (varint_encode bytes_mut_ops (VarInt 15293) [] @ [7]) = (Inr (VarInt 15293), [7])"
proof -
  have "from_u64 15293 = Inr (VarInt 15293)"
    by (simp add: from_u64_def varint_MAX_def)
  from varint_roundtrip [OF bytes_buf.buf_axioms bytes_sink.buf_mut_axioms this refl refl, of "[7]"]
  show ?thesis by (simp add: prod_eq_iff)
qed

text \<open>C25 (refinement): the decoder is the integer representation of the protocol: the top two bits of
  the first byte announce 1, 2, 4 or 8 bytes, an input shorter than that is the only error, and the
  remaining bits in network order are the value; the shifts and masks of the code never overflow and
  \<^verbatim>\<open>from_u64\<close> never rejects a decoded value.\<close>

theorem varint_decode_refines_quic:
  assumes "buf B unread"
  shows "(case fst (varint_decode B src) of Inl e \<Rightarrow> Inl e | Inr x \<Rightarrow> Inr (unat (into_inner x))) =
      fst (quic_decode (unread src))
    \<and> unread (snd (varint_decode B src)) = snd (quic_decode (unread src))"
  using buf.varint_decode_quic [OF assms] by blast

theorem varint_decode_refines_quic_witness:
  "varint_decode bytes_ops [0x7b, 0xbd, 1] = (Inr (VarInt 15293), [1])
    \<and> quic_decode [0x7b, 0xbd, 1] = (Inr 15293, [1])"
  using varint_decode_refines_quic [OF bytes_buf.buf_axioms, of "[0x7b, 0xbd, 1]"]
  by (simp add: varint_decode_def from_u64_def varint_MAX_def quic_decode_def Let_def)

text \<open>C26 (bounds): the encoder writes \<^verbatim>\<open>encoded_len\<close> bytes, and no byte string that decodes to the same
  integer is shorter.\<close>

theorem varint_encoding_shortest:
  assumes "buf B unread" "buf_mut M written" "varint_decode B src = (Inr x, src')"
  shows "length (written (varint_encode M x out)) = length (written out) + varint_encoded_len x
    \<and> varint_encoded_len x + length (unread src') \<le> length (unread src)"
  using quic_decode_shortest [OF buf.varint_decode_Inr [OF assms(1,3)]]
    buf_mut.varint_encode_written [OF assms(2)] length_varint_bytes by simp

theorem varint_encoding_shortest_witness:
  "varint_decode bytes_ops [0x40, 37] = (Inr (VarInt 37), [])
    \<and> length (varint_encode bytes_mut_ops (VarInt 37) []) = 1"
proof -
  have d: "varint_decode bytes_ops [0x40, 37] = (Inr (VarInt 37), [])"
    by (simp add: varint_decode_def from_u64_def varint_MAX_def Let_def)
  show ?thesis
    using d varint_encoding_shortest [OF bytes_buf.buf_axioms bytes_sink.buf_mut_axioms d, of "[]"]
    by (simp add: varint_encoded_len_def)
qed

end
