(* ===== verification/Frame_Codec.thy ===== *)
theory Frame_Codec
  imports Varint Utf8
begin

text \<open>
  \<^verbatim>\<open>muxtls-proto/src/frame.rs\<close> and \<^verbatim>\<open>muxtls-proto/src/error.rs\<close>: the nine frame types of protocol
  version 1, their exact encoded length, the encoder and the decoder with every rejection. The decoder
  is a fallible computation over the unread input, composed with \<^const>\<open>and_then\<close> where the
  source uses \<open>?\<close>.
\<close>

section \<open>Model\<close>

datatype error_code = ErrorCode (code_varint: varint)

datatype proto_error =
    VarIntErr varint_error
  | UnexpectedEof
  | UnknownFrameType byte
  | UnsupportedFlags byte byte
  | InvalidUtf8
  | TrailingBytes usize
  | LengthOverflow u64

datatype frame =
    Stream varint bool bytes \<comment> \<open>stream id, fin, payload\<close>
  | ResetStream varint error_code
  | OpenStream varint
  | Settings varint varint varint \<comment> \<open>max data, max stream data, max frame size\<close>
  | MaxData varint
  | MaxStreamData varint varint
  | StopSending varint
  | Ping
  | ConnectionClose error_code rust_string

definition STREAM_FIN_FLAG :: byte where
  "STREAM_FIN_FLAG = 0x01"

definition error_code_from_u64 :: "u64 \<Rightarrow> proto_error + error_code" where
  "error_code_from_u64 value = (case from_u64 value of Inl e \<Rightarrow> Inl (VarIntErr e) | Inr x \<Rightarrow> Inr (ErrorCode x))"

definition error_code_into_inner :: "error_code \<Rightarrow> u64" where
  "error_code_into_inner c = into_inner (code_varint c)"

definition error_code_encoded_len :: "error_code \<Rightarrow> usize" where
  "error_code_encoded_len c = varint_encoded_len (code_varint c)"

text \<open>\<open>len.try_into()\<close> from \<open>usize\<close> to \<open>u64\<close> and from \<open>u64\<close> to \<open>usize\<close>.\<close>

definition u64_try_from_usize :: "usize \<Rightarrow> proto_error + u64" where
  "u64_try_from_usize n = (if n < 2 ^ 64 then Inr (of_nat n) else Inl (LengthOverflow (- 1)))"

definition usize_try_from_u64 :: "u64 \<Rightarrow> proto_error + usize" where
  "usize_try_from_u64 w = (if unat w \<le> usize_max then Inr (unat w) else Inl (LengthOverflow w))"

definition length_varint :: "usize \<Rightarrow> proto_error + varint" where
  "length_varint n =
     (case u64_try_from_usize n of Inl e \<Rightarrow> Inl e | Inr v \<Rightarrow> map_err VarIntErr (from_u64 v))"

fun frame_encoded_len :: "frame \<Rightarrow> proto_error + usize" where
  "frame_encoded_len (Stream stream_id fin payload) =
     (case length_varint (length payload) of Inl e \<Rightarrow> Inl e
      | Inr payload_len \<Rightarrow>
          Inr (1 + varint_encoded_len stream_id + 1 + varint_encoded_len payload_len + length payload))"
| "frame_encoded_len (ResetStream stream_id error_code) =
     Inr (1 + varint_encoded_len stream_id + error_code_encoded_len error_code)"
| "frame_encoded_len (OpenStream stream_id) = Inr (1 + varint_encoded_len stream_id)"
| "frame_encoded_len (Settings max_data max_stream_data max_frame_size) =
     Inr (1 + varint_encoded_len max_data + varint_encoded_len max_stream_data
            + varint_encoded_len max_frame_size)"
| "frame_encoded_len (MaxData maximum) = Inr (1 + varint_encoded_len maximum)"
| "frame_encoded_len (MaxStreamData stream_id maximum) =
     Inr (1 + varint_encoded_len stream_id + varint_encoded_len maximum)"
| "frame_encoded_len (StopSending stream_id) = Inr (1 + varint_encoded_len stream_id)"
| "frame_encoded_len Ping = Inr 1"
| "frame_encoded_len (ConnectionClose error_code reason) =
     (case length_varint (length reason) of Inl e \<Rightarrow> Inl e
      | Inr reason_len \<Rightarrow>
          Inr (1 + error_code_encoded_len error_code + varint_encoded_len reason_len + length reason))"

text \<open>\<open>VarInt::from_u64(len as u64)?.encode(out); out.put_slice(data)\<close>\<close>

definition encode_sized :: "'o buf_mut_ops \<Rightarrow> bytes \<Rightarrow> ('o, proto_error, unit) action" where
  "encode_sized M data out =
     (case from_u64 (as_u64 (length data)) of
        Inl e \<Rightarrow> (Inl (VarIntErr e), out)
      | Inr len \<Rightarrow> (Inr (), put_slice M data (varint_encode M len out)))"

fun frame_encode :: "'o buf_mut_ops \<Rightarrow> frame \<Rightarrow> ('o, proto_error, unit) action" where
  "frame_encode M (Stream stream_id fin payload) out =
     encode_sized M payload
       (put_u8 M (if fin then STREAM_FIN_FLAG else 0) (varint_encode M stream_id (put_u8 M 0x00 out)))"
| "frame_encode M (ResetStream stream_id error_code) out =
     (Inr (), varint_encode M (code_varint error_code) (varint_encode M stream_id (put_u8 M 0x01 out)))"
| "frame_encode M (OpenStream stream_id) out =
     (Inr (), varint_encode M stream_id (put_u8 M 0x04 out))"
| "frame_encode M (Settings max_data max_stream_data max_frame_size) out =
     (Inr (), varint_encode M max_frame_size (varint_encode M max_stream_data
        (varint_encode M max_data (put_u8 M 0x05 out))))"
| "frame_encode M (MaxData maximum) out = (Inr (), varint_encode M maximum (put_u8 M 0x06 out))"
| "frame_encode M (MaxStreamData stream_id maximum) out =
     (Inr (), varint_encode M maximum (varint_encode M stream_id (put_u8 M 0x07 out)))"
| "frame_encode M (StopSending stream_id) out = (Inr (), varint_encode M stream_id (put_u8 M 0x08 out))"
| "frame_encode M Ping out = (Inr (), put_u8 M 0x02 out)"
| "frame_encode M (ConnectionClose error_code reason) out =
     encode_sized M reason (varint_encode M (code_varint error_code) (put_u8 M 0x03 out))"

text \<open>\<open>VarInt::decode(src)?\<close> inside the frame decoder, the length-prefixed byte string read by the
  STREAM and CONNECTION_CLOSE branches, and those two branches.\<close>

definition decode_varint :: "'b buf_ops \<Rightarrow> ('b, proto_error, varint) action" where
  "decode_varint B = lift_err VarIntErr (varint_decode B)"

definition decode_sized :: "'b buf_ops \<Rightarrow> ('b, proto_error, bytes) action" where
  "decode_sized B =
     and_then (decode_varint B) (\<lambda>len.
     and_then (of_result (usize_try_from_u64 (into_inner len))) (\<lambda>n src.
       if remaining B src < n then (Inl UnexpectedEof, src)
       else let (data, src) = copy_to_bytes B n src in (Inr data, src)))"

definition decode_stream :: "'b buf_ops \<Rightarrow> byte \<Rightarrow> ('b, proto_error, frame) action" where
  "decode_stream B frame_type =
     and_then (decode_varint B) (\<lambda>stream_id src.
       if \<not> has_remaining B src then (Inl UnexpectedEof, src)
       else let (flags, src) = get_u8 B src in
         if flags AND NOT STREAM_FIN_FLAG \<noteq> 0 then (Inl (UnsupportedFlags frame_type flags), src)
         else and_then (decode_sized B)
                (\<lambda>payload. ok (Stream stream_id (flags AND STREAM_FIN_FLAG \<noteq> 0) payload)) src)"

definition decode_close :: "'b buf_ops \<Rightarrow> ('b, proto_error, frame) action" where
  "decode_close B =
     and_then (decode_varint B) (\<lambda>error_code.
     and_then (decode_sized B) (\<lambda>reason.
       if utf8_valid reason then ok (ConnectionClose (ErrorCode error_code) reason)
       else err InvalidUtf8))"

definition decode_body :: "'b buf_ops \<Rightarrow> byte \<Rightarrow> ('b, proto_error, frame) action" where
  "decode_body B frame_type =
     (if frame_type = 0x00 then decode_stream B frame_type
      else if frame_type = 0x01 then
        and_then (decode_varint B) (\<lambda>stream_id. and_then (decode_varint B) (\<lambda>error_code.
          ok (ResetStream stream_id (ErrorCode error_code))))
      else if frame_type = 0x02 then ok Ping
      else if frame_type = 0x03 then decode_close B
      else if frame_type = 0x04 then and_then (decode_varint B) (\<lambda>stream_id. ok (OpenStream stream_id))
      else if frame_type = 0x05 then
        and_then (decode_varint B) (\<lambda>max_data. and_then (decode_varint B) (\<lambda>max_stream_data.
          and_then (decode_varint B) (\<lambda>max_frame_size. ok (Settings max_data max_stream_data max_frame_size))))
      else if frame_type = 0x06 then and_then (decode_varint B) (\<lambda>maximum. ok (MaxData maximum))
      else if frame_type = 0x07 then
        and_then (decode_varint B) (\<lambda>stream_id. and_then (decode_varint B) (\<lambda>maximum.
          ok (MaxStreamData stream_id maximum)))
      else if frame_type = 0x08 then and_then (decode_varint B) (\<lambda>stream_id. ok (StopSending stream_id))
      else err (UnknownFrameType frame_type))"

definition frame_decode :: "'b buf_ops \<Rightarrow> ('b, proto_error, frame) action" where
  "frame_decode B src =
     (if \<not> has_remaining B src then (Inl UnexpectedEof, src)
      else let (frame_type, src) = get_u8 B src in
        and_then (decode_body B frame_type)
          (\<lambda>frame src. if has_remaining B src then (Inl (TrailingBytes (remaining B src)), src)
                       else (Inr frame, src)) src)"

section \<open>Well-formed frames and their bytes\<close>

text \<open>What the Rust types guarantee of a frame: every \<open>VarInt\<close> was made by \<open>from_u64\<close>, a
  \<open>String\<close> is valid UTF-8; and lengths are representable.\<close>

fun wf_frame :: "frame \<Rightarrow> bool" where
  "wf_frame (Stream stream_id fin payload) \<longleftrightarrow> wf_varint stream_id \<and> length payload < 2 ^ 62"
| "wf_frame (ResetStream stream_id error_code) \<longleftrightarrow> wf_varint stream_id \<and> wf_varint (code_varint error_code)"
| "wf_frame (OpenStream stream_id) \<longleftrightarrow> wf_varint stream_id"
| "wf_frame (Settings a b c) \<longleftrightarrow> wf_varint a \<and> wf_varint b \<and> wf_varint c"
| "wf_frame (MaxData maximum) \<longleftrightarrow> wf_varint maximum"
| "wf_frame (MaxStreamData stream_id maximum) \<longleftrightarrow> wf_varint stream_id \<and> wf_varint maximum"
| "wf_frame (StopSending stream_id) \<longleftrightarrow> wf_varint stream_id"
| "wf_frame Ping \<longleftrightarrow> True"
| "wf_frame (ConnectionClose error_code reason) \<longleftrightarrow>
     wf_varint (code_varint error_code) \<and> length reason < 2 ^ 62 \<and> utf8_valid reason"

definition sized_bytes :: "bytes \<Rightarrow> bytes" where
  "sized_bytes data = varint_bytes (VarInt (as_u64 (length data))) @ data"

fun frame_bytes :: "frame \<Rightarrow> bytes" where
  "frame_bytes (Stream stream_id fin payload) =
     0x00 # varint_bytes stream_id @ [if fin then STREAM_FIN_FLAG else 0] @ sized_bytes payload"
| "frame_bytes (ResetStream stream_id error_code) =
     0x01 # varint_bytes stream_id @ varint_bytes (code_varint error_code)"
| "frame_bytes (OpenStream stream_id) = 0x04 # varint_bytes stream_id"
| "frame_bytes (Settings a b c) = 0x05 # varint_bytes a @ varint_bytes b @ varint_bytes c"
| "frame_bytes (MaxData maximum) = 0x06 # varint_bytes maximum"
| "frame_bytes (MaxStreamData stream_id maximum) = 0x07 # varint_bytes stream_id @ varint_bytes maximum"
| "frame_bytes (StopSending stream_id) = 0x08 # varint_bytes stream_id"
| "frame_bytes Ping = [0x02]"
| "frame_bytes (ConnectionClose error_code reason) =
     0x03 # varint_bytes (code_varint error_code) @ sized_bytes reason"

lemma length_varint_small:
  assumes "n < 2 ^ 62"
  shows "from_u64 (as_u64 n) = Inr (VarInt (as_u64 n))" "wf_varint (VarInt (as_u64 n))"
    "length_varint n = Inr (VarInt (as_u64 n))"
proof -
  have n: "unat (as_u64 n) = n" using assms by (simp add: unat_as_u64)
  show f: "from_u64 (as_u64 n) = Inr (VarInt (as_u64 n))"
    using assms n by (simp add: from_u64_unat)
  then show "wf_varint (VarInt (as_u64 n))" using from_u64_wf by blast
  show "length_varint n = Inr (VarInt (as_u64 n))"
    using assms f by (simp add: length_varint_def u64_try_from_usize_def as_u64_def [symmetric])
qed

lemma encoded_len_lengths:
  "varint_encoded_len x = length (varint_bytes x)"
  "error_code_encoded_len c = length (varint_bytes (code_varint c))"
  by (simp_all add: length_varint_bytes error_code_encoded_len_def)

lemma frame_encoded_len_exact:
  "wf_frame f \<Longrightarrow> frame_encoded_len f = Inr (length (frame_bytes f))"
  by (cases f) (simp_all add: encoded_len_lengths sized_bytes_def length_varint_small)

context buf_mut
begin

lemma encode_sized_written:
  assumes "length data < 2 ^ 62"
  shows "fst (encode_sized M data out) = Inr ()
    \<and> written (snd (encode_sized M data out)) = written out @ sized_bytes data"
  using assms
  by (simp add: encode_sized_def length_varint_small put_written varint_encode_written sized_bytes_def)

lemma frame_encode_written:
  "wf_frame f \<Longrightarrow> fst (frame_encode M f out) = Inr ()
     \<and> written (snd (frame_encode M f out)) = written out @ frame_bytes f"
  by (cases f) (simp_all add: encode_sized_written put_written varint_encode_written)

end

section \<open>Reading back\<close>

text \<open>\<open>reads unread m xs a\<close>: the computation \<open>m\<close>, run on any source whose unread bytes start with \<open>xs\<close>,
  returns \<open>a\<close> and consumes exactly \<open>xs\<close>. The rules below follow the composition of the decoder.\<close>

definition reads :: "('b \<Rightarrow> bytes) \<Rightarrow> ('b, 'e, 'a) action \<Rightarrow> bytes \<Rightarrow> 'a \<Rightarrow> bool" where
  "reads unread m xs a \<longleftrightarrow>
     (\<forall>src rest. unread src = xs @ rest \<longrightarrow> (\<exists>src'. m src = (Inr a, src') \<and> unread src' = rest))"

lemma reads_ok: "reads unread (ok a) [] a"
  by (simp add: reads_def ok_def)

lemma reads_and_then:
  assumes "reads unread m xs a" "reads unread (k a) ys b"
  shows "reads unread (and_then m k) (xs @ ys) b"
  unfolding reads_def
proof (intro allI impI)
  fix src rest
  assume "unread src = (xs @ ys) @ rest"
  then obtain s1 where "m src = (Inr a, s1)" "unread s1 = ys @ rest"
    using assms(1) unfolding reads_def by fastforce
  moreover then obtain s2 where "k a s1 = (Inr b, s2)" "unread s2 = rest"
    using assms(2) unfolding reads_def by fastforce
  ultimately show "\<exists>src'. and_then m k src = (Inr b, src') \<and> unread src' = rest"
    by (simp add: and_then_def)
qed

lemma reads_last:
  assumes "reads unread m xs a" "k a = ok b"
  shows "reads unread (and_then m k) xs b"
proof -
  have "reads unread (k a) [] b" unfolding assms(2) by (rule reads_ok)
  from reads_and_then [of unread m xs a k "[]" b, OF assms(1) this] show ?thesis by simp
qed

context buf
begin

lemma reads_varint: "wf_varint x \<Longrightarrow> reads unread (decode_varint B) (varint_bytes x) x"
  using varint_decode_encoded
  by (fastforce simp: reads_def decode_varint_def lift_err_def split: prod.splits sum.splits)

lemma reads_sized:
  assumes "length data < 2 ^ 62"
  shows "reads unread (decode_sized B) (sized_bytes data) data"
proof -
  let ?x = "VarInt (as_u64 (length data))"
  have n: "usize_try_from_u64 (as_u64 (length data)) = Inr (length data)"
    using assms by (simp add: usize_try_from_u64_def usize_max_def unat_as_u64)
  have "reads unread (and_then (of_result (usize_try_from_u64 (into_inner ?x))) (\<lambda>n src.
      if remaining B src < n then (Inl UnexpectedEof, src)
      else let (data, src) = copy_to_bytes B n src in (Inr data, src))) data data"
    by (auto simp: reads_def and_then_def of_result_def n read_simps case_prod_beta)
  then show ?thesis
    unfolding decode_sized_def sized_bytes_def
    by (intro reads_and_then [OF reads_varint]) (use assms length_varint_small(2) in auto)
qed

lemma reads_stream:
  assumes "wf_varint stream_id" "length payload < 2 ^ 62"
  shows "reads unread (decode_stream B ft)
    (varint_bytes stream_id @ [if fin then STREAM_FIN_FLAG else 0] @ sized_bytes payload)
    (Stream stream_id fin payload)"
  unfolding decode_stream_def
proof (rule reads_and_then [OF reads_varint [OF assms(1)]])
  let ?flag = "if fin then STREAM_FIN_FLAG else 0"
  have flag: "?flag AND NOT STREAM_FIN_FLAG = 0" "(?flag AND STREAM_FIN_FLAG \<noteq> 0) = fin"
    by (simp_all add: STREAM_FIN_FLAG_def)
  have "reads unread (and_then (decode_sized B) (\<lambda>payload. ok (Stream stream_id fin payload)))
      (sized_bytes payload) (Stream stream_id fin payload)"
    by (rule reads_last [OF reads_sized [OF assms(2)]]) simp
  then show "reads unread (\<lambda>src. if \<not> has_remaining B src then (Inl UnexpectedEof, src)
       else let (flags, src) = get_u8 B src in
         if flags AND NOT STREAM_FIN_FLAG \<noteq> 0 then (Inl (UnsupportedFlags ft flags), src)
         else and_then (decode_sized B)
                (\<lambda>payload. ok (Stream stream_id (flags AND STREAM_FIN_FLAG \<noteq> 0) payload)) src)
     ([?flag] @ sized_bytes payload) (Stream stream_id fin payload)"
    by (simp add: reads_def read_simps case_prod_beta flag)
qed

lemma reads_close:
  assumes "wf_varint (code_varint c)" "length reason < 2 ^ 62" "utf8_valid reason"
  shows "reads unread (decode_close B) (varint_bytes (code_varint c) @ sized_bytes reason)
    (ConnectionClose c reason)"
  unfolding decode_close_def
  by (intro reads_and_then [OF reads_varint [OF assms(1)]] reads_last [OF reads_sized [OF assms(2)]])
    (simp add: assms(3))

lemma reads_body:
  assumes "wf_frame f" "frame_bytes f = ft # xs"
  shows "reads unread (decode_body B ft) xs f"
  using assms
  by (cases f)
    (auto simp: decode_body_def reads_ok
      intro!: reads_stream [simplified] reads_close reads_and_then [OF reads_varint] reads_last [OF reads_varint])

lemma frame_decode_bytes:
  assumes "wf_frame f" "unread src = frame_bytes f"
  shows "fst (frame_decode B src) = Inr f \<and> unread (snd (frame_decode B src)) = []"
proof -
  obtain ft xs where fb: "frame_bytes f = ft # xs" by (cases f) auto
  let ?s = "snd (get_u8 B src)"
  have "unread ?s = xs @ []" using assms(2) fb by (simp add: read_simps)
  then obtain s2 where "decode_body B ft ?s = (Inr f, s2)" "unread s2 = []"
    using reads_body [OF assms(1) fb] unfolding reads_def by blast
  then show ?thesis
    using assms(2) fb by (simp add: frame_decode_def read_simps case_prod_beta and_then_def)
qed

section \<open>What a successful decode says about the input\<close>

lemma decode_varint_consumes:
  assumes "decode_varint B src = (Inr x, src')"
  shows "wf_varint x \<and> length (varint_bytes x) + length (unread src') \<le> length (unread src)"
proof -
  have d: "varint_decode B src = (Inr x, src')"
    using assms by (auto simp: decode_varint_def lift_err_def split: prod.splits sum.splits)
  show ?thesis
    using varint_decode_wf [OF d] quic_decode_shortest [OF varint_decode_Inr [OF d]]
    by (simp add: length_varint_bytes)
qed

lemma decode_sized_consumes:
  assumes "decode_sized B src = (Inr d, src')"
  shows "length d < 2 ^ 62 \<and> length (sized_bytes d) + length (unread src') \<le> length (unread src)"
proof -
  from assms obtain len s1 n where v: "decode_varint B src = (Inr len, s1)"
      and n: "usize_try_from_u64 (into_inner len) = Inr n" and le: "\<not> remaining B s1 < n"
      and d: "copy_to_bytes B n s1 = (d, src')"
    by (auto simp: decode_sized_def and_then_Inr of_result_def case_prod_beta split: if_splits)
  have dl: "d = take n (unread s1)" "unread src' = drop n (unread s1)"
    using d le copy_taken [of n s1] copy_rest [of n s1] by (simp_all add: remaining_length)
  have ln: "length d = n" using dl le by (simp add: remaining_length)
  have len: "len = VarInt (as_u64 n)"
    using n by (cases len) (auto simp: usize_try_from_u64_def as_u64_def split: if_splits)
  have wf: "wf_varint len" and c: "length (varint_bytes len) + length (unread s1) \<le> length (unread src)"
    using decode_varint_consumes [OF v] by auto
  have "n < 2 ^ 62"
    using wf n by (auto simp: wf_varint_unat usize_try_from_u64_def split: if_splits)
  then show ?thesis
    using c ln dl le by (simp add: sized_bytes_def len [symmetric] remaining_length)
qed

lemma decode_stream_consumes:
  assumes "decode_stream B ft src = (Inr f, src')"
  shows "wf_frame f \<and> length (frame_bytes f) + length (unread src') \<le> Suc (length (unread src))"
proof -
  from assms obtain sid s1 payload where v: "decode_varint B src = (Inr sid, s1)" and ne: "unread s1 \<noteq> []"
      and p: "decode_sized B (snd (get_u8 B s1)) = (Inr payload, src')"
      and f: "f = Stream sid (fst (get_u8 B s1) AND STREAM_FIN_FLAG \<noteq> 0) payload"
    by (auto simp: decode_stream_def and_then_Inr ok_def case_prod_beta read_simps split: if_splits)
  have "length (unread s1) = Suc (length (unread (snd (get_u8 B s1))))"
    using ne by (simp add: read_simps)
  then show ?thesis
    using decode_varint_consumes [OF v] decode_sized_consumes [OF p] f by auto
qed

lemma decode_close_consumes:
  assumes "decode_close B src = (Inr f, src')"
  shows "wf_frame f \<and> length (frame_bytes f) + length (unread src') \<le> Suc (length (unread src))"
  using assms
  by (fastforce simp: decode_close_def and_then_Inr ok_def err_def split: if_splits
      dest: decode_varint_consumes decode_sized_consumes)

lemma decode_body_consumes:
  assumes "decode_body B ft src = (Inr f, src')"
  shows "wf_frame f \<and> length (frame_bytes f) + length (unread src') \<le> Suc (length (unread src))"
  using assms
  by (auto simp: decode_body_def and_then_Inr ok_def err_def split: if_splits
      dest!: decode_varint_consumes dest: decode_stream_consumes decode_close_consumes)

lemma frame_decode_consumes:
  assumes "frame_decode B src = (Inr f, src')"
  shows "wf_frame f \<and> length (frame_bytes f) \<le> length (unread src) \<and> unread src' = []"
proof -
  from assms have ne: "unread src \<noteq> []" and e: "unread src' = []"
    and d: "decode_body B (fst (get_u8 B src)) (snd (get_u8 B src)) = (Inr f, src')"
    by (auto simp: frame_decode_def read_simps case_prod_beta and_then_Inr split: if_splits)
  show ?thesis using decode_body_consumes [OF d] ne e by (simp add: read_simps)
qed

end

section \<open>Truncated and overlong inputs\<close>

definition is_eof :: "proto_error \<Rightarrow> bool" where
  "is_eof e \<longleftrightarrow> e = UnexpectedEof \<or> e = VarIntErr VarIntUnexpectedEof"

text \<open>\<open>starves unread m xs\<close>: on every strict prefix of \<open>xs\<close> the computation runs out of input.\<close>

definition starves :: "('b \<Rightarrow> bytes) \<Rightarrow> ('b, proto_error, 'a) action \<Rightarrow> bytes \<Rightarrow> bool" where
  "starves unread m xs \<longleftrightarrow>
     (\<forall>src n. unread src = take n xs \<longrightarrow> n < length xs \<longrightarrow> (\<exists>e src'. m src = (Inl e, src') \<and> is_eof e))"

lemma starves_and_then:
  assumes "reads unread m xs a" "starves unread m xs" "starves unread (k a) ys"
  shows "starves unread (and_then m k) (xs @ ys)"
  unfolding starves_def
proof (intro allI impI)
  fix src n
  assume u: "unread src = take n (xs @ ys)" and n: "n < length (xs @ ys)"
  show "\<exists>e src'. and_then m k src = (Inl e, src') \<and> is_eof e"
  proof (cases "n < length xs")
    case True
    then obtain e s1 where "m src = (Inl e, s1)" "is_eof e"
      using u assms(2) unfolding starves_def by fastforce
    then show ?thesis by (simp add: and_then_def)
  next
    case False
    then obtain s1 where s1: "m src = (Inr a, s1)" "unread s1 = take (n - length xs) ys"
      using u assms(1) unfolding reads_def by fastforce
    moreover have "n - length xs < length ys" using n False by simp
    ultimately obtain e s2 where "k a s1 = (Inl e, s2)" "is_eof e"
      using assms(3) unfolding starves_def by blast
    then show ?thesis using s1 by (simp add: and_then_def)
  qed
qed

lemma starves_last:
  assumes "starves unread m xs"
  shows "starves unread (and_then m k) xs"
  using assms unfolding starves_def by (fastforce simp: and_then_def)

lemma quic_decode_extend:
  "quic_decode xs = (Inr v, ys) \<Longrightarrow> quic_decode (xs @ zs) = (Inr v, ys @ zs)"
  by (auto simp: quic_decode_def Let_def split: list.splits if_splits)

lemma quic_decode_error: "quic_decode xs = (Inl e, ys) \<Longrightarrow> e = VarIntUnexpectedEof"
  by (auto simp: quic_decode_def Let_def split: list.splits if_splits)

lemma quic_decode_prefix:
  assumes "wf_varint x" "n < length (varint_bytes x)"
  shows "fst (quic_decode (take n (varint_bytes x))) = Inl VarIntUnexpectedEof"
proof (rule ccontr)
  assume "\<not> ?thesis"
  then obtain v ys where "quic_decode (take n (varint_bytes x)) = (Inr v, ys)"
    by (metis prod.collapse sum.exhaust quic_decode_error)
  from quic_decode_extend [OF this, of "drop n (varint_bytes x)"]
    quic_decode_varint_bytes [OF assms(1), of "[]"] assms(2)
  show False by simp
qed

context buf
begin

lemma starves_varint:
  assumes "wf_varint x"
  shows "starves unread (decode_varint B) (varint_bytes x)"
  unfolding starves_def
proof (intro allI impI)
  fix src n
  assume u: "unread src = take n (varint_bytes x)" and n: "n < length (varint_bytes x)"
  then have "fst (varint_decode B src) = Inl VarIntUnexpectedEof"
    using varint_decode_quic(1) [of src] quic_decode_prefix [OF assms n]
    by (auto split: sum.splits)
  then show "\<exists>e src'. decode_varint B src = (Inl e, src') \<and> is_eof e"
    by (auto simp: decode_varint_def lift_err_def is_eof_def split: prod.splits)
qed

lemma starves_sized:
  assumes "length data < 2 ^ 62"
  shows "starves unread (decode_sized B) (sized_bytes data)"
proof -
  let ?x = "VarInt (as_u64 (length data))"
  have wf: "wf_varint ?x" using assms by (rule length_varint_small)
  have n: "usize_try_from_u64 (as_u64 (length data)) = Inr (length data)"
    using assms by (simp add: usize_try_from_u64_def usize_max_def unat_as_u64)
  have "starves unread (and_then (of_result (usize_try_from_u64 (into_inner ?x))) (\<lambda>n src.
      if remaining B src < n then (Inl UnexpectedEof, src)
      else let (data, src) = copy_to_bytes B n src in (Inr data, src))) data"
    by (auto simp: starves_def and_then_def of_result_def n read_simps is_eof_def)
  then show ?thesis
    unfolding decode_sized_def sized_bytes_def
    by (rule starves_and_then [OF reads_varint [OF wf] starves_varint [OF wf]])
qed

lemma starves_stream:
  assumes "wf_varint stream_id" "length payload < 2 ^ 62"
  shows "starves unread (decode_stream B ft)
    (varint_bytes stream_id @ [if fin then STREAM_FIN_FLAG else 0] @ sized_bytes payload)"
  unfolding decode_stream_def
proof (rule starves_and_then [OF reads_varint [OF assms(1)] starves_varint [OF assms(1)]])
  let ?flag = "if fin then STREAM_FIN_FLAG else 0"
  have flag: "?flag AND NOT STREAM_FIN_FLAG = 0" by (simp add: STREAM_FIN_FLAG_def)
  have st: "starves unread (and_then (decode_sized B) k) (sized_bytes payload)"
    for k :: "bytes \<Rightarrow> ('b, proto_error, frame) action"
    by (rule starves_last [OF starves_sized [OF assms(2)]])
  show "starves unread (\<lambda>src. if \<not> has_remaining B src then (Inl UnexpectedEof, src)
       else let (flags, src) = get_u8 B src in
         if flags AND NOT STREAM_FIN_FLAG \<noteq> 0 then (Inl (UnsupportedFlags ft flags), src)
         else and_then (decode_sized B)
                (\<lambda>payload. ok (Stream stream_id (flags AND STREAM_FIN_FLAG \<noteq> 0) payload)) src)
     ([?flag] @ sized_bytes payload)"
    unfolding starves_def
  proof (intro allI impI, goal_cases)
    case (1 src n)
    show ?case
    proof (cases n)
      case 0
      then show ?thesis using 1 by (simp add: read_simps is_eof_def)
    next
      case (Suc m)
      then have "unread (snd (get_u8 B src)) = take m (sized_bytes payload)" "m < length (sized_bytes payload)"
        using 1 by (simp_all add: read_simps)
      then show ?thesis
        using st 1 Suc unfolding starves_def by (simp add: read_simps case_prod_beta flag)
    qed
  qed
qed

lemma starves_close:
  assumes "wf_varint (code_varint c)" "length reason < 2 ^ 62"
  shows "starves unread (decode_close B) (varint_bytes (code_varint c) @ sized_bytes reason)"
  unfolding decode_close_def
  by (intro starves_and_then [OF reads_varint [OF assms(1)] starves_varint [OF assms(1)]]
      starves_last [OF starves_sized [OF assms(2)]])

lemma starves_body:
  assumes "wf_frame f" "frame_bytes f = ft # xs"
  shows "starves unread (decode_body B ft) xs"
  using assms
  by (cases f)
    (auto simp: decode_body_def starves_def [of _ _ "[]"]
      intro!: starves_stream [simplified] starves_close
        starves_and_then [OF reads_varint starves_varint] starves_last [OF starves_varint])

lemma frame_decode_truncated:
  assumes "wf_frame f" "unread src = take n (frame_bytes f)" "n < length (frame_bytes f)"
  shows "\<exists>e. fst (frame_decode B src) = Inl e \<and> is_eof e"
proof (cases n)
  case 0
  then show ?thesis using assms by (simp add: frame_decode_def read_simps is_eof_def)
next
  case (Suc m)
  obtain ft xs where fb: "frame_bytes f = ft # xs" by (cases f) auto
  have "unread (snd (get_u8 B src)) = take m xs" "m < length xs"
    using assms(2,3) fb Suc by (simp_all add: read_simps)
  then obtain e s2 where "decode_body B ft (snd (get_u8 B src)) = (Inl e, s2)" "is_eof e"
    using starves_body [OF assms(1) fb] unfolding starves_def by blast
  then show ?thesis
    using assms(2) fb Suc by (simp add: frame_decode_def read_simps case_prod_beta and_then_def)
qed

lemma frame_decode_trailing:
  assumes "wf_frame f" "unread src = frame_bytes f @ b # rest"
  shows "fst (frame_decode B src) = Inl (TrailingBytes (Suc (length rest)))"
proof -
  obtain ft xs where fb: "frame_bytes f = ft # xs" by (cases f) auto
  have "unread (snd (get_u8 B src)) = xs @ b # rest" using assms(2) fb by (simp add: read_simps)
  then obtain s2 where "decode_body B ft (snd (get_u8 B src)) = (Inr f, s2)" "unread s2 = b # rest"
    using reads_body [OF assms(1) fb] unfolding reads_def by blast
  then show ?thesis
    using assms(2) fb by (simp add: frame_decode_def read_simps case_prod_beta and_then_def)
qed

lemma frame_decode_unknown:
  assumes "unread src = ft # rest" "8 < ft"
  shows "fst (frame_decode B src) = Inl (UnknownFrameType ft)"
  using assms
  by (auto simp: frame_decode_def read_simps case_prod_beta and_then_def decode_body_def err_def)

end

section \<open>Properties\<close>

text \<open>C21 (roundtrip): for every frame the Rust types admit, \<^verbatim>\<open>Frame::encode\<close> succeeds, the number of
  bytes it appends is what \<^verbatim>\<open>Frame::encoded_len\<close> announced, and \<^verbatim>\<open>Frame::decode\<close> of these bytes returns
  the frame and leaves no input, for any source and sink that implement the buffer traits.\<close>

theorem frame_roundtrip:
  assumes "buf B unread" "buf_mut M written" "wf_frame f"
    and "written out = []" "unread src = written (snd (frame_encode M f out))"
  shows "fst (frame_encode M f out) = Inr ()
    \<and> frame_encoded_len f = Inr (length (unread src))
    \<and> fst (frame_decode B src) = Inr f \<and> unread (snd (frame_decode B src)) = []"
proof -
  have enc: "fst (frame_encode M f out) = Inr ()" "unread src = frame_bytes f"
    using buf_mut.frame_encode_written [OF assms(2,3)] assms(4,5) by simp_all
  then show ?thesis
    using frame_encoded_len_exact [OF assms(3)] buf.frame_decode_bytes [OF assms(1,3)] by simp
qed

theorem frame_roundtrip_witness:
  "fst (frame_decode bytes_ops (snd (frame_encode bytes_mut_ops
      (Stream (VarInt 4) True [104, 101, 108, 108, 111]) []))) = Inr (Stream (VarInt 4) True [104, 101, 108, 108, 111])"
proof -
  have wf: "wf_frame (Stream (VarInt 4) True [104, 101, 108, 108, 111])"
    by (simp add: wf_varint_unat)
  show ?thesis
    using frame_roundtrip [OF bytes_buf.buf_axioms bytes_sink.buf_mut_axioms wf refl refl] by blast
qed

text \<open>C22 (safety): a frame that \<^verbatim>\<open>Frame::decode\<close> accepts is one the Rust types admit (identifiers and
  codes within the varint range, the close reason valid UTF-8), the whole input was consumed, and the
  canonical encoding of the frame is no longer than the input it came from.\<close>

theorem frame_decode_sound:
  assumes "buf B unread" "frame_decode B src = (Inr f, src')"
  shows "wf_frame f \<and> unread src' = []
    \<and> (\<exists>n. frame_encoded_len f = Inr n \<and> n \<le> length (unread src))"
  using buf.frame_decode_consumes [OF assms] frame_encoded_len_exact by blast

theorem frame_decode_sound_witness:
  "frame_decode bytes_ops [0x07, 0x40, 0x02, 0x05] = (Inr (MaxStreamData (VarInt 2) (VarInt 5)), [])
   \<and> wf_frame (MaxStreamData (VarInt 2) (VarInt 5))"
proof -
  have d: "frame_decode bytes_ops [0x07, 0x40, 0x02, 0x05] = (Inr (MaxStreamData (VarInt 2) (VarInt 5)), [])"
    by (simp add: frame_decode_def decode_body_def decode_varint_def varint_decode_def from_u64_def
        varint_MAX_def act_simps Let_def)
  show ?thesis using d frame_decode_sound [OF bytes_buf.buf_axioms d] by blast
qed

text \<open>C23 (error): an input that stops anywhere inside an encoded frame is rejected as an unexpected end
  of input, an input that continues after an encoded frame is rejected with the number of extra bytes,
  and a first byte above 8 is rejected as an unknown frame type.\<close>

theorem frame_decode_rejects:
  assumes "buf B unread" "wf_frame f"
  shows "(unread src = take n (frame_bytes f) \<and> n < length (frame_bytes f) \<longrightarrow>
        (\<exists>e. fst (frame_decode B src) = Inl e \<and> is_eof e))
    \<and> (unread src = frame_bytes f @ b # rest \<longrightarrow>
        fst (frame_decode B src) = Inl (TrailingBytes (Suc (length rest))))
    \<and> (unread src = ft # rest \<and> 8 < ft \<longrightarrow>
        fst (frame_decode B src) = Inl (UnknownFrameType ft))"
  using buf.frame_decode_truncated [OF assms] buf.frame_decode_trailing [OF assms]
    buf.frame_decode_unknown [OF assms(1)] by blast

theorem frame_decode_rejects_witness:
  "(\<exists>e. fst (frame_decode bytes_ops [0x04]) = Inl e \<and> is_eof e)
   \<and> fst (frame_decode bytes_ops [0x04, 0x02, 0xff]) = Inl (TrailingBytes 1)
   \<and> fst (frame_decode bytes_ops [0x09, 0xff]) = Inl (UnknownFrameType 9)"
proof -
  have wf: "wf_frame (OpenStream (VarInt 2))" by (simp add: wf_varint_unat)
  show ?thesis
    using frame_decode_rejects [OF bytes_buf.buf_axioms wf, of "[0x04]" 1 0 "[]" 0]
      frame_decode_rejects [OF bytes_buf.buf_axioms wf, of "[0x04, 0x02, 0xff]" 0 "0xff" "[]" 0]
      frame_decode_rejects [OF bytes_buf.buf_axioms wf, of "[0x09, 0xff]" 0 0 "[0xff]" 9]
    by (simp add: varint_bytes_def)
qed

end
