(* ===== verification/Limits.thy ===== *)
theory Limits
  imports Frame_Codec
begin

text \<open>
  \<^verbatim>\<open>muxtls/src/error.rs\<close> and \<^verbatim>\<open>muxtls/src/limits.rs\<close>: the runtime's error type, the per-connection
  limits and their validation. The largest permit count of tokio's \<open>Semaphore\<close> is the parameter
  \<open>max_permits\<close> of the validation. A duration is its number of nanoseconds.
\<close>

section \<open>Model\<close>

text \<open>\<open>Error\<close>: messages assembled with \<open>format!\<close> are kept as their fixed text; \<open>Io\<close>, \<open>Tls\<close> and
  \<open>TlsHandshake\<close> carry the text of the transport's error.\<close>

datatype error =
    Io string
  | Tls string
  | TlsHandshake string
  | InvalidDnsName string
  | Config string
  | Protocol string
  | Wire proto_error
  | LimitExceeded string
  | InvalidLimit string string
  | Timeout string
  | StreamIdExhausted
  | ConnectionClosed
  | StreamReset u64
  | EndpointRole string

type_synonym duration = nat

definition from_secs :: "nat \<Rightarrow> duration" where
  "from_secs n = n * 1000000000"

record limits =
  drain_timeout :: duration
  max_queued_outbound_frames :: usize
  max_control_frames :: usize
  max_frame_size :: usize
  max_open_streams :: usize
  max_inbound_connection_bytes :: usize
  max_outbound_connection_bytes :: usize
  max_inbound_stream_bytes :: usize
  max_outbound_stream_bytes :: usize

definition default_limits :: limits where
  "default_limits = \<lparr>
     drain_timeout = from_secs 5,
     max_queued_outbound_frames = 1024,
     max_control_frames = 512,
     max_frame_size = 64 * 1024,
     max_open_streams = 128,
     max_inbound_connection_bytes = 4 * 1024 * 1024,
     max_outbound_connection_bytes = 4 * 1024 * 1024,
     max_inbound_stream_bytes = 256 * 1024,
     max_outbound_stream_bytes = 256 * 1024 \<rparr>"

definition MIN_FRAME_SIZE :: usize where
  "MIN_FRAME_SIZE = 25"

definition validate_nonzero :: "string \<Rightarrow> usize \<Rightarrow> error + unit" where
  "validate_nonzero fld value =
     (if value = 0 then Inl (InvalidLimit fld ''must be greater than zero'') else Inr ())"

definition validate_semaphore :: "usize \<Rightarrow> string \<Rightarrow> usize \<Rightarrow> error + unit" where
  "validate_semaphore max_permits fld value =
     (case validate_nonzero fld value of Inl e \<Rightarrow> Inl e
      | Inr _ \<Rightarrow> if value > max_permits then Inl (InvalidLimit fld ''must be at most Semaphore::MAX_PERMITS'')
                 else Inr ())"

definition validate_byte_limit :: "usize \<Rightarrow> string \<Rightarrow> usize \<Rightarrow> error + unit" where
  "validate_byte_limit max_permits fld value =
     (case validate_semaphore max_permits fld value of Inl e \<Rightarrow> Inl e
      | Inr _ \<Rightarrow> if value > u32_max then Inl (InvalidLimit fld ''must be at most u32::MAX'') else Inr ())"

text \<open>The checks of \<open>Limits::validate\<close> in their order; the first that fails is returned.\<close>

fun first_error :: "(error + unit) list \<Rightarrow> error + unit" where
  "first_error [] = Inr ()"
| "first_error (Inl e # rs) = Inl e"
| "first_error (Inr _ # rs) = first_error rs"

definition validate_control_capacity :: "limits \<Rightarrow> error + unit" where
  "validate_control_capacity l =
     (case Option.bind (usize_checked_mul (max_open_streams l) 3) (\<lambda>n. usize_checked_add n 2) of
        None \<Rightarrow> Inl (InvalidLimit ''max_open_streams'' ''control capacity overflow'')
      | Some minimum_controls \<Rightarrow>
          if max_control_frames l < minimum_controls
          then Inl (InvalidLimit ''max_control_frames'' ''must be at least 3 * max_open_streams + 2'')
          else Inr ())"

definition validate :: "usize \<Rightarrow> limits \<Rightarrow> error + unit" where
  "validate max_permits l = first_error [
     (if drain_timeout l = 0 \<or> drain_timeout l > from_secs 3600
      then Inl (InvalidLimit ''drain_timeout'' ''must be greater than zero and at most one hour'') else Inr ()),
     (if max_frame_size l < MIN_FRAME_SIZE
      then Inl (InvalidLimit ''max_frame_size'' ''must be at least 25'') else Inr ()),
     (if max_frame_size l > u32_max
      then Inl (InvalidLimit ''max_frame_size'' ''must be at most u32::MAX'') else Inr ()),
     validate_semaphore max_permits ''max_open_streams'' (max_open_streams l),
     validate_semaphore max_permits ''max_queued_outbound_frames'' (max_queued_outbound_frames l),
     validate_semaphore max_permits ''max_control_frames'' (max_control_frames l),
     (if max_queued_outbound_frames l < max_open_streams l
      then Inl (InvalidLimit ''max_queued_outbound_frames'' ''must allow at least one frame per admitted stream'')
      else Inr ()),
     validate_control_capacity l,
     validate_byte_limit max_permits ''max_inbound_connection_bytes'' (max_inbound_connection_bytes l),
     validate_byte_limit max_permits ''max_outbound_connection_bytes'' (max_outbound_connection_bytes l),
     validate_byte_limit max_permits ''max_inbound_stream_bytes'' (max_inbound_stream_bytes l),
     validate_byte_limit max_permits ''max_outbound_stream_bytes'' (max_outbound_stream_bytes l),
     (if max_inbound_stream_bytes l > max_inbound_connection_bytes l
      then Inl (InvalidLimit ''max_inbound_stream_bytes'' ''must not exceed max_inbound_connection_bytes'')
      else Inr ()),
     (if max_outbound_stream_bytes l > max_outbound_connection_bytes l
      then Inl (InvalidLimit ''max_outbound_stream_bytes'' ''must not exceed max_outbound_connection_bytes'')
      else Inr ())]"

section \<open>What a validated configuration guarantees\<close>

definition valid_limits :: "usize \<Rightarrow> limits \<Rightarrow> bool" where
  "valid_limits max_permits l \<longleftrightarrow>
     0 < drain_timeout l \<and> drain_timeout l \<le> from_secs 3600
     \<and> 25 \<le> max_frame_size l \<and> max_frame_size l < 2 ^ 32
     \<and> 0 < max_open_streams l \<and> max_open_streams l \<le> max_permits
     \<and> max_open_streams l \<le> max_queued_outbound_frames l \<and> max_queued_outbound_frames l \<le> max_permits
     \<and> 3 * max_open_streams l + 2 \<le> max_control_frames l \<and> max_control_frames l \<le> max_permits
     \<and> 3 * max_open_streams l + 2 < 2 ^ 64
     \<and> 0 < max_inbound_stream_bytes l \<and> max_inbound_stream_bytes l \<le> max_inbound_connection_bytes l
     \<and> 0 < max_outbound_stream_bytes l \<and> max_outbound_stream_bytes l \<le> max_outbound_connection_bytes l
     \<and> max_inbound_connection_bytes l \<le> max_permits \<and> max_inbound_connection_bytes l < 2 ^ 32
     \<and> max_outbound_connection_bytes l \<le> max_permits \<and> max_outbound_connection_bytes l < 2 ^ 32"

lemma first_error_ok: "first_error rs = Inr () \<longleftrightarrow> (\<forall>r \<in> set rs. r = Inr ())"
  by (induction rs rule: first_error.induct) auto

lemma validate_semaphore_ok:
  "validate_semaphore m fld v = Inr () \<longleftrightarrow> 0 < v \<and> v \<le> m"
  by (simp add: validate_semaphore_def validate_nonzero_def)

lemma validate_byte_limit_ok:
  "validate_byte_limit m fld v = Inr () \<longleftrightarrow> 0 < v \<and> v \<le> m \<and> v < 2 ^ 32"
  using validate_semaphore_ok [of m fld v]
  by (auto simp: validate_byte_limit_def u32_max_def split: sum.splits)

lemma validate_control_capacity_ok:
  "validate_control_capacity l = Inr () \<longleftrightarrow>
     3 * max_open_streams l + 2 < 2 ^ 64 \<and> 3 * max_open_streams l + 2 \<le> max_control_frames l"
  by (auto simp: validate_control_capacity_def usize_checked_mul_def usize_checked_add_def usize_max_def)

lemma validate_iff: "validate m l = Inr () \<longleftrightarrow> valid_limits m l"
  by (auto simp: validate_def first_error_ok validate_semaphore_ok validate_byte_limit_ok
      validate_control_capacity_ok valid_limits_def MIN_FRAME_SIZE_def u32_max_def)

text \<open>Control frames (everything but STREAM and CONNECTION_CLOSE, whose size depends on their data).\<close>

fun is_control :: "frame \<Rightarrow> bool" where
  "is_control (Stream _ _ _) = False"
| "is_control (ConnectionClose _ _) = False"
| "is_control _ = True"

lemma varint_len_sums:
  "varint_encoded_len a \<le> 24"
  "varint_encoded_len a + varint_encoded_len b \<le> 24"
  "varint_encoded_len a + varint_encoded_len b + varint_encoded_len c \<le> 24"
  using varint_encoded_len_bounds(2) [of a] varint_encoded_len_bounds(2) [of b]
    varint_encoded_len_bounds(2) [of c] by linarith+

lemma control_frame_min_size:
  "is_control f \<Longrightarrow> \<exists>n. frame_encoded_len f = Inr n \<and> n \<le> MIN_FRAME_SIZE"
  by (cases f) (simp_all add: MIN_FRAME_SIZE_def error_code_encoded_len_def varint_len_sums)

section \<open>Properties\<close>

text \<open>C31 (functional): \<^verbatim>\<open>Limits::validate\<close> accepts exactly the configurations in which the drain time is
  positive and at most an hour, the frame size lies between 25 and \<open>2^32 - 1\<close>, every semaphore capacity
  is positive and representable, each stream gets at least one frame slot, the control queue has three
  slots per stream and two more (computed without overflow), and the stream budgets are within the
  connection budgets, which fit 32 bits.\<close>

theorem validate_characterised: "validate max_permits l = Inr () \<longleftrightarrow> valid_limits max_permits l"
  by (rule validate_iff)

text \<open>C32 (bounds): every control frame fits the smallest frame size a peer may advertise, and SETTINGS
  with three maximal fields needs all of it.\<close>

theorem control_frames_fit_minimum:
  "(is_control f \<longrightarrow> (\<exists>n. frame_encoded_len f = Inr n \<and> n \<le> MIN_FRAME_SIZE))
    \<and> frame_encoded_len (Settings (VarInt varint_MAX) (VarInt varint_MAX) (VarInt varint_MAX)) = Inr MIN_FRAME_SIZE"
  using control_frame_min_size [of f]
  by (simp add: MIN_FRAME_SIZE_def varint_encoded_len_def varint_MAX_def)

theorem control_frames_fit_minimum_witness:
  "is_control (ResetStream (VarInt 16384) (ErrorCode (VarInt 64)))
   \<and> frame_encoded_len (ResetStream (VarInt 16384) (ErrorCode (VarInt 64))) = Inr 7"
  using control_frames_fit_minimum [of "ResetStream (VarInt 16384) (ErrorCode (VarInt 64))"]
  by (simp add: error_code_encoded_len_def varint_encoded_len_def)

lemma default_limits_valid:
  "4194304 \<le> max_permits \<Longrightarrow> validate max_permits default_limits = Inr ()"
  by (simp add: validate_iff valid_limits_def default_limits_def from_secs_def)

end
