(* ===== verification/Flow_Window.thy ===== *)
theory Flow_Window
  imports Limits
begin

text \<open>
  \<^verbatim>\<open>muxtls/src/flow.rs\<close>: the receive window of a stream or of the connection. All totals are
  64-bit offsets over the lifetime of the window, kept at their width: \<open>fetch_add\<close> wraps,
  \<open>checked_add\<close> and \<open>saturating_add\<close> do not. The locale \<open>credit_window\<close> is the contract that the
  stream and connection components rely on, stated on natural numbers.
\<close>

section \<open>Model\<close>

record receive_window =
  received :: u64
  consumed :: u64
  advertised :: u64
  window :: u64

definition rw_new :: "usize \<Rightarrow> receive_window" where
  "rw_new w = \<lparr> received = 0, consumed = 0, advertised = as_u64 w, window = as_u64 w \<rparr>"

definition rw_receive :: "usize \<Rightarrow> (receive_window, error, unit) action" where
  "rw_receive sz w =
     (case checked_add (received w) (as_u64 sz) of
        Some nxt \<Rightarrow>
          if nxt \<le> advertised w then (Inr (), w\<lparr>received := nxt\<rparr>)
          else (Inl (Protocol ''peer exceeded advertised receive credit''), w)
      | None \<Rightarrow> (Inl (Protocol ''peer exceeded advertised receive credit''), w))"

definition next_limit :: "receive_window \<Rightarrow> u64" where
  "next_limit w = min (saturating_add (consumed w) (window w)) varint_MAX"

definition needs_update :: "receive_window \<Rightarrow> bool" where
  "needs_update w =
     (let nxt = next_limit w; old = advertised w in
      nxt > old \<and> (nxt - old \<ge> div_ceil (window w) 2 \<or> received w = old \<or> nxt = varint_MAX))"

definition rw_consume :: "usize \<Rightarrow> receive_window \<Rightarrow> bool \<times> receive_window" where
  "rw_consume sz w =
     (if sz = 0 then (False, w)
      else let w = w\<lparr>consumed := consumed w + as_u64 sz\<rparr> in (needs_update w, w))"

definition rw_update :: "receive_window \<Rightarrow> varint option run \<times> receive_window" where
  "rw_update w =
     (let nxt = next_limit w in
      if needs_update w then
        (case from_u64 nxt of Inl _ \<Rightarrow> Panic | Inr v \<Rightarrow> Done (Some v), w\<lparr>advertised := nxt\<rparr>)
      else (Done None, w))"

section \<open>Invariant\<close>

text \<open>Bytes are consumed after they were received and received within the advertised limit, which never
  runs ahead of the consumed bytes by more than the window and stays in the varint range.\<close>

definition rw_inv :: "receive_window \<Rightarrow> bool" where
  "rw_inv w \<longleftrightarrow>
     unat (consumed w) \<le> unat (received w) \<and> unat (received w) \<le> unat (advertised w)
     \<and> unat (advertised w) \<le> unat (consumed w) + unat (window w)
     \<and> unat (advertised w) < 2 ^ 62 \<and> unat (window w) < 2 ^ 62"

definition buffered :: "receive_window \<Rightarrow> nat" where
  "buffered w = unat (received w) - unat (consumed w)"

lemma rw_inv_new: "n < 2 ^ 62 \<Longrightarrow> rw_inv (rw_new n)"
  by (simp add: rw_inv_def rw_new_def unat_as_u64)

lemma unat_min: "unat (min a b) = min (unat a) (unat b)"
  by (simp add: min_def word_le_nat_alt)

lemma unat_next_limit:
  "unat (next_limit w) = min (unat (consumed w) + unat (window w)) (2 ^ 62 - 1)"
  by (simp add: next_limit_def unat_min unat_saturating_add unat_varint_MAX)

lemma next_limit_in_range: "from_u64 (next_limit w) = Inr (VarInt (next_limit w))"
  by (rule from_u64_unat) (simp add: unat_next_limit)

lemma rw_receive_eq:
  assumes "sz < 2 ^ 64"
  shows "rw_receive sz w =
    (if unat (received w) + sz \<le> unat (advertised w)
     then (Inr (), w\<lparr>received := received w + as_u64 sz\<rparr>)
     else (Inl (Protocol ''peer exceeded advertised receive credit''), w))"
proof (cases "unat (received w) + sz < 2 ^ 64")
  case True
  then have "unat (received w + as_u64 sz) = unat (received w) + sz"
    using assms by (simp add: unat_word_ariths unat_as_u64)
  then show ?thesis
    using True assms by (simp add: rw_receive_def checked_add_def unat_as_u64 word_le_nat_alt)
next
  case False
  then show ?thesis
    using assms unat_u64_less [of "advertised w"]
    by (simp add: rw_receive_def checked_add_def unat_as_u64)
qed

lemma unat_received_receive:
  assumes "unat (received w) + sz \<le> unat (advertised w)"
  shows "unat (received w + as_u64 sz) = unat (received w) + sz"
proof -
  have "unat (received w) + sz < 2 ^ 64" using assms unat_u64_less [of "advertised w"] by simp
  then show ?thesis by (simp add: unat_word_ariths unat_as_u64)
qed

lemma rw_inv_receive:
  assumes "rw_inv w" "sz < 2 ^ 64"
  shows "rw_inv (snd (rw_receive sz w))"
  using assms by (simp add: rw_receive_eq rw_inv_def unat_received_receive)

lemma rw_consume_fields:
  "snd (rw_consume sz w) = w\<lparr>consumed := consumed w + as_u64 sz\<rparr>"
  by (simp add: rw_consume_def as_u64_def Let_def)

lemma unat_consumed_consume:
  assumes "rw_inv w" "unat (consumed w) + sz \<le> unat (received w)"
  shows "unat (consumed (snd (rw_consume sz w))) = unat (consumed w) + sz"
proof -
  have "sz < 2 ^ 64" "unat (consumed w) + sz < 2 ^ 64"
    using assms unat_u64_less [of "received w"] by (simp_all add: rw_inv_def)
  then show ?thesis by (simp add: rw_consume_fields unat_word_ariths unat_as_u64)
qed

lemma rw_inv_consume:
  assumes "rw_inv w" "unat (consumed w) + sz \<le> unat (received w)"
  shows "rw_inv (snd (rw_consume sz w))"
  using assms unat_consumed_consume [OF assms]
  by (simp add: rw_inv_def rw_consume_fields)

lemma buffered_le_window: "rw_inv w \<Longrightarrow> buffered w \<le> unat (window w)"
  by (auto simp: rw_inv_def buffered_def)

lemma rw_consume_buffered:
  assumes "rw_inv w" "n \<le> buffered w"
  shows "rw_inv (snd (rw_consume n w))" "buffered (snd (rw_consume n w)) = buffered w - n"
    "window (snd (rw_consume n w)) = window w"
proof -
  have le: "unat (consumed w) + n \<le> unat (received w)"
    using assms by (auto simp: rw_inv_def buffered_def)
  show "rw_inv (snd (rw_consume n w))" by (rule rw_inv_consume [OF assms(1) le])
  show "buffered (snd (rw_consume n w)) = buffered w - n"
    using unat_consumed_consume [OF assms(1) le] by (simp add: buffered_def rw_consume_fields)
  show "window (snd (rw_consume n w)) = window w" by (simp add: rw_consume_fields)
qed

lemma rw_receive_buffered:
  assumes "rw_inv w" "n < 2 ^ 64" "rw_receive n w = (Inr (), w')"
  shows "rw_inv w'" "buffered w' = buffered w + n" "window w' = window w" "buffered w' \<le> unat (window w)"
proof -
  show inv: "rw_inv w'" using rw_inv_receive [OF assms(1,2)] assms(3) by simp
  show win: "window w' = window w" and "buffered w' = buffered w + n"
    using assms by (auto simp: rw_receive_eq buffered_def unat_received_receive rw_inv_def split: if_splits)
  show "buffered w' \<le> unat (window w)" using inv win by (auto simp: rw_inv_def buffered_def)
qed

lemma rw_update_None: "\<not> needs_update w \<Longrightarrow> rw_update w = (Done None, w)"
  by (simp add: rw_update_def Let_def)

lemma rw_update_Some:
  "needs_update w \<Longrightarrow> rw_update w = (Done (Some (VarInt (next_limit w))), w\<lparr>advertised := next_limit w\<rparr>)"
  by (simp add: rw_update_def Let_def next_limit_in_range)

lemma needs_update_iff:
  assumes "rw_inv w"
  shows "needs_update w \<longleftrightarrow>
    unat (advertised w) < unat (next_limit w) \<and>
    ((unat (window w) + 1) div 2 \<le> unat (next_limit w) - unat (advertised w)
      \<or> received w = advertised w \<or> unat (next_limit w) = 2 ^ 62 - 1)"
proof (cases "advertised w < next_limit w")
  case True
  then have "unat (next_limit w - advertised w) = unat (next_limit w) - unat (advertised w)"
    by (simp add: unat_sub)
  moreover have "next_limit w = varint_MAX \<longleftrightarrow> unat (next_limit w) = 2 ^ 62 - 1"
    by (simp add: word_unat_eq_iff unat_varint_MAX)
  ultimately show ?thesis
    using True by (simp add: needs_update_def Let_def word_le_nat_alt word_less_nat_alt unat_div_ceil_two)
next
  case False
  then show ?thesis by (simp add: needs_update_def Let_def word_less_nat_alt)
qed

lemma rw_inv_update: "rw_inv w \<Longrightarrow> rw_inv (snd (rw_update w))"
  by (cases "needs_update w")
    (auto simp: rw_update_Some rw_update_None rw_inv_def needs_update_def Let_def word_less_nat_alt
      unat_next_limit)

section \<open>The contract of a receive window\<close>

text \<open>
  What the stream and connection components rely on, on natural numbers: \<open>rcv\<close> bytes received,
  \<open>csm\<close> consumed, the advertised limit \<open>adv\<close> and the capacity \<open>cap\<close>.
\<close>

locale credit_window =
  fixes inv :: "'w \<Rightarrow> bool"
    and rcv csm adv cap :: "'w \<Rightarrow> nat"
    and receive :: "usize \<Rightarrow> ('w, error, unit) action"
    and consume :: "usize \<Rightarrow> 'w \<Rightarrow> bool \<times> 'w"
    and update :: "'w \<Rightarrow> varint option run \<times> 'w"
  assumes inv_bounds: "inv w \<Longrightarrow> csm w \<le> rcv w \<and> rcv w \<le> adv w \<and> adv w \<le> csm w + cap w \<and> adv w < 2 ^ 62"
    and receive_ok: "inv w \<Longrightarrow> n < 2 ^ 64 \<Longrightarrow> receive n w = (Inr (), w') \<Longrightarrow>
      inv w' \<and> rcv w' = rcv w + n \<and> csm w' = csm w \<and> adv w' = adv w \<and> cap w' = cap w"
    and receive_err: "inv w \<Longrightarrow> n < 2 ^ 64 \<Longrightarrow> receive n w = (Inl e, w') \<Longrightarrow> w' = w \<and> adv w < rcv w + n"
    and consume_ok: "inv w \<Longrightarrow> csm w + n \<le> rcv w \<Longrightarrow> consume n w = (b, w') \<Longrightarrow>
      inv w' \<and> csm w' = csm w + n \<and> rcv w' = rcv w \<and> adv w' = adv w \<and> cap w' = cap w"
    and update_none: "inv w \<Longrightarrow> update w = (Done None, w') \<Longrightarrow> w' = w"
    and update_some: "inv w \<Longrightarrow> update w = (Done (Some v), w') \<Longrightarrow>
      inv w' \<and> adv w' = unat (into_inner v) \<and> adv w < adv w' \<and> wf_varint v
      \<and> rcv w' = rcv w \<and> csm w' = csm w \<and> cap w' = cap w"
    and update_total: "inv w \<Longrightarrow> fst (update w) \<noteq> Panic"
    and update_exhausted: "inv w \<Longrightarrow> rcv w = adv w \<Longrightarrow> adv w < csm w + cap w \<Longrightarrow> adv w < 2 ^ 62 - 1 \<Longrightarrow>
      fst (update w) \<noteq> Done None"
begin

text \<open>Unconsumed bytes never exceed the capacity, whatever the peer sends.\<close>

lemma held_le_cap: "inv w \<Longrightarrow> rcv w - csm w \<le> cap w"
  using inv_bounds [of w] by linarith

lemma receive_within_cap:
  assumes "inv w" "n < 2 ^ 64" "receive n w = (Inr (), w')"
  shows "(rcv w - csm w) + n \<le> cap w"
proof -
  have "inv w'" "rcv w' = rcv w + n" "csm w' = csm w" "cap w' = cap w"
    using receive_ok [OF assms] by auto
  then show ?thesis using held_le_cap [of w'] inv_bounds [OF assms(1)] by simp
qed

lemma receive_iff_credit:
  assumes "inv w" "n < 2 ^ 64"
  shows "fst (receive n w) = Inr () \<longleftrightarrow> rcv w + n \<le> adv w"
proof (cases "fst (receive n w)")
  case (Inl e)
  then have "receive n w = (Inl e, snd (receive n w))" by (simp add: prod_eq_iff)
  then show ?thesis using receive_err [OF assms] Inl by force
next
  case (Inr u)
  then have "receive n w = (Inr (), snd (receive n w))" by (simp add: prod_eq_iff)
  from receive_ok [OF assms this] inv_bounds [of "snd (receive n w)"] Inr show ?thesis by simp
qed

text \<open>A window whose credit is used up grants more as soon as any byte was consumed, and the peer can
  then send at least one byte.\<close>

lemma exhausted_refills:
  assumes "inv w" "rcv w = adv w" "adv w < csm w + cap w" "adv w < 2 ^ 62 - 1"
  shows "\<exists>v w'. update w = (Done (Some v), w') \<and> fst (receive 1 w') = Inr ()"
proof -
  have "fst (update w) \<noteq> Done None" "fst (update w) \<noteq> Panic"
    using update_exhausted update_total assms by blast+
  then obtain v where v: "update w = (Done (Some v), snd (update w))"
    by (metis (no_types, lifting) option.exhaust prod.collapse run.exhaust)
  from update_some [OF assms(1) v] have "fst (receive 1 (snd (update w))) = Inr ()"
    using receive_iff_credit [of "snd (update w)" 1] assms(2) by simp
  then show ?thesis using v by blast
qed

end

interpretation rw: credit_window rw_inv "\<lambda>w. unat (received w)" "\<lambda>w. unat (consumed w)"
  "\<lambda>w. unat (advertised w)" "\<lambda>w. unat (window w)" rw_receive rw_consume rw_update
proof unfold_locales
  fix w w' :: receive_window and n e b v
  show "rw_inv w \<Longrightarrow> unat (consumed w) \<le> unat (received w) \<and> unat (received w) \<le> unat (advertised w)
      \<and> unat (advertised w) \<le> unat (consumed w) + unat (window w) \<and> unat (advertised w) < 2 ^ 62"
    by (simp add: rw_inv_def)
  show "rw_inv w \<Longrightarrow> n < 2 ^ 64 \<Longrightarrow> rw_receive n w = (Inr (), w') \<Longrightarrow>
      rw_inv w' \<and> unat (received w') = unat (received w) + n \<and> unat (consumed w') = unat (consumed w)
      \<and> unat (advertised w') = unat (advertised w) \<and> unat (window w') = unat (window w)"
    using rw_inv_receive [of w n]
    by (auto simp: rw_receive_eq unat_received_receive split: if_splits)
  show "rw_inv w \<Longrightarrow> n < 2 ^ 64 \<Longrightarrow> rw_receive n w = (Inl e, w') \<Longrightarrow>
      w' = w \<and> unat (advertised w) < unat (received w) + n"
    by (auto simp: rw_receive_eq split: if_splits)
  show "rw_inv w \<Longrightarrow> unat (consumed w) + n \<le> unat (received w) \<Longrightarrow> rw_consume n w = (b, w') \<Longrightarrow>
      rw_inv w' \<and> unat (consumed w') = unat (consumed w) + n \<and> unat (received w') = unat (received w)
      \<and> unat (advertised w') = unat (advertised w) \<and> unat (window w') = unat (window w)"
    using rw_inv_consume [of w n] unat_consumed_consume [of w n] rw_consume_fields [of n w] by simp
  show "rw_inv w \<Longrightarrow> rw_update w = (Done None, w') \<Longrightarrow> w' = w"
    by (cases "needs_update w") (simp_all add: rw_update_Some rw_update_None)
  show "rw_inv w \<Longrightarrow> rw_update w = (Done (Some v), w') \<Longrightarrow>
      rw_inv w' \<and> unat (advertised w') = unat (into_inner v) \<and> unat (advertised w) < unat (advertised w')
      \<and> wf_varint v \<and> unat (received w') = unat (received w) \<and> unat (consumed w') = unat (consumed w)
      \<and> unat (window w') = unat (window w)"
    using rw_inv_update [of w] from_u64_wf [OF next_limit_in_range, of w] needs_update_iff [of w]
    by (cases "needs_update w") (auto simp: rw_update_Some rw_update_None)
  show "rw_inv w \<Longrightarrow> fst (rw_update w) \<noteq> Panic"
    by (cases "needs_update w") (simp_all add: rw_update_Some rw_update_None)
  show "rw_inv w \<Longrightarrow> unat (received w) = unat (advertised w) \<Longrightarrow>
      unat (advertised w) < unat (consumed w) + unat (window w) \<Longrightarrow> unat (advertised w) < 2 ^ 62 - 1 \<Longrightarrow>
      fst (rw_update w) \<noteq> Done None"
    using needs_update_iff [of w] by (simp add: unat_next_limit rw_update_Some word_unat_eq_iff)
qed

section \<open>Reachable windows\<close>

text \<open>Any order of arrivals (accepted or refused), consumption of bytes that are still buffered (each
  received byte is owned by one chunk, which releases it once) and credit updates.\<close>

inductive rw_reachable :: "usize \<Rightarrow> receive_window \<Rightarrow> bool" for n where
  start: "rw_reachable n (rw_new n)"
| arrive: "rw_reachable n w \<Longrightarrow> sz < 2 ^ 64 \<Longrightarrow> rw_reachable n (snd (rw_receive sz w))"
| release: "rw_reachable n w \<Longrightarrow> sz \<le> buffered w \<Longrightarrow> rw_reachable n (snd (rw_consume sz w))"
| credit: "rw_reachable n w \<Longrightarrow> rw_reachable n (snd (rw_update w))"

lemma rw_reachable_inv:
  assumes "rw_reachable n w" "n < 2 ^ 62"
  shows "rw_inv w \<and> unat (window w) = n"
  using assms
proof (induction rule: rw_reachable.induct)
  case start
  then show ?case using rw_inv_new [of n] by (simp add: rw_new_def unat_as_u64)
next
  case (arrive w sz)
  then have "window (snd (rw_receive sz w)) = window w" by (simp add: rw_receive_eq)
  then show ?case using arrive rw_inv_receive by simp
next
  case (release w sz)
  then have "unat (consumed w) + sz \<le> unat (received w)"
    using rw.inv_bounds [of w] by (auto simp: buffered_def)
  then show ?case using release rw_inv_consume [of w sz] rw_consume_fields [of sz w] by simp
next
  case (credit w)
  have "window (snd (rw_update w)) = window w"
    by (cases "needs_update w") (simp_all add: rw_update_Some rw_update_None)
  then show ?case using credit rw_inv_update by simp
qed

section \<open>Properties\<close>

text \<open>C27 (invariant): in every reachable state of a receive window of capacity \<open>n\<close> the bytes received and
  not yet consumed are at most \<open>n\<close>, the peer has stayed within the advertised limit, the limit is at
  most \<open>n\<close> above the consumed total and below \<open>2^62\<close>, and \<^verbatim>\<open>update\<close> cannot panic. No 64-bit total wraps.\<close>

theorem receive_window_bounded:
  assumes "rw_reachable n w" "n < 2 ^ 62"
  shows "buffered w \<le> n \<and> unat (consumed w) \<le> unat (received w)
    \<and> unat (received w) \<le> unat (advertised w) \<and> unat (advertised w) \<le> unat (consumed w) + n
    \<and> unat (advertised w) < 2 ^ 62 \<and> fst (rw_update w) \<noteq> Panic"
  using rw_reachable_inv [OF assms] rw.held_le_cap rw.inv_bounds rw.update_total
  unfolding buffered_def by blast

theorem receive_window_bounded_witness:
  "buffered (snd (rw_consume 3 (snd (rw_receive 20 (rw_new 32))))) \<le> 32"
proof -
  have r: "rw_reachable 32 (snd (rw_receive 20 (rw_new 32)))"
    by (intro rw_reachable.intros) simp
  have "3 \<le> buffered (snd (rw_receive 20 (rw_new 32)))"
    by (simp add: rw_receive_eq rw_new_def as_u64_def buffered_def)
  from receive_window_bounded [OF rw_reachable.release [OF r this]] show ?thesis by simp
qed

text \<open>C28 (functional): a payload is accepted exactly when the cumulative total including it stays within
  the advertised limit, computed without wrap-around; acceptance adds its length, refusal leaves the
  window unchanged.\<close>

theorem receive_exact:
  assumes "sz < 2 ^ 64"
  shows "(unat (received w) + sz \<le> unat (advertised w) \<longrightarrow>
      fst (rw_receive sz w) = Inr () \<and> unat (received (snd (rw_receive sz w))) = unat (received w) + sz)
    \<and> (\<not> unat (received w) + sz \<le> unat (advertised w) \<longrightarrow>
      rw_receive sz w = (Inl (Protocol ''peer exceeded advertised receive credit''), w))"
  using assms by (simp add: rw_receive_eq unat_received_receive)

theorem receive_exact_witness:
  "fst (rw_receive 32 (rw_new 32)) = Inr () \<and> snd (rw_receive 33 (rw_new 32)) = rw_new 32"
  using receive_exact [of 32 "rw_new 32"] receive_exact [of 33 "rw_new 32"]
  by (simp add: rw_new_def as_u64_def)

text \<open>C29 (liveness): a peer that has used all its credit is never stuck behind a window with free space:
  as soon as fewer than \<open>n\<close> bytes are buffered (and the lifetime limit of \<open>2^62 - 1\<close> is not reached) the next
  \<^verbatim>\<open>update\<close> produces a credit frame, even below the batching threshold, after which the window accepts
  at least one more byte.\<close>

theorem exhausted_window_refills:
  assumes "rw_reachable n w" "n < 2 ^ 62" "received w = advertised w" "buffered w < n"
    and "unat (advertised w) < 2 ^ 62 - 1"
  shows "\<exists>v w'. rw_update w = (Done (Some v), w') \<and> fst (rw_receive 1 w') = Inr ()"
proof -
  have i: "rw_inv w" "unat (window w) = n" using rw_reachable_inv [OF assms(1,2)] by auto
  then have "unat (advertised w) < unat (consumed w) + unat (window w)"
    using assms(3,4) rw.inv_bounds [OF i(1)] by (simp add: buffered_def)
  then show ?thesis using rw.exhausted_refills [OF i(1)] assms(3,5) by simp
qed

theorem exhausted_window_refills_witness:
  "\<exists>v w'. rw_update (snd (rw_consume 1 (snd (rw_receive 32 (rw_new 32))))) = (Done (Some v), w')
     \<and> fst (rw_receive 1 w') = Inr ()"
proof -
  let ?w = "snd (rw_receive 32 (rw_new 32))"
  have r: "rw_reachable 32 ?w" by (intro rw_reachable.intros) simp
  have "1 \<le> buffered ?w" by (simp add: rw_receive_eq rw_new_def as_u64_def buffered_def)
  from rw_reachable.release [OF r this] show ?thesis
    by (rule exhausted_window_refills)
      (simp_all add: rw_receive_eq rw_consume_def rw_new_def as_u64_def buffered_def Let_def)
qed

text \<open>C30 (functional): credit updates are batched. A frame is produced only if the limit grows and either
  at least half the window was freed since the last one, or the advertised credit is exhausted, or the
  lifetime limit is reached; the frame carries the consumed total plus the window (capped at the lifetime
  limit), and a second \<^verbatim>\<open>update\<close> right after it produces nothing.\<close>

theorem update_batched:
  assumes "rw_reachable n w" "n < 2 ^ 62" "rw_update w = (Done (Some v), w')"
  shows "unat (into_inner v) = min (unat (consumed w) + n) (2 ^ 62 - 1)
    \<and> unat (advertised w) < unat (into_inner v) \<and> unat (advertised w') = unat (into_inner v)
    \<and> ((n + 1) div 2 \<le> unat (into_inner v) - unat (advertised w)
       \<or> received w = advertised w \<or> unat (into_inner v) = 2 ^ 62 - 1)
    \<and> rw_update w' = (Done None, w')"
proof -
  have i: "rw_inv w" "unat (window w) = n" using rw_reachable_inv [OF assms(1,2)] by auto
  have nu: "needs_update w"
    using assms(3) by (cases "needs_update w") (simp_all add: rw_update_None)
  have v: "v = VarInt (next_limit w)" "w' = w\<lparr>advertised := next_limit w\<rparr>"
    using assms(3) rw_update_Some [OF nu] by simp_all
  have "next_limit w' = next_limit w" using v by (simp add: next_limit_def)
  then have "\<not> needs_update w'" using v by (simp add: needs_update_def Let_def)
  then show ?thesis
    using needs_update_iff [OF i(1)] nu v i(2) unat_next_limit [of w] by (simp add: rw_update_None)
qed

theorem update_batched_witness:
  "rw_update (snd (rw_consume 16 (snd (rw_receive 31 (rw_new 32)))))
     = (Done (Some (VarInt 48)), \<lparr>received = 31, consumed = 16, advertised = 48, window = 32\<rparr>)
   \<and> rw_update \<lparr>received = 31, consumed = 16, advertised = 48, window = 32\<rparr>
     = (Done None, \<lparr>received = 31, consumed = 16, advertised = 48, window = 32\<rparr>)"
proof -
  let ?w = "snd (rw_receive 31 (rw_new 32))"
  have r: "rw_reachable 32 ?w" by (intro rw_reachable.intros) simp
  have "16 \<le> buffered ?w" by (simp add: rw_receive_eq rw_new_def as_u64_def buffered_def)
  note reach = rw_reachable.release [OF r this]
  have u: "rw_update (snd (rw_consume 16 ?w))
     = (Done (Some (VarInt 48)), \<lparr>received = 31, consumed = 16, advertised = 48, window = 32\<rparr>)"
    by (simp add: rw_update_def rw_receive_eq rw_consume_def rw_new_def as_u64_def needs_update_def
        next_limit_def saturating_add_def varint_MAX_def from_u64_def div_ceil_def Let_def)
  show ?thesis using u update_batched [OF reach _ u] by simp
qed

end
