(* ===== verification/Sync.thy ===== *)
theory Sync
  imports Limits
begin

text \<open>
  tokio's \<open>Semaphore\<close>, which bounds every queue of the runtime, is not part of the repository. The
  operations the sources call are a dictionary \<open>'s sem_ops\<close>, an argument of the definitions that use
  them; a permit is represented by the number of permits it holds. The locale \<open>semaphore\<close> states the
  documented behaviour relative to three observers: the permits not held by anyone (\<open>free\<close>), whether
  the semaphore is closed, and whether some \<open>acquire\<close> is waiting (tokio's semaphore is fair, so a
  waiting request can hold back later ones even when permits are free). The interpretation
  \<open>counting\<close> is the textbook counting semaphore.
\<close>

datatype sem_result = Granted | Unavailable | SemClosed

record 's sem_ops =
  sem_new :: "usize \<Rightarrow> 's"
  sem_try_acquire :: "usize \<Rightarrow> 's \<Rightarrow> sem_result \<times> 's"
  sem_poll_acquire :: "usize \<Rightarrow> 's \<Rightarrow> sem_result \<times> 's"
  sem_release :: "usize \<Rightarrow> 's \<Rightarrow> 's"
  sem_close :: "'s \<Rightarrow> 's"

locale semaphore =
  fixes S :: "'s sem_ops"
    and free :: "'s \<Rightarrow> nat"
    and is_closed :: "'s \<Rightarrow> bool"
    and waiting :: "'s \<Rightarrow> bool"
  assumes new_free: "free (sem_new S n) = n"
    and new_open: "\<not> is_closed (sem_new S n)"
    and new_idle: "\<not> waiting (sem_new S n)"
    and try_granted: "sem_try_acquire S n s = (Granted, s') \<Longrightarrow> n \<le> free s \<and> free s' = free s - n \<and> \<not> is_closed s"
    and try_refused: "sem_try_acquire S n s = (r, s') \<Longrightarrow> r \<noteq> Granted \<Longrightarrow> free s' = free s"
    and try_closed: "is_closed (snd (sem_try_acquire S n s)) = is_closed s"
    and try_waiting: "waiting (snd (sem_try_acquire S n s)) = waiting s"
    and try_grants: "\<not> is_closed s \<Longrightarrow> \<not> waiting s \<Longrightarrow> n \<le> free s \<Longrightarrow> fst (sem_try_acquire S n s) = Granted"
    and poll_granted: "sem_poll_acquire S n s = (Granted, s') \<Longrightarrow> n \<le> free s \<and> free s' = free s - n \<and> \<not> is_closed s"
    and poll_refused: "sem_poll_acquire S n s = (r, s') \<Longrightarrow> r \<noteq> Granted \<Longrightarrow> free s' = free s"
    and poll_closed: "is_closed (snd (sem_poll_acquire S n s)) = is_closed s"
    and poll_on_closed: "is_closed s \<Longrightarrow> fst (sem_poll_acquire S n s) = SemClosed"
    and poll_on_open: "\<not> is_closed s \<Longrightarrow> fst (sem_poll_acquire S n s) \<noteq> SemClosed"
    and release_free: "free (sem_release S n s) = free s + n"
    and release_closed: "is_closed (sem_release S n s) = is_closed s"
    and release_idle: "\<not> waiting s \<Longrightarrow> \<not> waiting (sem_release S n s)"
    and close_free: "free (sem_close S s) = free s"
    and close_closed: "is_closed (sem_close S s)"
    and close_idle: "\<not> waiting (sem_close S s)"
begin

lemmas free_simps [simp] = new_free release_free close_free
lemmas closed_simps [simp] = new_open release_closed close_closed try_closed poll_closed

lemma try_free: "free (snd (sem_try_acquire S n s)) + (if fst (sem_try_acquire S n s) = Granted then n else 0) = free s"
proof (cases "fst (sem_try_acquire S n s) = Granted")
  case True
  then have "sem_try_acquire S n s = (Granted, snd (sem_try_acquire S n s))" by (simp add: prod_eq_iff)
  from try_granted [OF this] True show ?thesis by simp
next
  case False
  then show ?thesis using try_refused [of n s "fst (sem_try_acquire S n s)" "snd (sem_try_acquire S n s)"] by simp
qed

lemma poll_free: "free (snd (sem_poll_acquire S n s)) + (if fst (sem_poll_acquire S n s) = Granted then n else 0) = free s"
proof (cases "fst (sem_poll_acquire S n s) = Granted")
  case True
  then have "sem_poll_acquire S n s = (Granted, snd (sem_poll_acquire S n s))" by (simp add: prod_eq_iff)
  from poll_granted [OF this] True show ?thesis by simp
next
  case False
  then show ?thesis using poll_refused [of n s "fst (sem_poll_acquire S n s)" "snd (sem_poll_acquire S n s)"] by simp
qed

end

text \<open>A counting semaphore: the free permits and the closed flag.\<close>

definition counting_acquire :: "usize \<Rightarrow> nat \<times> bool \<Rightarrow> sem_result \<times> (nat \<times> bool)" where
  "counting_acquire n s =
     (if snd s then (SemClosed, s) else if n \<le> fst s then (Granted, (fst s - n, snd s)) else (Unavailable, s))"

definition counting_ops :: "(nat \<times> bool) sem_ops" where
  "counting_ops = \<lparr> sem_new = (\<lambda>n. (n, False)), sem_try_acquire = counting_acquire,
     sem_poll_acquire = counting_acquire, sem_release = (\<lambda>n s. (fst s + n, snd s)),
     sem_close = (\<lambda>s. (fst s, True)) \<rparr>"

lemmas counting_simps = counting_ops_def counting_acquire_def

interpretation counting: semaphore counting_ops fst snd "\<lambda>_. False"
  by unfold_locales (auto simp: counting_simps split: if_splits)

end
