(* ===== verification/Conn_State.thy ===== *)
theory Conn_State
  imports Flow_Window Sync "HOL-Library.AList"
begin

text \<open>
  The state of \<^verbatim>\<open>muxtls/src/connection.rs\<close>: one record per struct. \<open>Arc<StreamState>\<close> pointers are
  keys into the object store \<open>objects\<close> of the connection: a stream identifier is issued once, so it
  names the one \<open>StreamState\<close> created for it, which outlives its removal from the \<open>streams\<close> table while
  handles or queued chunks refer to it. Mutexes that are held only within one operation are the
  atomicity of that operation; the two that are held across waits (\<open>open_lock\<close>, \<open>send_lock\<close>) are
  flags. \<open>Notify\<close> carries no data: a waiting task may be polled again at any time. A permit is the
  number of permits it holds. The type \<open>'s\<close> is the semaphore's.
\<close>

text \<open>What an operation can end with beside its value: an error of the API, or a panic. Panics also
  stand for the access to an object that does not exist, which a Rust pointer excludes.\<close>

datatype fault = Fail error | Panicked

text \<open>The result of polling a future.\<close>

datatype 'a poll = Ready 'a | Pending

text \<open>The permits in an optional permit.\<close>

definition held :: "usize option \<Rightarrow> usize" where
  "held p = (case p of None \<Rightarrow> 0 | Some n \<Rightarrow> n)"

section \<open>Inbound data\<close>

datatype receive_buffer = Shared bytes | Page bytes

fun rb_deref :: "receive_buffer \<Rightarrow> bytes" where
  "rb_deref (Shared data) = data"
| "rb_deref (Page data) = data"

definition rb_default :: receive_buffer where
  "rb_default = Shared []"

text \<open>\<open>Bytes::advance\<close> panics when the count exceeds the length.\<close>

fun rb_advance :: "usize \<Rightarrow> receive_buffer \<Rightarrow> receive_buffer run" where
  "rb_advance count (Shared data) = (if count \<le> length data then Done (Shared (drop count data)) else Panic)"
| "rb_advance count (Page data) = (if count \<le> length data then Done (Page (drop count data)) else Panic)"

fun rb_into_bytes :: "receive_buffer \<Rightarrow> bytes" where
  "rb_into_bytes (Shared data) = data"
| "rb_into_bytes (Page data) = data"

record inbound_chunk =
  data :: receive_buffer
  in_conn_permit :: "usize option"
  in_stream_permit :: "usize option"

record inbound_state =
  chunks :: "inbound_chunk list"
  reset_error :: "u64 option"
  fin_received :: bool
  connection_closed :: bool

section \<open>Streams\<close>

record 's stream_state =
  inbound :: inbound_state
  s_window :: receive_window
  s_peer_limit :: u64
  s_sent :: u64
  inbound_stream_bytes :: 's
  outbound_stream_bytes :: 's
  outbound_stream_frames :: 's
  send_locked :: bool
  send_terminal :: bool
  send_dropped :: bool
  recv_dropped :: bool
  send_complete :: bool
  send_dispatched :: bool
  reset_queued :: bool
  recv_terminal :: bool
  recv_discarded :: bool
  send_handles :: usize
  recv_handles :: usize
  send_mode :: usize
  recv_mode :: usize
  open_permit :: "usize option"

section \<open>The writer\<close>

text \<open>\<open>out_state\<close> is the \<open>Arc<StreamState>\<close> of the chunk, the key of its object.\<close>

record outbound_chunk =
  out_state :: u64
  frame_permit :: usize
  stream_frame_permit :: usize
  out_stream_id :: varint
  out_payload :: bytes
  out_fin :: bool
  out_conn_permit :: "usize option"
  out_stream_permit :: "usize option"

text \<open>The hash map \<open>by_stream\<close> is an association list; \<open>receive_windows\<close> maps identifiers to weak
  pointers to the objects they name, so its keys determine it.\<close>

record writer_queues =
  by_stream :: "(u64 \<times> outbound_chunk list) list"
  ready :: "u64 list"
  control :: "frame list"
  close_frame :: "frame option"
  graceful_close :: bool
  closing :: bool
  peer_settings :: bool
  peer_max_frame :: usize
  peer_initial_stream_limit :: u64
  peer_limit :: u64
  w_sent :: u64
  control_turn :: bool
  receive_windows :: "u64 set"

section \<open>The connection\<close>

record connection_stats =
  opened_streams :: u64
  frames_sent :: u64
  frames_received :: u64
  bytes_sent :: u64
  bytes_received :: u64

record 's connection =
  limits :: limits
  local_parity :: u64
  next_local_stream_id :: u64
  next_remote_stream_id :: u64
  open_locked :: bool
  objects :: "u64 \<rightharpoonup> 's stream_state"
  streams :: "u64 set"
  incoming_streams :: "u64 list"
  writer :: writer_queues
  c_window :: receive_window
  closed :: bool
  terminated :: bool
  joined :: bool
  cleanup_started :: bool
  open_streams :: 's
  inbound_conn_bytes :: 's
  outbound_conn_bytes :: 's
  outbound_frames :: 's
  stats :: connection_stats
  connection_handles :: usize
  peer_identity :: "bytes list option"

definition queues_new :: writer_queues where
  "queues_new = \<lparr> by_stream = [], ready = [], control = [], close_frame = None,
     graceful_close = False, closing = False, peer_settings = False, peer_max_frame = MIN_FRAME_SIZE,
     peer_initial_stream_limit = 0, peer_limit = 0, w_sent = 0, control_turn = True,
     receive_windows = {} \<rparr>"

definition stream_state_new :: "'s sem_ops \<Rightarrow> usize \<Rightarrow> usize \<Rightarrow> usize \<Rightarrow> usize \<Rightarrow> 's stream_state" where
  "stream_state_new S max_inbound max_outbound permit max_frames = \<lparr>
     inbound = \<lparr> chunks = [], reset_error = None, fin_received = False, connection_closed = False \<rparr>,
     s_window = rw_new max_inbound, s_peer_limit = 0, s_sent = 0,
     inbound_stream_bytes = sem_new S max_inbound, outbound_stream_bytes = sem_new S max_outbound,
     outbound_stream_frames = sem_new S max_frames, send_locked = False,
     send_terminal = False, send_dropped = False, recv_dropped = False, send_complete = False,
     send_dispatched = False, reset_queued = False, recv_terminal = False, recv_discarded = False,
     send_handles = 0, recv_handles = 0, send_mode = 0, recv_mode = 0, open_permit = Some permit \<rparr>"

text \<open>\<open>Connection::new\<close> up to the start of its tasks: the limits are checked and SETTINGS is queued. The
  argument \<open>max_permits\<close> is \<open>Semaphore::MAX_PERMITS\<close>.\<close>

definition settings_frame :: "limits \<Rightarrow> frame option" where
  "settings_frame l =
     (case (from_u64 (as_u64 (max_inbound_connection_bytes l)), from_u64 (as_u64 (max_inbound_stream_bytes l)),
            from_u64 (as_u64 (max_frame_size l))) of
        (Inr max_data, Inr max_stream_data, Inr max_frame) \<Rightarrow> Some (Settings max_data max_stream_data max_frame)
      | _ \<Rightarrow> None)"

definition connection_new ::
  "'s sem_ops \<Rightarrow> usize \<Rightarrow> limits \<Rightarrow> bool \<Rightarrow> bytes list option \<Rightarrow> fault + 's connection" where
  "connection_new S max_permits l is_client peer_certificates =
     (case validate max_permits l of
        Inl e \<Rightarrow> Inl (Fail e)
      | Inr _ \<Rightarrow>
          (case settings_frame l of
             None \<Rightarrow> Inl Panicked
           | Some settings \<Rightarrow>
               (let parity = (if is_client then 0 else 1) in
                Inr \<lparr> limits = l, local_parity = parity, next_local_stream_id = parity,
                  next_remote_stream_id = 1 - parity, open_locked = False, objects = Map.empty, streams = {},
                  incoming_streams = [], writer = queues_new\<lparr>control := [settings]\<rparr>,
                  c_window = rw_new (max_inbound_connection_bytes l), closed = False, terminated = False,
                  joined = False, cleanup_started = False, open_streams = sem_new S (max_open_streams l),
                  inbound_conn_bytes = sem_new S (max_inbound_connection_bytes l),
                  outbound_conn_bytes = sem_new S (max_outbound_connection_bytes l),
                  outbound_frames = sem_new S (max_queued_outbound_frames l),
                  stats = \<lparr> opened_streams = 0, frames_sent = 0, frames_received = 0, bytes_sent = 0, bytes_received = 0 \<rparr>,
                  connection_handles = 1, peer_identity = peer_certificates \<rparr>)))"

lemma settings_frame_valid:
  assumes "valid_limits m l"
  shows "settings_frame l = Some (Settings (VarInt (as_u64 (max_inbound_connection_bytes l)))
    (VarInt (as_u64 (max_inbound_stream_bytes l))) (VarInt (as_u64 (max_frame_size l))))"
proof -
  have "from_u64 (as_u64 n) = Inr (VarInt (as_u64 n))" if "n < 2 ^ 32" for n
    using that by (intro from_u64_unat) (simp add: unat_as_u64)
  then show ?thesis using assms by (simp add: settings_frame_def valid_limits_def)
qed

section \<open>Access to one stream\<close>

text \<open>Mutation through an \<open>Arc<StreamState>\<close>: the object named by the identifier, if it exists.\<close>

definition on_stream :: "u64 \<Rightarrow> ('s stream_state \<Rightarrow> 's stream_state) \<Rightarrow> 's connection \<Rightarrow> 's connection" where
  "on_stream sid f c = c\<lparr>objects := (objects c)(sid := map_option f (objects c sid))\<rparr>"

definition on_queues :: "(writer_queues \<Rightarrow> writer_queues) \<Rightarrow> 's connection \<Rightarrow> 's connection" where
  "on_queues f c = c\<lparr>writer := f (writer c)\<rparr>"

lemma objects_on_stream [simp]:
  "objects (on_stream sid f c) i = (if i = sid then map_option f (objects c sid) else objects c i)"
  by (simp add: on_stream_def)

lemma on_stream_frame [simp]:
  "writer (on_stream sid f c) = writer c"
  "streams (on_stream sid f c) = streams c"
  "limits (on_stream sid f c) = limits c"
  "c_window (on_stream sid f c) = c_window c"
  "inbound_conn_bytes (on_stream sid f c) = inbound_conn_bytes c"
  "outbound_conn_bytes (on_stream sid f c) = outbound_conn_bytes c"
  "outbound_frames (on_stream sid f c) = outbound_frames c"
  "open_streams (on_stream sid f c) = open_streams c"
  "closed (on_stream sid f c) = closed c"
  "terminated (on_stream sid f c) = terminated c"
  "cleanup_started (on_stream sid f c) = cleanup_started c"
  "joined (on_stream sid f c) = joined c"
  "incoming_streams (on_stream sid f c) = incoming_streams c"
  "local_parity (on_stream sid f c) = local_parity c"
  "next_local_stream_id (on_stream sid f c) = next_local_stream_id c"
  "next_remote_stream_id (on_stream sid f c) = next_remote_stream_id c"
  by (simp_all add: on_stream_def)

lemma on_queues_frame [simp]:
  "writer (on_queues g c) = g (writer c)"
  "objects (on_queues g c) = objects c"
  "streams (on_queues g c) = streams c"
  "limits (on_queues g c) = limits c"
  "c_window (on_queues g c) = c_window c"
  "inbound_conn_bytes (on_queues g c) = inbound_conn_bytes c"
  "outbound_conn_bytes (on_queues g c) = outbound_conn_bytes c"
  "outbound_frames (on_queues g c) = outbound_frames c"
  "open_streams (on_queues g c) = open_streams c"
  "closed (on_queues g c) = closed c"
  "terminated (on_queues g c) = terminated c"
  "cleanup_started (on_queues g c) = cleanup_started c"
  "joined (on_queues g c) = joined c"
  "incoming_streams (on_queues g c) = incoming_streams c"
  "local_parity (on_queues g c) = local_parity c"
  "next_local_stream_id (on_queues g c) = next_local_stream_id c"
  "next_remote_stream_id (on_queues g c) = next_remote_stream_id c"
  by (simp_all add: on_queues_def)

end
