(* ===== verification/Writer.thy ===== *)
theory Writer
  imports Conn_State
begin

text \<open>
  \<open>WriterState\<close> and \<open>take_close_frame\<close> of \<^verbatim>\<open>muxtls/src/connection.rs\<close>: the queues of outgoing chunks and
  control frames and the scheduler \<open>next_frame\<close> that picks the next frame to write. Credit, frame sizes
  and the round robin over the streams are decided here. The iteration order of the hash map
  \<open>receive_windows\<close> is the argument \<open>order\<close> of the definitions that iterate over it.
\<close>

section \<open>Model\<close>

text \<open>Dropping a queued chunk gives back its frame slots and byte permits.\<close>

definition drop_out_chunk :: "'s sem_ops \<Rightarrow> outbound_chunk \<Rightarrow> 's connection \<Rightarrow> 's connection" where
  "drop_out_chunk S ch c =
     on_stream (out_state ch)
       (\<lambda>st. st\<lparr>outbound_stream_frames := sem_release S (stream_frame_permit ch) (outbound_stream_frames st),
                outbound_stream_bytes := sem_release S (held (out_stream_permit ch)) (outbound_stream_bytes st)\<rparr>)
       (c\<lparr>outbound_frames := sem_release S (frame_permit ch) (outbound_frames c),
          outbound_conn_bytes := sem_release S (held (out_conn_permit ch)) (outbound_conn_bytes c)\<rparr>)"

fun drop_out_chunks :: "'s sem_ops \<Rightarrow> outbound_chunk list \<Rightarrow> 's connection \<Rightarrow> 's connection" where
  "drop_out_chunks S [] c = c"
| "drop_out_chunks S (ch # chs) c = drop_out_chunks S chs (drop_out_chunk S ch c)"

definition queue_of :: "u64 \<Rightarrow> writer_queues \<Rightarrow> outbound_chunk list" where
  "queue_of sid q = (case map_of (by_stream q) sid of None \<Rightarrow> [] | Some chs \<Rightarrow> chs)"

definition enqueue_data :: "'s sem_ops \<Rightarrow> u64 \<Rightarrow> outbound_chunk \<Rightarrow> 's connection \<Rightarrow> bool \<times> 's connection" where
  "enqueue_data S stream_id chunk c =
     (if closing (writer c) \<or> (case objects c (out_state chunk) of None \<Rightarrow> False | Some st \<Rightarrow> send_terminal st)
      then (False, drop_out_chunk S chunk c)
      else (True, on_queues (\<lambda>q. q\<lparr>by_stream := AList.update stream_id (queue_of stream_id q @ [chunk]) (by_stream q),
               ready := (if queue_of stream_id q = [] then ready q @ [stream_id] else ready q)\<rparr>) c))"

definition enqueue_control :: "frame \<Rightarrow> 's connection \<Rightarrow> bool \<times> 's connection" where
  "enqueue_control frame c =
     (if closing (writer c) then (False, c)
      else if frame = Ping \<and> Ping \<in> set (control (writer c)) then (True, c)
      else if length (control (writer c)) \<ge> max_control_frames (limits c) then (False, c)
      else (True, on_queues (\<lambda>q. q\<lparr>control := control q @ [frame]\<rparr>) c))"

definition all_chunks :: "writer_queues \<Rightarrow> outbound_chunk list" where
  "all_chunks q = concat (map snd (by_stream q))"

definition writer_shutdown :: "'s sem_ops \<Rightarrow> 's connection \<Rightarrow> 's connection" where
  "writer_shutdown S c =
     drop_out_chunks S (all_chunks (writer c))
       (on_queues (\<lambda>q. q\<lparr>by_stream := [], ready := [], control := [], receive_windows := {},
          close_frame := None, graceful_close := False, closing := True\<rparr>) c)"

text \<open>The close frame, its reason cut at a character boundary to what the peer accepts.\<close>

definition truncate_close :: "usize \<Rightarrow> frame \<Rightarrow> frame" where
  "truncate_close peer_max f =
     (case f of
        ConnectionClose error_code reason \<Rightarrow>
          (let maximum = peer_max - (1 + error_code_encoded_len error_code + 8) in
           if length reason > maximum
           then ConnectionClose error_code (take (floor_char_boundary reason maximum) reason)
           else f)
      | _ \<Rightarrow> f)"

definition take_close_frame :: "writer_queues \<Rightarrow> frame option \<times> writer_queues" where
  "take_close_frame q =
     (case close_frame q of
        None \<Rightarrow> (None, q)
      | Some f \<Rightarrow> (Some (truncate_close (peer_max_frame q) f), q\<lparr>close_frame := None\<rparr>))"

text \<open>\<open>receive_windows.iter().find_map(..)\<close>: the first stream, in the order of the map, that has credit to
  announce; the windows before it are asked as well.\<close>

fun find_update :: "u64 list \<Rightarrow> 's connection \<Rightarrow> frame option run \<times> 's connection" where
  "find_update [] c = (Done None, c)"
| "find_update (sid # ids) c =
     (case objects c sid of
        None \<Rightarrow> find_update ids c
      | Some st \<Rightarrow>
          if recv_terminal st \<or> recv_discarded st then find_update ids c
          else (case rw_update (s_window st) of
                  (Panic, w) \<Rightarrow> (Panic, on_stream sid (\<lambda>st. st\<lparr>s_window := w\<rparr>) c)
                | (Done None, w) \<Rightarrow> find_update ids (on_stream sid (\<lambda>st. st\<lparr>s_window := w\<rparr>) c)
                | (Done (Some maximum), w) \<Rightarrow>
                    (case from_u64 sid of
                       Inl _ \<Rightarrow> (Panic, on_stream sid (\<lambda>st. st\<lparr>s_window := w\<rparr>) c)
                     | Inr stream_id \<Rightarrow>
                         (Done (Some (MaxStreamData stream_id maximum)), on_stream sid (\<lambda>st. st\<lparr>s_window := w\<rparr>) c))))"

definition control_done :: "'s connection \<Rightarrow> 's connection" where
  "control_done c = on_queues (\<lambda>q. q\<lparr>control_turn := False\<rparr>) c"

text \<open>The control half of a pass: a queued control frame, connection credit, stream credit.\<close>

definition control_pass :: "(u64 set \<Rightarrow> u64 list) \<Rightarrow> 's connection \<Rightarrow> frame option run \<times> 's connection" where
  "control_pass order c =
     (case control (writer c) of
        frame # rest \<Rightarrow> (Done (Some frame), control_done (on_queues (\<lambda>q. q\<lparr>control := rest\<rparr>) c))
      | [] \<Rightarrow>
          (case rw_update (c_window c) of
             (Panic, w) \<Rightarrow> (Panic, c\<lparr>c_window := w\<rparr>)
           | (Done (Some maximum), w) \<Rightarrow> (Done (Some (MaxData maximum)), control_done (c\<lparr>c_window := w\<rparr>))
           | (Done None, w) \<Rightarrow>
               (case find_update (order (receive_windows (writer c))) (c\<lparr>c_window := w\<rparr>) of
                  (Done (Some frame), c) \<Rightarrow> (Done (Some frame), control_done c)
                | r \<Rightarrow> r)))"

text \<open>How many bytes of a chunk may go now: the payload, both credits and the peer's frame size. The two
  subtractions on \<open>usize\<close> and the \<open>expect\<close> are the places where the code could panic.\<close>

definition send_count :: "u64 \<Rightarrow> u64 \<Rightarrow> usize \<Rightarrow> outbound_chunk \<Rightarrow> 's stream_state \<Rightarrow> usize run" where
  "send_count conn_credit initial_stream_limit max_frame chunk st =
     (let stream_credit = saturating_sub (max (s_peer_limit st) initial_stream_limit) (s_sent st);
          id_len = varint_encoded_len (out_stream_id chunk) in
      if max_frame < 2 + id_len then Panic
      else let capacity = max_frame - 2 - id_len in
        case from_u64 (as_u64 capacity) of
          Inl _ \<Rightarrow> Panic
        | Inr v \<Rightarrow>
            if capacity < varint_encoded_len v then Panic
            else Done (min (length (out_payload chunk))
              (unat (min (min conn_credit stream_credit) (as_u64 (capacity - varint_encoded_len v))))))"

text \<open>Sending \<open>count\<close> bytes of the chunk at the front of the queue of stream \<open>sid\<close>, with \<open>rest\<close> behind it.\<close>

definition dispatch ::
  "'s sem_ops \<Rightarrow> u64 \<Rightarrow> outbound_chunk \<Rightarrow> outbound_chunk list \<Rightarrow> usize \<Rightarrow> 's connection \<Rightarrow> frame \<times> 's connection" where
  "dispatch S sid chunk rest count c =
     (let payload = take count (out_payload chunk);
          chunk' = chunk\<lparr>out_payload := drop count (out_payload chunk)\<rparr>;
          fin = (out_fin chunk \<and> out_payload chunk' = []);
          c = on_stream (out_state chunk) (\<lambda>st. st\<lparr>s_sent := s_sent st + as_u64 count,
                send_dispatched := send_dispatched st \<or> fin\<rparr>) c;
          c = (if out_payload chunk' = [] then drop_out_chunk S chunk' c else c);
          queue = (if out_payload chunk' = [] then rest else chunk' # rest);
          c = on_queues (\<lambda>q.
                if queue = [] then q\<lparr>by_stream := AList.delete sid (by_stream q)\<rparr>
                else q\<lparr>by_stream := AList.update sid queue (by_stream q), ready := ready q @ [sid]\<rparr>) c;
          c = on_queues (\<lambda>q. q\<lparr>w_sent := w_sent q + as_u64 count, control_turn := True\<rparr>) c
      in (Stream (out_stream_id chunk) fin payload, c))"

text \<open>The loop over the ready streams: at most one turn for each; a stream that cannot send goes to the back.\<close>

fun scan_ready ::
  "'s sem_ops \<Rightarrow> nat \<Rightarrow> u64 \<Rightarrow> u64 \<Rightarrow> usize \<Rightarrow> bool \<Rightarrow> 's connection \<Rightarrow> frame option run \<times> 's connection" where
  "scan_ready S 0 conn_credit initial max_frame settings c = (Done None, c)"
| "scan_ready S (Suc n) conn_credit initial max_frame settings c =
     (case ready (writer c) of
        [] \<Rightarrow> (Panic, c)
      | sid # ids \<Rightarrow>
          (let c = on_queues (\<lambda>q. q\<lparr>ready := ids\<rparr>) c in
           case map_of (by_stream (writer c)) sid of
             Some (chunk # rest) \<Rightarrow>
               (case objects c (out_state chunk) of
                  None \<Rightarrow> (Panic, c)
                | Some st \<Rightarrow>
                    (case send_count conn_credit initial max_frame chunk st of
                       Panic \<Rightarrow> (Panic, c)
                     | Done count \<Rightarrow>
                         if \<not> settings \<or> (count = 0 \<and> out_payload chunk \<noteq> [])
                         then scan_ready S n conn_credit initial max_frame settings
                                (on_queues (\<lambda>q. q\<lparr>ready := ready q @ [sid]\<rparr>) c)
                         else (let (frame, c) = dispatch S sid chunk rest count c in (Done (Some frame), c))))
           | _ \<Rightarrow> (Panic, c)))"

definition data_pass :: "'s sem_ops \<Rightarrow> 's connection \<Rightarrow> frame option run \<times> 's connection" where
  "data_pass S c =
     (let q = writer c in
      scan_ready S (length (ready q)) (saturating_sub (peer_limit q) (w_sent q))
        (peer_initial_stream_limit q) (peer_max_frame q) (peer_settings q) c)"

fun is_urgent :: "frame list \<Rightarrow> bool" where
  "is_urgent (Settings _ _ _ # _) = True"
| "is_urgent (OpenStream _ # _) = True"
| "is_urgent _ = False"

text \<open>What one pass of the loop of \<open>next_frame\<close> does: return, start again, wait for a notification, panic.\<close>

datatype pass = Return "frame option" | Again | Wait | Crash

definition close_pass :: "'s connection \<Rightarrow> pass \<times> 's connection" where
  "close_pass c = (let (f, q) = take_close_frame (writer c) in (Return f, on_queues (\<lambda>_. q) c))"

definition next_pass :: "(u64 set \<Rightarrow> u64 list) \<Rightarrow> 's sem_ops \<Rightarrow> 's connection \<Rightarrow> pass \<times> 's connection" where
  "next_pass order S c =
     (if closing (writer c) \<and> \<not> graceful_close (writer c) then close_pass c
      else case (if control_turn (writer c) \<or> is_urgent (control (writer c)) then control_pass order c
                 else (Done None, c)) of
        (Panic, c) \<Rightarrow> (Crash, c)
      | (Done (Some frame), c) \<Rightarrow> (Return (Some frame), c)
      | (Done None, c) \<Rightarrow>
          (case data_pass S c of
             (Panic, c) \<Rightarrow> (Crash, c)
           | (Done (Some frame), c) \<Rightarrow> (Return (Some frame), c)
           | (Done None, c) \<Rightarrow>
               if \<not> control_turn (writer c) then (Again, on_queues (\<lambda>q. q\<lparr>control_turn := True\<rparr>) c)
               else if closing (writer c) \<and> by_stream (writer c) = [] then close_pass c
               else (Wait, c)))"

section \<open>Frame conditions and termination\<close>

lemma drop_out_chunk_frame [simp]:
  "writer (drop_out_chunk S ch c) = writer c"
  "limits (drop_out_chunk S ch c) = limits c"
  "streams (drop_out_chunk S ch c) = streams c"
  "c_window (drop_out_chunk S ch c) = c_window c"
  "closed (drop_out_chunk S ch c) = closed c"
  by (simp_all add: drop_out_chunk_def)

lemma drop_out_chunks_frame [simp]:
  "writer (drop_out_chunks S chs c) = writer c"
  "limits (drop_out_chunks S chs c) = limits c"
  "streams (drop_out_chunks S chs c) = streams c"
  "c_window (drop_out_chunks S chs c) = c_window c"
  "closed (drop_out_chunks S chs c) = closed c"
  by (induction chs arbitrary: c) simp_all

lemma find_update_writer: "writer (snd (find_update ids c)) = writer c"
  by (induction ids c rule: find_update.induct)
    (auto split: option.split prod.split run.split sum.split)

lemma scan_ready_None_control_turn:
  "scan_ready S n cc i m s c = (Done None, c') \<Longrightarrow> control_turn (writer c') = control_turn (writer c)"
  by (induction S n cc i m s c rule: scan_ready.induct)
    (auto simp: Let_def split: option.splits prod.splits run.splits list.splits if_splits)

lemma control_pass_None:
  assumes "control_pass order c = (Done None, c')"
  shows "writer c' = writer c"
proof -
  obtain w where "find_update (order (receive_windows (writer c))) (c\<lparr>c_window := w\<rparr>) = (Done None, c')"
    using assms by (auto simp: control_pass_def split: list.splits prod.splits run.splits option.splits)
  then show ?thesis using find_update_writer [of "order (receive_windows (writer c))" "c\<lparr>c_window := w\<rparr>"] by simp
qed

lemma close_pass_not_Again [simp]: "close_pass c \<noteq> (Again, c')"
  by (simp add: close_pass_def split: prod.splits)

lemma next_pass_Again:
  assumes "next_pass order S c = (Again, c')"
  shows "\<not> control_turn (writer c) \<and> control_turn (writer c')"
proof -
  obtain c1 c2 where c1: "(if control_turn (writer c) \<or> is_urgent (control (writer c)) then control_pass order c
                 else (Done None, c)) = (Done None, c1)" "data_pass S c1 = (Done None, c2)"
      "\<not> control_turn (writer c2)" "c' = on_queues (\<lambda>q. q\<lparr>control_turn := True\<rparr>) c2"
    using assms by (auto simp: next_pass_def split: if_splits prod.splits run.splits option.splits)
  have "writer c1 = writer c" using c1(1) control_pass_None by (auto split: if_splits)
  moreover have "control_turn (writer c2) = control_turn (writer c1)"
    using c1(2) unfolding data_pass_def Let_def by (rule scan_ready_None_control_turn)
  ultimately show ?thesis using c1(3,4) by simp
qed

function next_frame :: "(u64 set \<Rightarrow> u64 list) \<Rightarrow> 's sem_ops \<Rightarrow> 's connection \<Rightarrow> pass \<times> 's connection" where
  "next_frame order S c =
     (case next_pass order S c of
        (Again, c') \<Rightarrow> next_frame order S c'
      | r \<Rightarrow> r)"
  by pat_completeness auto
termination
  by (relation "measure (\<lambda>(order, S, c). if control_turn (writer c) then 0 else 1)")
    (auto dest: next_pass_Again [OF sym])

declare next_frame.simps [simp del]

section \<open>How much one turn sends\<close>

lemma min_eq_0_iff: "min a b = (0::nat) \<longleftrightarrow> a = 0 \<or> b = 0"
  by (auto simp: min_def)

lemma varint_encoded_len_mono:
  "a \<le> b \<Longrightarrow> varint_encoded_len (VarInt a) \<le> varint_encoded_len (VarInt b)"
  by (auto simp: varint_encoded_len_def Let_def)

lemma as_u64_mono: "m \<le> n \<Longrightarrow> n < 2 ^ 64 \<Longrightarrow> as_u64 m \<le> as_u64 n"
  by (simp add: word_le_nat_alt unat_as_u64)

lemma send_count_spec:
  assumes m: "25 \<le> m" "m < 2 ^ 32"
  obtains room where
    "send_count cc i m chunk st = Done (min (length (out_payload chunk))
       (min (min (unat cc) (unat (max (s_peer_limit st) i) - unat (s_sent st))) room))"
    "0 < room" "room < 2 ^ 32"
    "\<And>n. n \<le> room \<Longrightarrow> 2 + varint_encoded_len (out_stream_id chunk) + varint_encoded_len (VarInt (as_u64 n)) + n \<le> m"
proof -
  let ?l = "varint_encoded_len (out_stream_id chunk)"
  define cap where "cap = m - 2 - ?l"
  define h where "h = varint_encoded_len (VarInt (as_u64 cap))"
  have l: "1 \<le> ?l" "?l \<le> 8" and h8: "1 \<le> h" "h \<le> 8"
    using varint_encoded_len_bounds unfolding h_def by blast+
  have cap: "15 \<le> cap" "cap < 2 ^ 32" "2 + ?l + cap = m" using m l by (auto simp: cap_def)
  have v: "from_u64 (as_u64 cap) = Inr (VarInt (as_u64 cap))"
    using cap by (intro from_u64_unat) (simp add: unat_as_u64)
  show ?thesis
  proof (rule that [of "cap - h"])
    show "send_count cc i m chunk st = Done (min (length (out_payload chunk))
       (min (min (unat cc) (unat (max (s_peer_limit st) i) - unat (s_sent st))) (cap - h)))"
      unfolding send_count_def Let_def cap_def [symmetric] v sum.case h_def [symmetric]
      using m l cap h8 by (simp add: unat_min unat_saturating_sub unat_as_u64)
    show "0 < cap - h" "cap - h < 2 ^ 32" using cap h8 by auto
    show "2 + ?l + varint_encoded_len (VarInt (as_u64 n)) + n \<le> m" if "n \<le> cap - h" for n
    proof -
      have "varint_encoded_len (VarInt (as_u64 n)) \<le> h"
        unfolding h_def using that cap by (intro varint_encoded_len_mono as_u64_mono) auto
      then show ?thesis using that cap h8 by linarith
    qed
  qed
qed

section \<open>Invariant of the queues\<close>

definition out_chunk_ok :: "limits \<Rightarrow> u64 \<Rightarrow> outbound_chunk \<Rightarrow> bool" where
  "out_chunk_ok l sid ch \<longleftrightarrow> out_state ch = sid \<and> out_stream_id ch = VarInt sid
     \<and> (out_payload ch \<noteq> [] \<or> out_fin ch)
     \<and> length (frame_bytes (Stream (VarInt sid) (out_fin ch) (out_payload ch))) \<le> max_frame_size l"

text \<open>The queue of one stream: never empty, chunks of this stream, FIN at most on the last one, and only
  when the sending side is closed.\<close>

definition stream_queue_ok :: "limits \<Rightarrow> u64 \<Rightarrow> 's stream_state option \<Rightarrow> outbound_chunk list \<Rightarrow> bool" where
  "stream_queue_ok l sid obj chs \<longleftrightarrow> chs \<noteq> [] \<and> list_all (out_chunk_ok l sid) chs
     \<and> list_all (\<lambda>ch. \<not> out_fin ch) (butlast chs)
     \<and> (case obj of None \<Rightarrow> False | Some st \<Rightarrow> out_fin (last chs) \<longrightarrow> send_terminal st)"

definition ready_ok :: "writer_queues \<Rightarrow> bool" where
  "ready_ok q \<longleftrightarrow> distinct (map fst (by_stream q)) \<and> distinct (ready q) \<and> set (ready q) = fst ` set (by_stream q)"

definition control_ok :: "limits \<Rightarrow> writer_queues \<Rightarrow> bool" where
  "control_ok l q \<longleftrightarrow> length (control q) \<le> max_control_frames l
     \<and> list_all (\<lambda>f. is_control f \<and> wf_frame f) (control q)
     \<and> (case close_frame q of None \<Rightarrow> True
        | Some f \<Rightarrow> closing q \<and> wf_frame f \<and> length (frame_bytes f) \<le> max_frame_size l \<and> (\<exists>e r. f = ConnectionClose e r))"

text \<open>What was sent is within what the peer allows, for the connection and for each stream.\<close>

definition stream_credit_ok :: "u64 \<Rightarrow> 's stream_state \<Rightarrow> bool" where
  "stream_credit_ok initial st \<longleftrightarrow> s_sent st \<le> max (s_peer_limit st) initial"

definition queues_inv :: "'s connection \<Rightarrow> bool" where
  "queues_inv c \<longleftrightarrow>
     ready_ok (writer c) \<and> control_ok (limits c) (writer c)
     \<and> (\<forall>sid chs. map_of (by_stream (writer c)) sid = Some chs \<longrightarrow> stream_queue_ok (limits c) sid (objects c sid) chs)
     \<and> (\<forall>sid st. objects c sid = Some st \<longrightarrow> sid \<le> varint_MAX \<and> rw_inv (s_window st)
          \<and> stream_credit_ok (peer_initial_stream_limit (writer c)) st)
     \<and> w_sent (writer c) \<le> peer_limit (writer c) \<and> rw_inv (c_window c)
     \<and> 25 \<le> peer_max_frame (writer c) \<and> peer_max_frame (writer c) < 2 ^ 32
     \<and> 25 \<le> max_frame_size (limits c) \<and> max_frame_size (limits c) < 2 ^ 32"

lemma queues_invD:
  assumes "queues_inv c"
  shows "ready_ok (writer c)" "control_ok (limits c) (writer c)"
    "map_of (by_stream (writer c)) sid = Some chs \<Longrightarrow> stream_queue_ok (limits c) sid (objects c sid) chs"
    "objects c sid = Some st \<Longrightarrow> sid \<le> varint_MAX"
    "objects c sid = Some st \<Longrightarrow> rw_inv (s_window st)"
    "objects c sid = Some st \<Longrightarrow> stream_credit_ok (peer_initial_stream_limit (writer c)) st"
    "w_sent (writer c) \<le> peer_limit (writer c)" "rw_inv (c_window c)"
    "25 \<le> peer_max_frame (writer c)" "peer_max_frame (writer c) < 2 ^ 32"
    "25 \<le> max_frame_size (limits c)" "max_frame_size (limits c) < 2 ^ 32"
  using assms by (auto simp: queues_inv_def)

section \<open>The scheduler over the ready streams\<close>

text \<open>A stream can send when the peer's settings are known and its first chunk is a bare FIN or both
  credits are positive.\<close>

definition can_send :: "'s connection \<Rightarrow> u64 \<Rightarrow> bool" where
  "can_send c sid \<longleftrightarrow>
     (case (queue_of sid (writer c), objects c sid) of
        (chunk # _, Some st) \<Rightarrow> peer_settings (writer c) \<and> (out_payload chunk = [] \<or>
          w_sent (writer c) < peer_limit (writer c)
          \<and> s_sent st < max (s_peer_limit st) (peer_initial_stream_limit (writer c)))
      | _ \<Rightarrow> False)"

abbreviation credit_of :: "'s connection \<Rightarrow> u64" where
  "credit_of c \<equiv> saturating_sub (peer_limit (writer c)) (w_sent (writer c))"

abbreviation scan :: "'s sem_ops \<Rightarrow> nat \<Rightarrow> 's connection \<Rightarrow> frame option run \<times> 's connection" where
  "scan S n c \<equiv> scan_ready S n (credit_of c) (peer_initial_stream_limit (writer c)) (peer_max_frame (writer c))
     (peer_settings (writer c)) c"

definition with_ready :: "u64 list \<Rightarrow> 's connection \<Rightarrow> 's connection" where
  "with_ready xs c = on_queues (\<lambda>q. q\<lparr>ready := xs\<rparr>) c"

lemma with_ready_simps [simp]:
  "objects (with_ready xs c) = objects c" "limits (with_ready xs c) = limits c"
  "ready (writer (with_ready xs c)) = xs" "by_stream (writer (with_ready xs c)) = by_stream (writer c)"
  "peer_limit (writer (with_ready xs c)) = peer_limit (writer c)" "w_sent (writer (with_ready xs c)) = w_sent (writer c)"
  "peer_initial_stream_limit (writer (with_ready xs c)) = peer_initial_stream_limit (writer c)"
  "peer_max_frame (writer (with_ready xs c)) = peer_max_frame (writer c)"
  "peer_settings (writer (with_ready xs c)) = peer_settings (writer c)"
  "c_window (with_ready xs c) = c_window c" "streams (with_ready xs c) = streams c" "closed (with_ready xs c) = closed c"
  "with_ready ys (with_ready xs c) = with_ready ys c"
  by (simp_all add: with_ready_def on_queues_def)

lemma with_ready_same: "ready (writer c) = xs \<Longrightarrow> with_ready xs c = c"
  by (simp add: with_ready_def on_queues_def)

lemma can_send_with_ready [simp]: "can_send (with_ready xs c) sid = can_send c sid"
  by (simp add: can_send_def queue_of_def split: list.split option.split)

text \<open>The head of a queue and what it may send.\<close>

lemma queue_head:
  assumes inv: "queues_inv c" and sid: "map_of (by_stream (writer c)) sid = Some chs"
  obtains chunk rest st count where "chs = chunk # rest" "out_chunk_ok (limits c) sid chunk"
    "out_state chunk = sid" "objects c sid = Some st"
    "send_count (credit_of c) (peer_initial_stream_limit (writer c)) (peer_max_frame (writer c)) chunk st = Done count"
    "can_send c sid \<longleftrightarrow> peer_settings (writer c) \<and> (count = 0 \<longrightarrow> out_payload chunk = [])"
proof -
  have ok: "stream_queue_ok (limits c) sid (objects c sid) chs" by (rule queues_invD(3) [OF inv sid])
  obtain chunk rest where chs: "chs = chunk # rest" and ch: "out_chunk_ok (limits c) sid chunk"
    using ok by (cases chs) (auto simp: stream_queue_ok_def)
  obtain st where st: "objects c sid = Some st" using ok by (auto simp: stream_queue_ok_def split: option.splits)
  let ?i = "peer_initial_stream_limit (writer c)"
  obtain room where room: "send_count (credit_of c) ?i (peer_max_frame (writer c)) chunk st =
      Done (min (length (out_payload chunk)) (min (min (unat (credit_of c))
        (unat (max (s_peer_limit st) ?i) - unat (s_sent st))) room))" "0 < room"
    using send_count_spec [OF queues_invD(9,10) [OF inv], of "credit_of c" ?i chunk st] by metis
  have "can_send c sid \<longleftrightarrow> peer_settings (writer c) \<and> (out_payload chunk = [] \<or>
      w_sent (writer c) < peer_limit (writer c) \<and> s_sent st < max (s_peer_limit st) ?i)"
    using st sid chs by (simp add: can_send_def queue_of_def)
  moreover have "w_sent (writer c) < peer_limit (writer c) \<longleftrightarrow> 0 < unat (credit_of c)"
    unfolding unat_saturating_sub word_less_nat_alt by (rule zero_less_diff [symmetric])
  moreover have "s_sent st < max (s_peer_limit st) ?i \<longleftrightarrow> 0 < unat (max (s_peer_limit st) ?i) - unat (s_sent st)"
    unfolding word_less_nat_alt by (rule zero_less_diff [symmetric])
  ultimately have cs: "can_send c sid \<longleftrightarrow> peer_settings (writer c)
      \<and> (min (length (out_payload chunk)) (min (min (unat (credit_of c))
        (unat (max (s_peer_limit st) ?i) - unat (s_sent st))) room) = 0 \<longrightarrow> out_payload chunk = [])"
    using room(2) by (simp only: min_eq_0_iff) auto
  have "out_state chunk = sid" using ch by (simp add: out_chunk_ok_def)
  then show thesis by (rule that [OF chs ch _ st room(1) cs])
qed

lemma queues_inv_with_ready:
  assumes "queues_inv c" "distinct xs" "set xs = set (ready (writer c))"
  shows "queues_inv (with_ready xs c)"
  using assms by (simp add: queues_inv_def with_ready_def ready_ok_def control_ok_def cong: option.case_cong)

lemma ready_queued:
  assumes "queues_inv c" "sid \<in> set (ready (writer c))"
  obtains chs where "map_of (by_stream (writer c)) sid = Some chs"
  using queues_invD(1) [OF assms(1)] assms(2)
  by (auto simp: ready_ok_def intro: that dest: weak_map_of_SomeI)

lemma scan_skip:
  assumes inv: "queues_inv c" and r: "ready (writer c) = sid # xs" and blocked: "\<not> can_send c sid"
  shows "scan S (Suc n) c = scan S n (with_ready (xs @ [sid]) c)"
proof -
  obtain chs where m: "map_of (by_stream (writer c)) sid = Some chs" using ready_queued [OF inv, of sid] r by auto
  from queue_head [OF inv m] obtain chunk rest st count where h: "chs = chunk # rest" "out_state chunk = sid"
    "objects c sid = Some st"
    "send_count (credit_of c) (peer_initial_stream_limit (writer c)) (peer_max_frame (writer c)) chunk st = Done count"
    "\<not> peer_settings (writer c) \<or> (count = 0 \<and> out_payload chunk \<noteq> [])"
    using blocked by metis
  have "on_queues (\<lambda>q. q\<lparr>ready := ready q @ [sid]\<rparr>) (on_queues (\<lambda>q. q\<lparr>ready := xs\<rparr>) c) = with_ready (xs @ [sid]) c"
    by (simp add: with_ready_def on_queues_def)
  then show ?thesis using r m h by (simp add: Let_def)
qed

lemma scan_hit:
  assumes inv: "queues_inv c" and r: "ready (writer c) = sid # xs" and free: "can_send c sid"
  obtains chunk rest st count where "map_of (by_stream (writer c)) sid = Some (chunk # rest)"
    "objects c sid = Some st" "peer_settings (writer c)" "count = 0 \<Longrightarrow> out_payload chunk = []"
    "send_count (credit_of c) (peer_initial_stream_limit (writer c)) (peer_max_frame (writer c)) chunk st = Done count"
    "\<And>n. scan S (Suc n) c = (case dispatch S sid chunk rest count (with_ready xs c) of (f, c') \<Rightarrow> (Done (Some f), c'))"
proof -
  obtain chs where m: "map_of (by_stream (writer c)) sid = Some chs" using ready_queued [OF inv, of sid] r by auto
  from queue_head [OF inv m] obtain chunk rest st count where h: "chs = chunk # rest" "out_state chunk = sid"
    "objects c sid = Some st"
    "send_count (credit_of c) (peer_initial_stream_limit (writer c)) (peer_max_frame (writer c)) chunk st = Done count"
    "peer_settings (writer c)" "count = 0 \<Longrightarrow> out_payload chunk = []"
    using free by metis
  have "scan S (Suc n) c = (case dispatch S sid chunk rest count (with_ready xs c) of (f, c') \<Rightarrow> (Done (Some f), c'))" for n
    using r m h by (auto simp: Let_def with_ready_def [symmetric])
  then show thesis using that [of chunk rest st count] m h by auto
qed

lemma scan_blocked:
  assumes "queues_inv c" "ready (writer c) = xs @ ys" "\<And>x. x \<in> set xs \<Longrightarrow> \<not> can_send c x"
  shows "scan S (length xs) c = (Done None, with_ready (ys @ xs) c)"
  using assms
proof (induction xs arbitrary: c ys)
  case Nil
  then show ?case by (simp add: with_ready_same)
next
  case (Cons x xs)
  let ?c = "with_ready (xs @ ys @ [x]) c"
  have "distinct (x # xs @ ys)" using queues_invD(1) [OF Cons.prems(1)] Cons.prems(2) by (simp add: ready_ok_def)
  then have "queues_inv ?c" using Cons.prems by (intro queues_inv_with_ready) auto
  from Cons.IH [OF this, of "ys @ [x]"] scan_skip [OF Cons.prems(1), of x "xs @ ys" S "length xs"] Cons.prems
  show ?case by simp
qed

lemma scan_first:
  assumes "queues_inv c" "ready (writer c) = as @ sid # bs" "\<And>x. x \<in> set as \<Longrightarrow> \<not> can_send c x"
  shows "scan S (length as + n) c = scan S n (with_ready (sid # bs @ as) c)"
  using assms
proof (induction as arbitrary: c bs)
  case Nil
  then show ?case by (simp add: with_ready_same)
next
  case (Cons x as)
  let ?c = "with_ready (as @ (sid # bs) @ [x]) c"
  have "distinct (x # as @ sid # bs)" using queues_invD(1) [OF Cons.prems(1)] Cons.prems(2) by (simp add: ready_ok_def)
  then have "queues_inv ?c" using Cons.prems by (intro queues_inv_with_ready) auto
  from Cons.IH [OF this, of "bs @ [x]"] scan_skip [OF Cons.prems(1), of x "as @ sid # bs" S "length as + n"] Cons.prems
  show ?case by simp
qed

text \<open>The data half of a pass: idle when no ready stream can send, otherwise the first one that can sends
  from its first chunk, and the streams that were passed over go behind the others.\<close>

lemma data_pass_cases:
  assumes inv: "queues_inv c"
  obtains (idle) "\<And>x. x \<in> set (ready (writer c)) \<Longrightarrow> \<not> can_send c x" "data_pass S c = (Done None, c)"
  | (sent) as sid bs chunk rest st count where "ready (writer c) = as @ sid # bs"
    "\<And>x. x \<in> set as \<Longrightarrow> \<not> can_send c x" "can_send c sid" "map_of (by_stream (writer c)) sid = Some (chunk # rest)"
    "objects c sid = Some st" "peer_settings (writer c)" "count = 0 \<Longrightarrow> out_payload chunk = []"
    "send_count (credit_of c) (peer_initial_stream_limit (writer c)) (peer_max_frame (writer c)) chunk st = Done count"
    "data_pass S c = (case dispatch S sid chunk rest count (with_ready (bs @ as) c) of (f, c') \<Rightarrow> (Done (Some f), c'))"
proof (cases "\<forall>x \<in> set (ready (writer c)). \<not> can_send c x")
  case True
  then show thesis
    using idle scan_blocked [OF inv, of "ready (writer c)" "[]" S] by (simp add: data_pass_def Let_def with_ready_same)
next
  case False
  then obtain as sid bs where r: "ready (writer c) = as @ sid # bs" "can_send c sid" "\<forall>x\<in>set as. \<not> can_send c x"
    using split_list_first_prop [of "ready (writer c)" "can_send c"] by auto
  let ?c = "with_ready (sid # bs @ as) c"
  have "distinct (as @ sid # bs)" using queues_invD(1) [OF inv] r(1) by (simp add: ready_ok_def)
  then have inv': "queues_inv ?c" using r(1) by (intro queues_inv_with_ready [OF inv]) auto
  have d: "data_pass S c = scan S (Suc (length bs)) ?c"
    using scan_first [OF inv r(1), of S "Suc (length bs)"] r by (simp add: data_pass_def Let_def)
  obtain chunk rest st count where h: "map_of (by_stream (writer ?c)) sid = Some (chunk # rest)"
    "objects ?c sid = Some st" "peer_settings (writer ?c)" "count = 0 \<Longrightarrow> out_payload chunk = []"
    "send_count (credit_of ?c) (peer_initial_stream_limit (writer ?c)) (peer_max_frame (writer ?c)) chunk st = Done count"
    "\<And>n. scan S (Suc n) ?c = (case dispatch S sid chunk rest count (with_ready (bs @ as) ?c) of (f, c') \<Rightarrow> (Done (Some f), c'))"
    using scan_hit [OF inv', of sid "bs @ as" S] r(2) by (metis can_send_with_ready with_ready_simps(3))
  show thesis
    by (rule sent [OF r(1)]) (use r h d in auto)
qed

section \<open>Dispatching a chunk\<close>

lemma stream_frame_length:
  "length (frame_bytes (Stream i fin p)) =
     2 + varint_encoded_len i + varint_encoded_len (VarInt (as_u64 (length p))) + length p"
  by (simp add: sized_bytes_def length_varint_bytes)

lemma stream_frame_mono:
  assumes "length p \<le> length p'" "length p' < 2 ^ 64"
  shows "length (frame_bytes (Stream i fin p)) \<le> length (frame_bytes (Stream i fin' p'))"
proof -
  have "varint_encoded_len (VarInt (as_u64 (length p))) \<le> varint_encoded_len (VarInt (as_u64 (length p')))"
    by (intro varint_encoded_len_mono as_u64_mono assms)
  then show ?thesis unfolding stream_frame_length using assms(1) by linarith
qed

text \<open>What is left of the queue of a stream after \<open>count\<close> bytes of its first chunk were sent.\<close>

definition queue_after :: "outbound_chunk \<Rightarrow> outbound_chunk list \<Rightarrow> usize \<Rightarrow> outbound_chunk list" where
  "queue_after chunk rest count =
     (if drop count (out_payload chunk) = [] then rest
      else chunk\<lparr>out_payload := drop count (out_payload chunk)\<rparr> # rest)"

lemma dispatch_frame:
  "fst (dispatch S sid chunk rest count c) =
     Stream (out_stream_id chunk) (out_fin chunk \<and> drop count (out_payload chunk) = []) (take count (out_payload chunk))"
  "limits (snd (dispatch S sid chunk rest count c)) = limits c"
  "c_window (snd (dispatch S sid chunk rest count c)) = c_window c"
  "streams (snd (dispatch S sid chunk rest count c)) = streams c"
  "closed (snd (dispatch S sid chunk rest count c)) = closed c"
  by (simp_all add: dispatch_def Let_def)

lemma dispatch_writer:
  "writer (snd (dispatch S sid chunk rest count c)) =
     (let q = writer c; queue = queue_after chunk rest count in
      if queue = []
      then q\<lparr>by_stream := AList.delete sid (by_stream q), w_sent := w_sent q + as_u64 count, control_turn := True\<rparr>
      else q\<lparr>by_stream := AList.update sid queue (by_stream q), ready := ready q @ [sid],
             w_sent := w_sent q + as_u64 count, control_turn := True\<rparr>)"
  by (simp add: dispatch_def Let_def queue_after_def)

lemma dispatch_objects:
  assumes "objects c (out_state chunk) = Some st"
  shows "\<exists>f b. objects (snd (dispatch S sid chunk rest count c)) = (objects c)(out_state chunk \<mapsto>
    st\<lparr>s_sent := s_sent st + as_u64 count,
       send_dispatched := send_dispatched st \<or> (out_fin chunk \<and> drop count (out_payload chunk) = []),
       outbound_stream_frames := f, outbound_stream_bytes := b\<rparr>)"
proof (cases "drop count (out_payload chunk) = []")
  case True
  then show ?thesis using assms
    by (simp add: dispatch_def Let_def drop_out_chunk_def on_stream_def) blast
next
  case False
  then have "objects (snd (dispatch S sid chunk rest count c)) = (objects c)(out_state chunk \<mapsto>
    st\<lparr>s_sent := s_sent st + as_u64 count,
       send_dispatched := send_dispatched st \<or> (out_fin chunk \<and> drop count (out_payload chunk) = []),
       outbound_stream_frames := outbound_stream_frames st, outbound_stream_bytes := outbound_stream_bytes st\<rparr>)"
    using assms by (simp add: dispatch_def Let_def on_stream_def)
  then show ?thesis by blast
qed

lemma add_count_le:
  assumes "unat (a::u64) + n \<le> unat l"
  shows "unat (a + as_u64 n) = unat a + n" "a + as_u64 n \<le> l"
proof -
  have "unat a + n < 2 ^ 64" using assms unat_u64_less [of l] by simp
  then show "unat (a + as_u64 n) = unat a + n" by (simp add: unat_word_ariths unat_as_u64)
  then show "a + as_u64 n \<le> l" using assms by (simp add: word_le_nat_alt)
qed

lemma count_bounds:
  assumes inv: "queues_inv c" and st: "objects c sid = Some st"
    and cnt: "send_count (credit_of c) (peer_initial_stream_limit (writer c)) (peer_max_frame (writer c)) chunk st = Done count"
  shows "count \<le> length (out_payload chunk)"
    "unat (w_sent (writer c)) + count \<le> unat (peer_limit (writer c))"
    "unat (s_sent st) + count \<le> unat (max (s_peer_limit st) (peer_initial_stream_limit (writer c)))"
    "length (frame_bytes (Stream (out_stream_id chunk) fin (take count (out_payload chunk)))) \<le> peer_max_frame (writer c)"
proof -
  let ?lim = "max (s_peer_limit st) (peer_initial_stream_limit (writer c))"
  have le: "unat (w_sent (writer c)) \<le> unat (peer_limit (writer c))" "unat (s_sent st) \<le> unat ?lim"
    using queues_invD(7) [OF inv] queues_invD(6) [OF inv st]
    unfolding stream_credit_ok_def word_le_nat_alt by blast+
  obtain room where c: "count = min (length (out_payload chunk))
      (min (min (unat (credit_of c)) (unat ?lim - unat (s_sent st))) room)"
    and room: "\<And>n. n \<le> room \<Longrightarrow> 2 + varint_encoded_len (out_stream_id chunk)
      + varint_encoded_len (VarInt (as_u64 n)) + n \<le> peer_max_frame (writer c)"
    using send_count_spec [OF queues_invD(9,10) [OF inv],
        of "credit_of c" "peer_initial_stream_limit (writer c)" chunk st] cnt
    by (metis run.inject)
  have b: "count \<le> unat (credit_of c)" "count \<le> unat ?lim - unat (s_sent st)" "count \<le> room"
    unfolding c by (simp_all add: min.coboundedI2 min.coboundedI1)
  show len: "count \<le> length (out_payload chunk)" unfolding c by simp
  show "unat (w_sent (writer c)) + count \<le> unat (peer_limit (writer c))"
    using b(1) le(1) by (simp add: unat_saturating_sub)
  show "unat (s_sent st) + count \<le> unat ?lim" using b(2) le(2) by linarith
  have "length (take count (out_payload chunk)) = count" using len by simp
  then show "length (frame_bytes (Stream (out_stream_id chunk) fin (take count (out_payload chunk)))) \<le> peer_max_frame (writer c)"
    unfolding stream_frame_length using room [OF b(3)] by simp
qed

lemma queue_after_ok:
  assumes ok: "stream_queue_ok l sid (Some st) (chunk # rest)" and l: "max_frame_size l < 2 ^ 32"
    and ne: "queue_after chunk rest count \<noteq> []" and st': "send_terminal st' = send_terminal st"
  shows "stream_queue_ok l sid (Some st') (queue_after chunk rest count)"
proof (cases "drop count (out_payload chunk) = []")
  case True
  then show ?thesis
    using ok ne st' by (cases rest) (auto simp: stream_queue_ok_def queue_after_def)
next
  case False
  let ?ch = "chunk\<lparr>out_payload := drop count (out_payload chunk)\<rparr>"
  have ch: "out_chunk_ok l sid chunk" using ok by (simp add: stream_queue_ok_def)
  have "length (out_payload chunk) < 2 ^ 64"
    using ch l by (simp add: out_chunk_ok_def sized_bytes_def)
  then have "length (frame_bytes (Stream (VarInt sid) (out_fin chunk) (drop count (out_payload chunk))))
      \<le> length (frame_bytes (Stream (VarInt sid) (out_fin chunk) (out_payload chunk)))"
    by (intro stream_frame_mono) auto
  then have "out_chunk_ok l sid ?ch"
    using ch False unfolding out_chunk_ok_def by (simp del: frame_bytes.simps)
  then show ?thesis
    using ok st' False by (cases rest rule: rev_cases) (auto simp: stream_queue_ok_def queue_after_def butlast_append)
qed

lemma alist_delete_keys [simp]: "fst ` set (AList.delete k al) = fst ` set al - {k}"
  by (metis AList.delete_keys list.set_map set_removeAll)

lemma dispatch_ready_ok:
  assumes "ready_ok q" "ready q = as @ sid # bs"
  shows "ready_ok (q\<lparr>by_stream := AList.delete sid (by_stream q), ready := bs @ as, w_sent := w, control_turn := t\<rparr>)"
    "ready_ok (q\<lparr>by_stream := AList.update sid chs (by_stream q), ready := bs @ as @ [sid], w_sent := w, control_turn := t\<rparr>)"
proof -
  have d: "distinct (map fst (by_stream q))" "distinct (as @ sid # bs)" "fst ` set (by_stream q) = set (as @ sid # bs)"
    using assms by (auto simp: ready_ok_def)
  show "ready_ok (q\<lparr>by_stream := AList.delete sid (by_stream q), ready := bs @ as, w_sent := w, control_turn := t\<rparr>)"
    using d by (auto simp: ready_ok_def AList.distinct_delete)
  show "ready_ok (q\<lparr>by_stream := AList.update sid chs (by_stream q), ready := bs @ as @ [sid], w_sent := w, control_turn := t\<rparr>)"
    using d by (auto simp: ready_ok_def AList.distinct_update AList.dom_update)
qed

text \<open>The assumptions of the next lemmas are what \<open>data_pass_cases\<close> gives for the stream that sends.\<close>

lemma dispatch_inv:
  assumes inv: "queues_inv c" and r: "ready (writer c) = as @ sid # bs"
    and m: "map_of (by_stream (writer c)) sid = Some (chunk # rest)" and st: "objects c sid = Some st"
    and cnt: "send_count (credit_of c) (peer_initial_stream_limit (writer c)) (peer_max_frame (writer c)) chunk st = Done count"
  shows "queues_inv (snd (dispatch S sid chunk rest count (with_ready (bs @ as) c)))"
proof -
  let ?c = "snd (dispatch S sid chunk rest count (with_ready (bs @ as) c))"
  let ?queue = "queue_after chunk rest count"
  have ok: "stream_queue_ok (limits c) sid (Some st) (chunk # rest)" using queues_invD(3) [OF inv m] st by simp
  then have sid: "out_state chunk = sid" by (simp add: stream_queue_ok_def out_chunk_ok_def)
  note b = count_bounds [OF inv st cnt]
  obtain f b' where objs: "objects ?c = (objects c)(sid \<mapsto> st\<lparr>s_sent := s_sent st + as_u64 count,
       send_dispatched := send_dispatched st \<or> (out_fin chunk \<and> drop count (out_payload chunk) = []),
       outbound_stream_frames := f, outbound_stream_bytes := b'\<rparr>)" (is "_ = _(sid \<mapsto> ?st)")
    using dispatch_objects [of "with_ready (bs @ as) c" chunk st S sid rest count] st sid by auto
  have q: "writer ?c = (if ?queue = []
      then (writer c)\<lparr>by_stream := AList.delete sid (by_stream (writer c)), ready := bs @ as,
             w_sent := w_sent (writer c) + as_u64 count, control_turn := True\<rparr>
      else (writer c)\<lparr>by_stream := AList.update sid ?queue (by_stream (writer c)), ready := bs @ as @ [sid],
             w_sent := w_sent (writer c) + as_u64 count, control_turn := True\<rparr>)"
    by (simp add: dispatch_writer with_ready_def Let_def)
  have ready: "ready_ok (writer ?c)"
    unfolding q using dispatch_ready_ok [OF queues_invD(1) [OF inv] r] by simp
  have credit: "stream_credit_ok (peer_initial_stream_limit (writer c)) ?st"
    using add_count_le(2) [OF b(3)] unfolding stream_credit_ok_def by simp
  have sent: "w_sent (writer ?c) \<le> peer_limit (writer ?c)"
    unfolding q using add_count_le(2) [OF b(2)] by simp
  have queues: "stream_queue_ok (limits c) i (objects ?c i) chs" if "map_of (by_stream (writer ?c)) i = Some chs" for i chs
  proof (cases "i = sid")
    case True
    then have "?queue \<noteq> []" "chs = ?queue"
      using that by (auto simp: q AList.delete_conv' AList.update_conv' split: if_splits)
    then show ?thesis using queue_after_ok [OF ok queues_invD(12) [OF inv], of count ?st] True objs by simp
  next
    case False
    then have "map_of (by_stream (writer c)) i = Some chs"
      using that by (auto simp: q AList.delete_conv' AList.update_conv' split: if_splits)
    then show ?thesis using queues_invD(3) [OF inv] False objs by simp
  qed
  have objok: "i \<le> varint_MAX \<and> rw_inv (s_window s) \<and> stream_credit_ok (peer_initial_stream_limit (writer ?c)) s"
    if "objects ?c i = Some s" for i s
    using that credit queues_invD(4-6) [OF inv] st objs by (auto simp: q split: if_splits)
  have "control_ok (limits c) (writer ?c)"
    using queues_invD(2) [OF inv] by (simp add: control_ok_def q cong: option.case_cong)
  then show ?thesis
    unfolding queues_inv_def
    using ready queues objok sent queues_invD(8-12) [OF inv] by (simp add: dispatch_frame q)
qed

text \<open>The bytes waiting to be sent on a stream.\<close>

definition queued_bytes :: "'s connection \<Rightarrow> u64 \<Rightarrow> bytes" where
  "queued_bytes c sid = concat (map out_payload (queue_of sid (writer c)))"

lemma dispatch_bytes:
  assumes m: "map_of (by_stream (writer c)) sid = Some (chunk # rest)"
  shows "queued_bytes c sid = take count (out_payload chunk)
      @ queued_bytes (snd (dispatch S sid chunk rest count (with_ready xs c))) sid"
    "i \<noteq> sid \<Longrightarrow> queued_bytes (snd (dispatch S sid chunk rest count (with_ready xs c))) i = queued_bytes c i"
  using m append_take_drop_id [of count "out_payload chunk"]
  by (auto simp: queued_bytes_def queue_of_def dispatch_writer Let_def queue_after_def AList.delete_conv'
      AList.update_conv' with_ready_def split: if_splits)

section \<open>The whole scheduler\<close>

lemma queues_inv_s_window:
  assumes inv: "queues_inv c" and w: "rw_inv w"
  shows "queues_inv (on_stream sid (\<lambda>st. st\<lparr>s_window := w\<rparr>) c)"
proof -
  let ?c = "on_stream sid (\<lambda>st. st\<lparr>s_window := w\<rparr>) c"
  have "stream_queue_ok (limits c) i (objects ?c i) chs" if "map_of (by_stream (writer c)) i = Some chs" for i chs
    using queues_invD(3) [OF inv that]
    by (auto simp: stream_queue_ok_def map_option_case split: option.splits)
  moreover have "i \<le> varint_MAX \<and> rw_inv (s_window s) \<and> stream_credit_ok (peer_initial_stream_limit (writer c)) s"
    if "objects ?c i = Some s" for i s
    using that w queues_invD(4-6) [OF inv] by (auto simp: stream_credit_ok_def split: if_splits)
  ultimately show ?thesis using inv by (simp add: queues_inv_def)
qed

lemma find_update_ok:
  assumes "queues_inv c" "find_update ids c = (r, c')"
  shows "queues_inv c' \<and> r \<noteq> Panic \<and> (\<forall>f. r = Done (Some f) \<longrightarrow> is_control f \<and> wf_frame f)"
  using assms
proof (induction ids c rule: find_update.induct)
  case (2 sid ids c)
  show ?case
  proof (cases "\<exists>st. objects c sid = Some st \<and> \<not> recv_terminal st \<and> \<not> recv_discarded st")
    case False
    then show ?thesis using 2 by (auto split: option.splits if_splits)
  next
    case True
    then obtain st where st: "objects c sid = Some st" "\<not> (recv_terminal st \<or> recv_discarded st)" by blast
    have w: "rw_inv (s_window st)" and sid: "sid \<le> varint_MAX" using queues_invD(4,5) [OF 2(4) st(1)] by auto
    have inv': "queues_inv (on_stream sid (\<lambda>st. st\<lparr>s_window := w'\<rparr>) c)" if "rw_inv w'" for w'
      by (rule queues_inv_s_window [OF 2(4) that])
    show ?thesis
    proof (cases "needs_update (s_window st)")
      case True
      have "from_u64 sid = Inr (VarInt sid)" "wf_varint (VarInt sid)" "wf_varint (VarInt (next_limit (s_window st)))"
        using sid from_u64_wf [OF next_limit_in_range] by (auto simp: from_u64_Inr wf_varint_def)
      then show ?thesis
        using 2(5) st rw_update_Some [OF True] rw_inv_update [OF w] inv' by auto
    next
      case False
      then show ?thesis
        using 2(3) [OF st rw_update_None [OF False, symmetric] refl refl] 2(5) st rw_update_None [OF False] inv' w
        by auto
    qed
  qed
qed auto

lemma truncate_close_ok:
  assumes wf: "wf_frame (ConnectionClose e r)" and m: "25 \<le> m"
  shows "wf_frame (truncate_close m (ConnectionClose e r))"
    "length (frame_bytes (truncate_close m (ConnectionClose e r))) \<le> m"
    "length (frame_bytes (truncate_close m (ConnectionClose e r))) \<le> length (frame_bytes (ConnectionClose e r))"
    "\<exists>k \<le> length r. truncate_close m (ConnectionClose e r) = ConnectionClose e (take k r) \<and> is_char_boundary r k"
proof -
  let ?max = "m - (1 + error_code_encoded_len e + 8)"
  obtain k where k: "k \<le> length r" "k \<le> ?max" "is_char_boundary r k"
      "truncate_close m (ConnectionClose e r) = ConnectionClose e (take k r)"
  proof (cases "length r > ?max")
    case True
    then show thesis using floor_char_boundary_le [of r ?max] floor_char_boundary_boundary [of r ?max]
      by (intro that [of "floor_char_boundary r ?max"]) (auto simp: truncate_close_def Let_def)
  next
    case False
    then show thesis by (intro that [of "length r"]) (auto simp: truncate_close_def Let_def is_char_boundary_def)
  qed
  show "\<exists>k \<le> length r. truncate_close m (ConnectionClose e r) = ConnectionClose e (take k r) \<and> is_char_boundary r k"
    using k by blast
  have "utf8_valid r" "length r < 2 ^ 62" using wf by auto
  then show "wf_frame (truncate_close m (ConnectionClose e r))"
    using wf k utf8_valid_take by (simp add: k(4))
  have len: "length (frame_bytes (ConnectionClose e s)) = 1 + error_code_encoded_len e
      + varint_encoded_len (VarInt (as_u64 (length s))) + length s" for s
    by (simp add: sized_bytes_def encoded_len_lengths)
  have le8: "varint_encoded_len (VarInt (as_u64 k)) \<le> 8" "error_code_encoded_len e \<le> 8"
    using varint_encoded_len_bounds by (auto simp: error_code_encoded_len_def)
  show "length (frame_bytes (truncate_close m (ConnectionClose e r))) \<le> m"
    unfolding k(4) len using k(1,2) le8 m by simp
  have "varint_encoded_len (VarInt (as_u64 k)) \<le> varint_encoded_len (VarInt (as_u64 (length r)))"
    using k(1) \<open>length r < 2 ^ 62\<close> by (intro varint_encoded_len_mono as_u64_mono) auto
  then show "length (frame_bytes (truncate_close m (ConnectionClose e r))) \<le> length (frame_bytes (ConnectionClose e r))"
    unfolding k(4) len using k(1) by simp
qed

lemma queues_inv_control_done: "queues_inv c \<Longrightarrow> queues_inv (control_done c)"
  by (simp add: queues_inv_def control_done_def ready_ok_def control_ok_def cong: option.case_cong)

lemma queues_inv_c_window: "queues_inv c \<Longrightarrow> rw_inv w \<Longrightarrow> queues_inv (c\<lparr>c_window := w\<rparr>)"
  by (simp add: queues_inv_def)

text \<open>What every frame given to the transport satisfies: it can be encoded, and fits both the peer's and the
  local limit of the frame size.\<close>

definition frame_ok :: "'s connection \<Rightarrow> frame \<Rightarrow> bool" where
  "frame_ok c f \<longleftrightarrow> wf_frame f \<and> length (frame_bytes f) \<le> peer_max_frame (writer c)
     \<and> length (frame_bytes f) \<le> max_frame_size (limits c)"

lemma control_frame_ok:
  assumes "queues_inv c" "is_control f" "wf_frame f"
  shows "frame_ok c f"
proof -
  have "length (frame_bytes f) \<le> 25"
    using control_frame_min_size [OF assms(2)] frame_encoded_len_exact [OF assms(3)] by (auto simp: MIN_FRAME_SIZE_def)
  then show ?thesis using queues_invD(9,11) [OF assms(1)] assms(3) by (simp add: frame_ok_def)
qed

lemma control_pass_ok:
  assumes inv: "queues_inv c" and r: "control_pass order c = (r, c')"
  shows "queues_inv c' \<and> r \<noteq> Panic \<and> (\<forall>f. r = Done (Some f) \<longrightarrow> is_control f \<and> wf_frame f)"
proof (cases "control (writer c)")
  case (Cons f fs)
  have "queues_inv (on_queues (\<lambda>q. q\<lparr>control := fs\<rparr>) c)"
    using inv Cons by (simp add: queues_inv_def control_ok_def ready_ok_def cong: option.case_cong)
  moreover have "is_control f" "wf_frame f" using queues_invD(2) [OF inv] Cons by (auto simp: control_ok_def)
  ultimately show ?thesis using r Cons by (auto simp: control_pass_def intro: queues_inv_control_done)
next
  case Nil
  have w: "rw_inv (c_window c)" by (rule queues_invD(8) [OF inv])
  show ?thesis
  proof (cases "needs_update (c_window c)")
    case True
    have "wf_varint (VarInt (next_limit (c_window c)))" using from_u64_wf [OF next_limit_in_range] by auto
    then show ?thesis
      using r Nil rw_update_Some [OF True] queues_inv_c_window [OF inv rw_inv_update [OF w]]
      by (auto simp: control_pass_def intro: queues_inv_control_done)
  next
    case False
    obtain r1 c1 where f: "find_update (order (receive_windows (writer c))) c = (r1, c1)" by (metis surj_pair)
    show ?thesis
      using r Nil rw_update_None [OF False] find_update_ok [OF inv f] f
      by (auto simp: control_pass_def intro: queues_inv_control_done split: run.splits option.splits)
  qed
qed

lemma close_pass_ok:
  assumes inv: "queues_inv c" and r: "close_pass c = (p, c')"
  shows "queues_inv c'" "p \<noteq> Crash" "p = Return (Some f) \<Longrightarrow> frame_ok c f"
proof -
  show "p \<noteq> Crash" using r by (auto simp: close_pass_def split: prod.splits)
  have cf: "control_ok (limits c) (writer c)" by (rule queues_invD(2) [OF inv])
  then have "control_ok (limits c) ((writer c)\<lparr>close_frame := None\<rparr>)" by (simp add: control_ok_def)
  then have "queues_inv (on_queues (\<lambda>_. (writer c)\<lparr>close_frame := None\<rparr>) c)"
    using inv by (simp add: queues_inv_def ready_ok_def)
  moreover have "on_queues (\<lambda>_. writer c) c = c" by (simp add: on_queues_def)
  ultimately show "queues_inv c'"
    using r inv by (auto simp: close_pass_def take_close_frame_def split: option.splits)
  assume "p = Return (Some f)"
  then obtain g where g: "close_frame (writer c) = Some g" "f = truncate_close (peer_max_frame (writer c)) g"
    using r by (auto simp: close_pass_def take_close_frame_def split: option.splits)
  then obtain e s where cc: "g = ConnectionClose e s" "wf_frame g" "length (frame_bytes g) \<le> max_frame_size (limits c)"
    using cf by (auto simp: control_ok_def)
  show "frame_ok c f"
    using truncate_close_ok [of e s, OF _ queues_invD(9) [OF inv]] cc unfolding frame_ok_def g(2) by (meson order.trans)
qed

lemma data_pass_ok:
  assumes inv: "queues_inv c" and r: "data_pass S c = (r, c')"
  shows "queues_inv c' \<and> r \<noteq> Panic \<and> (\<forall>f. r = Done (Some f) \<longrightarrow> frame_ok c f)"
proof (cases rule: data_pass_cases [OF inv, of S])
  case 1
  then show ?thesis using r inv by simp
next
  case (2 as sid bs chunk rest st count)
  let ?d = "dispatch S sid chunk rest count (with_ready (bs @ as) c)"
  have ok: "out_chunk_ok (limits c) sid chunk" "sid \<le> varint_MAX" "max_frame_size (limits c) < 2 ^ 32"
    using queues_invD(3) [OF inv 2(4)] queues_invD(4) [OF inv 2(5)] queues_invD(12) [OF inv]
    by (auto simp: stream_queue_ok_def)
  then have len: "length (out_payload chunk) < 2 ^ 32" by (simp add: out_chunk_ok_def sized_bytes_def)
  let ?f = "Stream (out_stream_id chunk) (out_fin chunk \<and> drop count (out_payload chunk) = []) (take count (out_payload chunk))"
  have "length (frame_bytes ?f) \<le> length (frame_bytes (Stream (out_stream_id chunk) (out_fin chunk) (out_payload chunk)))"
    using len by (intro stream_frame_mono) auto
  then have "length (frame_bytes ?f) \<le> max_frame_size (limits c)"
    using ok(1) by (simp add: out_chunk_ok_def del: frame_bytes.simps)
  moreover have "wf_frame ?f" using ok(1,2) len by (simp add: out_chunk_ok_def wf_varint_def)
  ultimately have "frame_ok c (fst ?d)"
    using count_bounds(4) [OF inv 2(5,8)] by (simp add: frame_ok_def dispatch_frame(1) del: frame_bytes.simps wf_frame.simps)
  moreover have "queues_inv (snd ?d)" by (rule dispatch_inv [OF inv 2(1,4,5,8)])
  ultimately show ?thesis using r 2(9) by (auto simp: case_prod_beta)
qed

section \<open>What a returned frame means for the queues\<close>

fun payload_on :: "frame \<Rightarrow> u64 \<Rightarrow> bytes" where
  "payload_on (Stream i fin p) sid = (if sid = into_inner i then p else [])"
| "payload_on _ sid = []"

fun fin_on :: "frame \<Rightarrow> u64 \<Rightarrow> bool" where
  "fin_on (Stream i fin p) sid \<longleftrightarrow> fin \<and> sid = into_inner i"
| "fin_on _ sid \<longleftrightarrow> False"

fun data_len :: "frame \<Rightarrow> nat" where
  "data_len (Stream i fin p) = length p"
| "data_len _ = 0"

definition fin_queued :: "'s connection \<Rightarrow> u64 \<Rightarrow> bool" where
  "fin_queued c sid \<longleftrightarrow> list_ex out_fin (queue_of sid (writer c))"

text \<open>A frame takes the next bytes of its stream from the queue, in order, and FIN goes with the last of them.\<close>

definition emits :: "'s connection \<Rightarrow> frame \<Rightarrow> 's connection \<Rightarrow> bool" where
  "emits c f c' \<longleftrightarrow>
     (\<forall>sid. queued_bytes c sid = payload_on f sid @ queued_bytes c' sid
        \<and> (fin_queued c sid \<longleftrightarrow> fin_on f sid \<or> fin_queued c' sid)
        \<and> (fin_on f sid \<longrightarrow> queue_of sid (writer c') = []))
     \<and> unat (w_sent (writer c')) = unat (w_sent (writer c)) + data_len f
     \<and> (\<forall>sid st. objects c sid = Some st \<longrightarrow>
          (\<exists>st'. objects c' sid = Some st' \<and> unat (s_sent st') = unat (s_sent st) + length (payload_on f sid)))"

text \<open>A pass that touches neither the data queues nor the sent totals.\<close>

definition quiet :: "'s connection \<Rightarrow> 's connection \<Rightarrow> bool" where
  "quiet c c' \<longleftrightarrow> by_stream (writer c') = by_stream (writer c) \<and> w_sent (writer c') = w_sent (writer c)
     \<and> peer_max_frame (writer c') = peer_max_frame (writer c) \<and> limits c' = limits c
     \<and> (\<forall>sid. map_option s_sent (objects c' sid) = map_option s_sent (objects c sid))"

lemma quiet_refl [simp]: "quiet c c"
  by (simp add: quiet_def)

lemma quiet_trans [trans]: "quiet a b \<Longrightarrow> quiet b c \<Longrightarrow> quiet a c"
  by (simp add: quiet_def)

lemma quiet_views:
  assumes "quiet c c'"
  shows "queue_of sid (writer c') = queue_of sid (writer c)" "queued_bytes c' sid = queued_bytes c sid"
    "fin_queued c' sid = fin_queued c sid"
  using assms by (simp_all add: quiet_def queue_of_def queued_bytes_def fin_queued_def)

lemma quiet_frame_ok: "quiet c c' \<Longrightarrow> frame_ok c' f = frame_ok c f"
  by (simp add: quiet_def frame_ok_def)

lemma quiet_emits:
  assumes "quiet c c'" "payload_on f = (\<lambda>_. [])" "fin_on f = (\<lambda>_. False)" "data_len f = 0"
  shows "emits c f c'"
proof -
  have "\<exists>st'. objects c' sid = Some st' \<and> unat (s_sent st') = unat (s_sent st)" if "objects c sid = Some st" for sid st
    using assms(1) that unfolding quiet_def by (metis map_option_eq_Some option.simps(9))
  then show ?thesis using assms quiet_views [OF assms(1)] by (auto simp: emits_def quiet_def)
qed

lemma quiet_emits_trans: "quiet a b \<Longrightarrow> emits b f c \<Longrightarrow> emits a f c"
proof -
  assume q: "quiet a b" and e: "emits b f c"
  have "\<exists>st'. objects b sid = Some st' \<and> s_sent st' = s_sent st" if "objects a sid = Some st" for sid st
    using q that unfolding quiet_def by (metis map_option_eq_Some option.simps(9))
  then show ?thesis using e quiet_views [OF q] q unfolding emits_def quiet_def by metis
qed

lemma control_silent:
  assumes "is_control f \<or> (\<exists>e r. f = ConnectionClose e r)"
  shows "payload_on f = (\<lambda>_. [])" "fin_on f = (\<lambda>_. False)" "data_len f = 0"
  using assms by (cases f; auto)+

lemma control_emits:
  "quiet c c' \<Longrightarrow> is_control f \<or> (\<exists>e r. f = ConnectionClose e r) \<Longrightarrow> emits c f c'"
  by (intro quiet_emits control_silent)

lemma find_update_quiet: "quiet c (snd (find_update ids c))"
proof (induction ids arbitrary: c)
  case (Cons sid ids)
  have q: "quiet c (on_stream sid (\<lambda>st. st\<lparr>s_window := w\<rparr>) c)" for w
    by (simp add: quiet_def option.map_comp o_def)
  show ?case
    by (auto simp: q Cons split: option.split prod.split run.split sum.split intro: quiet_trans [OF q Cons])
qed simp

lemma control_pass_quiet:
  assumes "control_pass order c = (r, c')"
  shows "quiet c c'"
proof -
  have q: "quiet a (control_done a)" "quiet a (a\<lparr>c_window := w\<rparr>)" "quiet a (on_queues (\<lambda>q. q\<lparr>control := fs\<rparr>) a)"
    for a :: "'a connection" and w fs
    by (simp_all add: quiet_def control_done_def)
  have f: "quiet c c2" if "find_update ids (c\<lparr>c_window := w\<rparr>) = (r2, c2)" for ids w r2 c2
    using quiet_trans [OF q(2) find_update_quiet [of "c\<lparr>c_window := w\<rparr>" ids]] that by simp
  show ?thesis
    using assms q f by (auto simp: control_pass_def split: list.splits prod.splits run.splits option.splits
        intro: quiet_trans [OF q(3) q(1)] quiet_trans [OF q(2) q(1)] quiet_trans [OF f q(1)])
qed

lemma close_pass_quiet:
  assumes "close_pass c = (p, c')"
  shows "quiet c c'"
  using assms by (auto simp: close_pass_def take_close_frame_def quiet_def split: option.splits)

lemma queues_close_frame:
  assumes "queues_inv c" "close_pass c = (Return (Some f), c')"
  shows "\<exists>e r. f = ConnectionClose e r"
proof -
  obtain g where g: "close_frame (writer c) = Some g" "f = truncate_close (peer_max_frame (writer c)) g"
    using assms(2) by (auto simp: close_pass_def take_close_frame_def split: option.splits)
  then obtain e r where "g = ConnectionClose e r" using queues_invD(2) [OF assms(1)] by (auto simp: control_ok_def)
  then show ?thesis using g by (auto simp: truncate_close_def Let_def)
qed

lemma data_pass_emits:
  assumes inv: "queues_inv c" and r: "data_pass S c = (Done (Some f), c')"
  shows "emits c f c'"
proof (cases rule: data_pass_cases [OF inv, of S])
  case 1
  then show ?thesis using r by simp
next
  case (2 as sid bs chunk rest st count)
  let ?d = "dispatch S sid chunk rest count (with_ready (bs @ as) c)"
  have f: "f = fst ?d" "c' = snd ?d" using r 2(9) by (simp_all add: case_prod_beta)
  have ok: "stream_queue_ok (limits c) sid (Some st) (chunk # rest)" using queues_invD(3) [OF inv 2(4)] 2(5) by simp
  then have ch: "out_state chunk = sid" "out_stream_id chunk = VarInt sid"
    by (simp_all add: stream_queue_ok_def out_chunk_ok_def)
  note b = count_bounds [OF inv 2(5,8)]
  let ?fin = "out_fin chunk \<and> drop count (out_payload chunk) = []"
  have fr: "f = Stream (VarInt sid) ?fin (take count (out_payload chunk))" using f ch by (simp add: dispatch_frame(1))
  have q: "queue_of i (writer c') = (if i = sid then queue_after chunk rest count else queue_of i (writer c))" for i
    unfolding f by (simp add: dispatch_writer Let_def queue_of_def AList.delete_conv' AList.update_conv')
  have rest: "out_fin chunk \<Longrightarrow> rest = []" using ok by (auto simp: stream_queue_ok_def split: if_splits)
  have fin: "fin_queued c i \<longleftrightarrow> fin_on f i \<or> fin_queued c' i" "fin_on f i \<longrightarrow> queue_of i (writer c') = []" for i
    using q [of i] rest 2(4) by (auto simp: fin_queued_def fr queue_after_def queue_of_def)
  obtain fp bp where objs: "objects c' = (objects c)(sid \<mapsto> st\<lparr>s_sent := s_sent st + as_u64 count,
       send_dispatched := send_dispatched st \<or> ?fin, outbound_stream_frames := fp, outbound_stream_bytes := bp\<rparr>)"
    using dispatch_objects [of "with_ready (bs @ as) c" chunk st S sid rest count] 2(5) ch f by auto
  have bytes: "queued_bytes c i = payload_on f i @ queued_bytes c' i" for i
    using dispatch_bytes(1) [OF 2(4), where count = count and S = S and xs = "bs @ as"]
      dispatch_bytes(2) [OF 2(4), where i = i and count = count and S = S and xs = "bs @ as"] fr
    by (auto simp: f(2))
  have "w_sent (writer c') = w_sent (writer c) + as_u64 count"
    unfolding f by (simp add: dispatch_writer Let_def)
  then have "unat (w_sent (writer c')) = unat (w_sent (writer c)) + data_len f"
    using add_count_le(1) [OF b(2)] b(1) fr by simp
  then show ?thesis
    using bytes fin objs add_count_le(1) [OF b(3)] b(1) 2(5) by (auto simp: emits_def fr)
qed

text \<open>The outcomes of a pass and of the whole loop.\<close>

definition pass_ok :: "'s connection \<Rightarrow> pass \<Rightarrow> 's connection \<Rightarrow> bool" where
  "pass_ok c p c' \<longleftrightarrow> queues_inv c' \<and> p \<noteq> Crash
     \<and> (case p of Return (Some f) \<Rightarrow> frame_ok c f \<and> emits c f c' | _ \<Rightarrow> quiet c c')"

lemma pass_ok_after_quiet:
  assumes "quiet c c1" "pass_ok c1 p c'"
  shows "pass_ok c p c'"
  using assms quiet_trans [OF assms(1)] quiet_emits_trans [OF assms(1)] quiet_frame_ok [OF assms(1)]
  by (auto simp: pass_ok_def split: pass.splits option.splits)

lemma close_pass_pass_ok: "queues_inv c \<Longrightarrow> close_pass c = (p, c') \<Longrightarrow> pass_ok c p c'"
  using close_pass_ok [of c p c'] close_pass_quiet [of c p c'] queues_close_frame [of c _ c']
  by (auto simp: pass_ok_def split: pass.split option.split intro: control_emits)

lemma next_pass_ok:
  assumes inv: "queues_inv c" and r: "next_pass order S c = (p, c')"
  shows "pass_ok c p c'"
proof (cases "closing (writer c) \<and> \<not> graceful_close (writer c)")
  case True
  then show ?thesis using r close_pass_pass_ok [OF inv] by (simp add: next_pass_def)
next
  case open': False
  obtain r1 c1 where c1: "(if control_turn (writer c) \<or> is_urgent (control (writer c)) then control_pass order c
      else (Done None, c)) = (r1, c1)"
    by (metis surj_pair)
  have ok1: "queues_inv c1" "r1 \<noteq> Panic" "quiet c c1"
    "\<And>f. r1 = Done (Some f) \<Longrightarrow> is_control f \<and> wf_frame f"
    using c1 inv control_pass_ok [OF inv, of order r1 c1] control_pass_quiet [of order c r1 c1]
    by (auto split: if_splits)
  show ?thesis
  proof (cases "r1 = Done None")
    case False
    then obtain f where f: "r1 = Done (Some f)" using ok1(2) by (metis run.exhaust option.exhaust)
    then have "p = Return (Some f)" "c' = c1" using r open' c1 by (auto simp: next_pass_def)
    then show ?thesis using ok1 f control_frame_ok [OF inv] control_emits [OF ok1(3)] by (simp add: pass_ok_def)
  next
    case None: True
    obtain r2 c2 where c2: "data_pass S c1 = (r2, c2)" by (metis surj_pair)
    note ok2 = data_pass_ok [OF ok1(1) c2]
    show ?thesis
    proof (cases "r2 = Done None")
      case False
      then obtain f where f: "r2 = Done (Some f)" using ok2 by (metis run.exhaust option.exhaust)
      then have "p = Return (Some f)" "c' = c2" using r open' c1 None c2 by (auto simp: next_pass_def)
      then show ?thesis
        using ok2 f data_pass_emits [OF ok1(1), of S f c2] c2
        by (intro pass_ok_after_quiet [OF ok1(3)]) (auto simp: pass_ok_def)
    next
      case True
      have same: "c2 = c1"
        by (cases rule: data_pass_cases [OF ok1(1), of S]) (use True c2 in \<open>auto split: prod.splits\<close>)
      have e: "next_pass order S c = (if \<not> control_turn (writer c1) then (Again, on_queues (\<lambda>q. q\<lparr>control_turn := True\<rparr>) c1)
               else if closing (writer c1) \<and> by_stream (writer c1) = [] then close_pass c1 else (Wait, c1))"
        using open' c1 None c2 True same by (auto simp: next_pass_def)
      have "queues_inv (on_queues (\<lambda>q. q\<lparr>control_turn := True\<rparr>) c1)"
        using ok1(1) by (simp add: queues_inv_def ready_ok_def control_ok_def cong: option.case_cong)
      moreover have "quiet c (on_queues (\<lambda>q. q\<lparr>control_turn := True\<rparr>) c1)" using ok1(3) by (simp add: quiet_def)
      moreover have "pass_ok c p c'" if "close_pass c1 = (p, c')"
        by (rule pass_ok_after_quiet [OF ok1(3) close_pass_pass_ok [OF ok1(1) that]])
      ultimately show ?thesis using r e ok1 by (auto simp: pass_ok_def split: if_splits)
    qed
  qed
qed

lemma next_frame_ok:
  assumes "queues_inv c" "next_frame order S c = (p, c')"
  shows "pass_ok c p c' \<and> p \<noteq> Again"
  using assms
proof (induction order S c rule: next_frame.induct)
  case (1 order S c)
  obtain p1 c1 where n: "next_pass order S c = (p1, c1)" by (metis surj_pair)
  have ok: "pass_ok c p1 c1" by (rule next_pass_ok [OF 1(2) n])
  show ?case
  proof (cases "p1 = Again")
    case False
    then have "next_frame order S c = (p1, c1)" by (cases p1) (simp_all add: next_frame.simps n)
    then show ?thesis using 1(3) ok False by simp
  next
    case True
    then have e: "next_frame order S c = next_frame order S c1" by (simp add: next_frame.simps [of order S c] n)
    have "queues_inv c1" "quiet c c1" using ok True by (auto simp: pass_ok_def)
    then show ?thesis using 1(1) [OF n [symmetric] True] 1(3) e pass_ok_after_quiet by metis
  qed
qed

section \<open>Waiting means there is nothing to do\<close>

definition stream_credit_due :: "'s connection \<Rightarrow> u64 \<Rightarrow> bool" where
  "stream_credit_due c sid \<longleftrightarrow>
     (case objects c sid of None \<Rightarrow> False
      | Some st \<Rightarrow> \<not> recv_terminal st \<and> \<not> recv_discarded st \<and> needs_update (s_window st))"

definition idle :: "'s connection \<Rightarrow> bool" where
  "idle c \<longleftrightarrow> control (writer c) = [] \<and> \<not> needs_update (c_window c)
     \<and> (\<forall>sid\<in>receive_windows (writer c). \<not> stream_credit_due c sid) \<and> (\<forall>sid. \<not> can_send c sid)"

lemma on_stream_same_window: "objects c sid = Some st \<Longrightarrow> on_stream sid (\<lambda>st'. st'\<lparr>s_window := s_window st\<rparr>) c = c"
  by (simp add: on_stream_def fun_upd_idem)

lemma find_update_None:
  "find_update ids c = (Done None, c') \<Longrightarrow> c' = c \<and> (\<forall>sid\<in>set ids. \<not> stream_credit_due c sid)"
proof (induction ids arbitrary: c)
  case (Cons sid ids)
  show ?case
  proof (cases "stream_credit_due c sid")
    case True
    then show ?thesis using Cons.prems
      by (auto simp: stream_credit_due_def rw_update_Some split: option.splits sum.splits)
  next
    case False
    have "find_update (sid # ids) c = find_update ids c"
    proof (cases "objects c sid")
      case (Some st)
      then show ?thesis using False
        by (auto simp: stream_credit_due_def rw_update_None on_stream_same_window)
    qed simp
    then show ?thesis using Cons False by simp
  qed
qed simp

lemma control_pass_idle:
  assumes "control_pass order c = (Done None, c')"
  shows "c' = c" "control (writer c) = []" "\<not> needs_update (c_window c)"
    "\<And>sid. sid \<in> set (order (receive_windows (writer c))) \<Longrightarrow> \<not> stream_credit_due c sid"
proof -
  have n: "control (writer c) = []" "\<not> needs_update (c_window c)"
    using assms rw_update_Some [of "c_window c"]
    by (auto simp: control_pass_def split: list.splits)
  moreover have f: "find_update (order (receive_windows (writer c))) c = (Done None, c')"
    using assms n rw_update_None [OF n(2)]
    by (auto simp: control_pass_def split: list.splits prod.splits run.splits option.splits)
  ultimately show "c' = c" "control (writer c) = []" "\<not> needs_update (c_window c)"
    "\<And>sid. sid \<in> set (order (receive_windows (writer c))) \<Longrightarrow> \<not> stream_credit_due c sid"
    using find_update_None [OF f] by auto
qed

lemma can_send_ready:
  assumes "queues_inv c" "can_send c sid"
  shows "sid \<in> set (ready (writer c))"
proof -
  obtain chs where "map_of (by_stream (writer c)) sid = Some chs"
    using assms(2) by (auto simp: can_send_def queue_of_def split: option.splits list.splits)
  then show ?thesis using queues_invD(1) [OF assms(1)] map_of_SomeD by (force simp: ready_ok_def)
qed

lemma data_pass_None:
  assumes "queues_inv c" "data_pass S c = (Done None, c')"
  shows "c' = c" "\<not> can_send c sid"
  using data_pass_cases [OF assms(1), of S] assms can_send_ready [OF assms(1)]
  by (metis (no_types, lifting) Pair_inject case_prod_beta option.distinct(1) run.inject)+

lemma next_pass_idle:
  assumes inv: "queues_inv c" and p: "p = Wait \<or> p = Again" and r: "next_pass order S c = (p, c')"
  shows "c' = on_queues (\<lambda>q. q\<lparr>control_turn := True\<rparr>) c" "\<not> can_send c sid"
    "p = Again \<or> control_pass order c = (Done None, c) \<and> \<not> (closing (writer c) \<and> by_stream (writer c) = [])"
proof -
  obtain c1 c2 where c1: "(if control_turn (writer c) \<or> is_urgent (control (writer c)) then control_pass order c
      else (Done None, c)) = (Done None, c1)" and c2: "data_pass S c1 = (Done None, c2)"
    and rest: "p = Again \<and> \<not> control_turn (writer c2) \<and> c' = on_queues (\<lambda>q. q\<lparr>control_turn := True\<rparr>) c2
      \<or> p = Wait \<and> control_turn (writer c2) \<and> \<not> (closing (writer c2) \<and> by_stream (writer c2) = []) \<and> c' = c2"
    using r p by (auto simp: next_pass_def close_pass_def split: if_splits prod.splits run.splits option.splits)
  have "c1 = c" using c1 control_pass_idle(1) by (auto split: if_splits)
  moreover have "c2 = c1" using data_pass_None(1) [OF _ c2] inv calculation by simp
  ultimately have same: "c1 = c" "c2 = c" by simp_all
  show "c' = on_queues (\<lambda>q. q\<lparr>control_turn := True\<rparr>) c"
    using rest same by (auto simp: on_queues_def)
  show "\<not> can_send c sid" using data_pass_None(2) [OF inv] c2 same by blast
  show "p = Again \<or> control_pass order c = (Done None, c) \<and> \<not> (closing (writer c) \<and> by_stream (writer c) = [])"
    using rest same c1 by auto
qed

lemma control_turn_set [simp]:
  "control_turn (writer c) \<Longrightarrow> on_queues (\<lambda>q. q\<lparr>control_turn := True\<rparr>) c = c"
  by (simp add: on_queues_def)

lemma idle_control_turn:
  "idle (on_queues (\<lambda>q. q\<lparr>control_turn := b\<rparr>) c) = idle c"
  by (simp add: idle_def stream_credit_due_def can_send_def queue_of_def split: option.splits list.splits)

lemma next_frame_two:
  assumes inv: "queues_inv c"
  shows "next_frame order S c = (case next_pass order S c of (Again, c') \<Rightarrow> next_pass order S c' | r \<Rightarrow> r)"
proof -
  obtain p1 c1 where n: "next_pass order S c = (p1, c1)" by (metis surj_pair)
  show ?thesis
  proof (cases "p1 = Again")
    case False
    then show ?thesis by (cases p1) (simp_all add: next_frame.simps n)
  next
    case True
    obtain p2 c2 where n2: "next_pass order S c1 = (p2, c2)" by (metis surj_pair)
    have "control_turn (writer c1)" using next_pass_Again [of order S c c1] n True by simp
    then have "p2 \<noteq> Again" using next_pass_Again [of order S c1 c2] n2 by auto
    then show ?thesis
      using True by (cases p2) (simp_all add: next_frame.simps [of order S c] next_frame.simps [of order S c1] n n2)
  qed
qed

lemma find_update_idle:
  "\<forall>sid\<in>set ids. \<not> stream_credit_due c sid \<Longrightarrow> find_update ids c = (Done None, c)"
proof (induction ids)
  case (Cons sid ids)
  then show ?case
    by (cases "objects c sid") (auto simp: stream_credit_due_def rw_update_None on_stream_same_window)
qed simp

lemma idle_passes:
  assumes inv: "queues_inv c" and i: "idle c" and order: "set (order (receive_windows (writer c))) = receive_windows (writer c)"
  shows "control_pass order c = (Done None, c)" "data_pass S c = (Done None, c)"
proof -
  have "find_update (order (receive_windows (writer c))) c = (Done None, c)"
    using i order by (intro find_update_idle) (auto simp: idle_def)
  then show "control_pass order c = (Done None, c)"
    using i by (simp add: control_pass_def idle_def rw_update_None)
  show "data_pass S c = (Done None, c)"
    by (cases rule: data_pass_cases [OF inv, of S]) (use i in \<open>auto simp: idle_def\<close>)
qed

lemma next_frame_wait:
  assumes inv: "queues_inv c" and order: "set (order (receive_windows (writer c))) = receive_windows (writer c)"
    and r: "next_frame order S c = (Wait, c')"
  shows "idle c" "c' = on_queues (\<lambda>q. q\<lparr>control_turn := True\<rparr>) c" "\<not> (closing (writer c) \<and> by_stream (writer c) = [])"
proof -
  let ?t = "\<lambda>c. on_queues (\<lambda>q. q\<lparr>control_turn := True\<rparr>) c"
  have main: "idle c1 \<and> c' = ?t c1 \<and> \<not> (closing (writer c1) \<and> by_stream (writer c1) = [])"
    if "queues_inv c1" "next_pass order S c1 = (Wait, c')" "receive_windows (writer c1) = receive_windows (writer c)" for c1
  proof -
    note w = next_pass_idle [OF that(1) _ that(2), simplified]
    show ?thesis using w control_pass_idle [of order c1 c1] order that(3) by (auto simp: idle_def)
  qed
  obtain p1 c1 where n: "next_pass order S c = (p1, c1)" by (metis surj_pair)
  show "idle c" "c' = ?t c" "\<not> (closing (writer c) \<and> by_stream (writer c) = [])"
  proof -
    consider "p1 = Again" | "p1 = Wait" "c1 = c'" using r n by (cases p1) (auto simp: next_frame_two [OF inv])
    then have "idle c \<and> c' = ?t c \<and> \<not> (closing (writer c) \<and> by_stream (writer c) = [])"
    proof cases
      case 1
      have c1: "c1 = ?t c" by (rule next_pass_idle(1) [OF inv _ n]) (simp add: 1)
      have "queues_inv c1" using next_pass_ok [OF inv n] by (simp add: pass_ok_def)
      moreover have "next_pass order S c1 = (Wait, c')" using r n 1 by (simp add: next_frame_two [OF inv])
      ultimately have "idle c1 \<and> c' = ?t c1 \<and> \<not> (closing (writer c1) \<and> by_stream (writer c1) = [])"
        using main [of c1] c1 by simp
      then show ?thesis using c1 by (simp add: idle_control_turn)
    next
      case 2
      then show ?thesis using main [OF inv] n by simp
    qed
    then show "idle c" "c' = ?t c" "\<not> (closing (writer c) \<and> by_stream (writer c) = [])" by auto
  qed
qed

lemma idle_waits:
  assumes inv: "queues_inv c" and order: "set (order (receive_windows (writer c))) = receive_windows (writer c)"
    and i: "idle c" and o: "\<not> closing (writer c)"
  shows "fst (next_frame order S c) = Wait"
proof -
  let ?c = "on_queues (\<lambda>q. q\<lparr>control_turn := True\<rparr>) c"
  have w: "next_pass order S a = (Wait, a)"
    if "queues_inv a" "idle a" "\<not> closing (writer a)" "control_turn (writer a)"
      "set (order (receive_windows (writer a))) = receive_windows (writer a)" for a
    using idle_passes(1) [where order = order, OF that(1,2,5)] idle_passes(2) [where order = order and S = S, OF that(1,2,5)] that by (simp add: next_pass_def)
  show ?thesis
  proof (cases "control_turn (writer c)")
    case True
    then show ?thesis using w [OF inv i o True order] by (simp add: next_frame_two [OF inv])
  next
    case False
    have "next_pass order S c = (Again, ?c)"
      using idle_passes(1) [where order = order, OF inv i order] idle_passes(2) [where order = order and S = S, OF inv i order] False i o by (simp add: next_pass_def idle_def)
    moreover have "queues_inv ?c" using next_pass_ok [OF inv calculation] by (simp add: pass_ok_def)
    then have "next_pass order S ?c = (Wait, ?c)"
      using i o order by (intro w) (simp_all add: idle_control_turn)
    ultimately show ?thesis by (simp add: next_frame_two [OF inv])
  qed
qed

end
