(* ===== verification/Inbound.thy ===== *)
theory Inbound
  imports Conn_State
begin

text \<open>
  The receive side of a stream in \<^verbatim>\<open>muxtls/src/connection.rs\<close>: the chunks of received bytes with the
  permits they hold (\<open>InboundChunk\<close>), the coalescing of small frames into pages (\<open>push_inbound\<close>), the
  terminal transitions and \<open>read_chunk\<close>.
\<close>

section \<open>Model\<close>

text \<open>\<open>permit.split(count)\<close>, dropped at once: the permits given back and the permit left.\<close>

definition permit_split :: "usize \<Rightarrow> usize option \<Rightarrow> usize \<times> usize option" where
  "permit_split count p =
     (case p of None \<Rightarrow> (0, None)
      | Some n \<Rightarrow> if count \<le> n then (count, Some (n - count)) else (0, Some n))"

definition release_inbound :: "'s sem_ops \<Rightarrow> u64 \<Rightarrow> usize \<Rightarrow> usize \<Rightarrow> 's connection \<Rightarrow> 's connection" where
  "release_inbound S sid conn_n stream_n c =
     on_stream sid (\<lambda>st. st\<lparr>inbound_stream_bytes := sem_release S stream_n (inbound_stream_bytes st)\<rparr>)
       (c\<lparr>inbound_conn_bytes := sem_release S conn_n (inbound_conn_bytes c)\<rparr>)"

definition chunk_consume ::
  "'s sem_ops \<Rightarrow> u64 \<Rightarrow> usize \<Rightarrow> inbound_chunk \<Rightarrow> 's connection \<Rightarrow> inbound_chunk \<times> 's connection" where
  "chunk_consume S sid count ch c =
     (let (conn_n, conn_p) = permit_split count (in_conn_permit ch);
          (stream_n, stream_p) = permit_split count (in_stream_permit ch);
          c = release_inbound S sid conn_n stream_n c;
          c = c\<lparr>c_window := snd (rw_consume count (c_window c))\<rparr>;
          c = on_stream sid (\<lambda>st. st\<lparr>s_window := snd (rw_consume count (s_window st))\<rparr>) c
      in (ch\<lparr>in_conn_permit := conn_p, in_stream_permit := stream_p\<rparr>, c))"

text \<open>\<open>Drop for InboundChunk\<close>, then the drop of the permits that are left in its fields.\<close>

definition drop_chunk :: "'s sem_ops \<Rightarrow> u64 \<Rightarrow> inbound_chunk \<Rightarrow> 's connection \<Rightarrow> 's connection" where
  "drop_chunk S sid ch c =
     (let (ch, c) = chunk_consume S sid (length (rb_deref (data ch))) ch c
      in release_inbound S sid (held (in_conn_permit ch)) (held (in_stream_permit ch)) c)"

fun drop_chunks :: "'s sem_ops \<Rightarrow> u64 \<Rightarrow> inbound_chunk list \<Rightarrow> 's connection \<Rightarrow> 's connection" where
  "drop_chunks S sid [] c = c"
| "drop_chunks S sid (ch # chs) c = drop_chunks S sid chs (drop_chunk S sid ch c)"

definition chunk_into_bytes ::
  "'s sem_ops \<Rightarrow> u64 \<Rightarrow> inbound_chunk \<Rightarrow> 's connection \<Rightarrow> bytes \<times> 's connection" where
  "chunk_into_bytes S sid ch c =
     (let count = length (rb_deref (data ch));
          (ch, c) = chunk_consume S sid count ch c;
          taken = data ch;
          c = drop_chunk S sid (ch\<lparr>data := rb_default\<rparr>) c
      in (rb_into_bytes taken, c))"

definition on_inbound :: "u64 \<Rightarrow> (inbound_state \<Rightarrow> inbound_state) \<Rightarrow> 's connection \<Rightarrow> 's connection" where
  "on_inbound sid f c = on_stream sid (\<lambda>st. st\<lparr>inbound := f (inbound st)\<rparr>) c"

text \<open>The two \<open>try_acquire_many_owned\<close> calls. An empty payload takes no permit.\<close>

definition acquire_inbound ::
  "'s sem_ops \<Rightarrow> u64 \<Rightarrow> usize \<Rightarrow> ('s connection, fault, usize option \<times> usize option) action" where
  "acquire_inbound S sid payload_len c =
     (if payload_len = 0 then (Inr (None, None), c)
      else case sem_try_acquire S (as_u32 payload_len) (inbound_conn_bytes c) of
        (Granted, conn_sem) \<Rightarrow>
          (let c = c\<lparr>inbound_conn_bytes := conn_sem\<rparr> in
           case objects c sid of
             None \<Rightarrow> (Inl Panicked, c)
           | Some st \<Rightarrow>
               (case sem_try_acquire S (as_u32 payload_len) (inbound_stream_bytes st) of
                  (Granted, stream_sem) \<Rightarrow>
                    (Inr (Some (as_u32 payload_len), Some (as_u32 payload_len)),
                     on_stream sid (\<lambda>st. st\<lparr>inbound_stream_bytes := stream_sem\<rparr>) c)
                | (_, stream_sem) \<Rightarrow>
                    (Inl (Fail (LimitExceeded ''maximum buffered inbound stream bytes reached'')),
                     on_stream sid (\<lambda>st. st\<lparr>inbound_stream_bytes := stream_sem\<rparr>)
                       (c\<lparr>inbound_conn_bytes := sem_release S (as_u32 payload_len) (inbound_conn_bytes c)\<rparr>))))
      | (_, conn_sem) \<Rightarrow>
          (Inl (Fail (LimitExceeded ''maximum buffered inbound connection bytes reached'')),
           c\<lparr>inbound_conn_bytes := conn_sem\<rparr>))"

text \<open>The page of the last chunk, if it is one and has room for \<open>n\<close> more bytes.\<close>

definition open_page :: "usize \<Rightarrow> usize \<Rightarrow> inbound_chunk list \<Rightarrow> bytes option" where
  "open_page page_size n cs =
     (if cs = [] then None
      else case data (last cs) of
        Page page \<Rightarrow> if length page + n \<le> page_size then Some page else None
      | Shared _ \<Rightarrow> None)"

text \<open>Appending a payload to the queue: extend the last page (merging the permits; \<open>None\<close> stands for the
  two \<open>expect\<close> panics), start a new page, or keep a large payload as it is.\<close>

definition store_chunk ::
  "usize \<Rightarrow> bytes \<Rightarrow> usize option \<Rightarrow> usize option \<Rightarrow> inbound_chunk list \<Rightarrow> inbound_chunk list option" where
  "store_chunk page_size payload conn_permit stream_permit cs =
     (case open_page page_size (length payload) cs of
        Some page \<Rightarrow>
          (case (in_conn_permit (last cs), conn_permit, in_stream_permit (last cs), stream_permit) of
             (Some a, Some b, Some d, Some e) \<Rightarrow>
               Some (butlast cs @ [(last cs)\<lparr>data := Page (page @ payload),
                  in_conn_permit := Some (a + b), in_stream_permit := Some (d + e)\<rparr>])
           | _ \<Rightarrow> None)
      | None \<Rightarrow>
          Some (cs @ [\<lparr>data = (if length payload < usize_div_ceil page_size 2 then Page payload else Shared payload),
             in_conn_permit = conn_permit, in_stream_permit = stream_permit\<rparr>]))"

text \<open>\<open>push_inbound\<close> after its permits were acquired, under the lock of \<open>inbound\<close>.\<close>

definition store_inbound ::
  "'s sem_ops \<Rightarrow> u64 \<Rightarrow> bytes \<Rightarrow> usize option \<Rightarrow> usize option \<Rightarrow> ('s connection, fault, unit) action" where
  "store_inbound S sid payload conn_permit stream_permit c =
     (case objects c sid of
        None \<Rightarrow> (Inl Panicked, c)
      | Some st \<Rightarrow>
          if recv_discarded st
          then (let c = release_inbound S sid (held conn_permit) (held stream_permit) c
                in (Inr (), c\<lparr>c_window := snd (rw_consume (length payload) (c_window c))\<rparr>))
          else if fin_received (inbound st)
          then (Inl (Fail (Protocol ''received stream data after FIN'')),
                release_inbound S sid (held conn_permit) (held stream_permit) c)
          else let page_size = min (max_inbound_stream_bytes (limits c)) (16 * 1024) in
            case store_chunk page_size payload conn_permit stream_permit (chunks (inbound st)) of
              None \<Rightarrow> (Inl Panicked, c)
            | Some cs \<Rightarrow> (Inr (), on_inbound sid (\<lambda>i. i\<lparr>chunks := cs\<rparr>) c))"

definition push_inbound :: "'s sem_ops \<Rightarrow> u64 \<Rightarrow> bytes \<Rightarrow> ('s connection, fault, unit) action" where
  "push_inbound S sid payload c =
     (case objects c sid of
        None \<Rightarrow> (Inl Panicked, c)
      | Some st \<Rightarrow>
          if recv_discarded st
          then (Inr (), c\<lparr>c_window := snd (rw_consume (length payload) (c_window c))\<rparr>)
          else and_then (acquire_inbound S sid (length payload))
            (\<lambda>(conn_permit, stream_permit). store_inbound S sid payload conn_permit stream_permit) c)"

definition mark_reset :: "'s sem_ops \<Rightarrow> u64 \<Rightarrow> u64 \<Rightarrow> 's connection \<Rightarrow> 's connection" where
  "mark_reset S sid error_code c =
     (case objects c sid of
        None \<Rightarrow> c
      | Some st \<Rightarrow>
          drop_chunks S sid (chunks (inbound st))
            (on_inbound sid (\<lambda>i. i\<lparr>reset_error := Some error_code, chunks := []\<rparr>) c))"

definition mark_recv_terminal :: "u64 \<Rightarrow> 's connection \<Rightarrow> 's connection" where
  "mark_recv_terminal sid c =
     on_stream sid (\<lambda>st. st\<lparr>inbound := (inbound st)\<lparr>fin_received := True\<rparr>, recv_terminal := True\<rparr>) c"

definition mark_connection_closed :: "'s sem_ops \<Rightarrow> 's stream_state \<Rightarrow> 's stream_state" where
  "mark_connection_closed S st =
     st\<lparr>inbound := (inbound st)\<lparr>connection_closed := True\<rparr>,
        inbound_stream_bytes := sem_close S (inbound_stream_bytes st),
        outbound_stream_bytes := sem_close S (outbound_stream_bytes st),
        outbound_stream_frames := sem_close S (outbound_stream_frames st)\<rparr>"

definition release_open_permit :: "'s sem_ops \<Rightarrow> u64 \<Rightarrow> 's connection \<Rightarrow> 's connection" where
  "release_open_permit S sid c =
     (case objects c sid of
        None \<Rightarrow> c
      | Some st \<Rightarrow>
          on_stream sid (\<lambda>st. st\<lparr>open_permit := None\<rparr>)
            (c\<lparr>open_streams := sem_release S (held (open_permit st)) (open_streams c)\<rparr>))"

definition discard_inbound :: "'s sem_ops \<Rightarrow> u64 \<Rightarrow> 's connection \<Rightarrow> 's connection" where
  "discard_inbound S sid c =
     (case objects c sid of
        None \<Rightarrow> c
      | Some st \<Rightarrow>
          drop_chunks S sid (chunks (inbound st))
            (on_inbound sid (\<lambda>i. i\<lparr>chunks := []\<rparr>) (on_stream sid (\<lambda>st. st\<lparr>recv_discarded := True\<rparr>) c)))"

text \<open>One pass of the loop of \<open>read_chunk\<close>; \<open>Pending\<close> is the wait for a notification, after which the
  loop starts again.\<close>

definition read_chunk :: "u64 \<Rightarrow> 's connection \<Rightarrow> (fault + inbound_chunk option) poll \<times> 's connection" where
  "read_chunk sid c =
     (case objects c sid of
        None \<Rightarrow> (Ready (Inl Panicked), c)
      | Some st \<Rightarrow>
          (case reset_error (inbound st) of
             Some error_code \<Rightarrow> (Ready (Inl (Fail (StreamReset error_code))), c)
           | None \<Rightarrow>
               (case chunks (inbound st) of
                  ch # chs \<Rightarrow> (Ready (Inr (Some ch)), on_inbound sid (\<lambda>i. i\<lparr>chunks := chs\<rparr>) c)
                | [] \<Rightarrow>
                    if fin_received (inbound st) \<or> recv_terminal st
                    then (Ready (Inr None), on_inbound sid (\<lambda>i. i\<lparr>fin_received := True\<rparr>) c)
                    else if connection_closed (inbound st)
                    then (Ready (Inl (Fail ConnectionClosed)), c)
                    else (Pending, c))))"

section \<open>Bytes and chunks\<close>

definition chunk_bytes :: "inbound_chunk list \<Rightarrow> bytes" where
  "chunk_bytes cs = concat (map (\<lambda>ch. rb_deref (data ch)) cs)"

lemma chunk_bytes_simps [simp]:
  "chunk_bytes [] = []"
  "chunk_bytes (ch # cs) = rb_deref (data ch) @ chunk_bytes cs"
  "chunk_bytes (cs @ ds) = chunk_bytes cs @ chunk_bytes ds"
  by (simp_all add: chunk_bytes_def)

text \<open>Whatever the page decisions, the queue's bytes are extended by exactly the payload.\<close>

lemma store_chunk_bytes:
  assumes "store_chunk ps payload cp sp cs = Some cs'"
  shows "chunk_bytes cs' = chunk_bytes cs @ payload"
proof (cases "open_page ps (length payload) cs")
  case None
  then show ?thesis using assms by (auto simp: store_chunk_def)
next
  case (Some page)
  then have ne: "cs \<noteq> []" and pg: "data (last cs) = Page page"
    by (auto simp: open_page_def split: if_splits receive_buffer.splits)
  have cs: "chunk_bytes cs = chunk_bytes (butlast cs) @ page"
    using ne pg by (metis append_butlast_last_id chunk_bytes_simps rb_deref.simps(2) append_Nil2)
  show ?thesis
    using assms Some cs by (auto simp: store_chunk_def split: option.splits)
qed

text \<open>A chunk holds one permit of each budget for every byte.\<close>

definition chunk_ok :: "inbound_chunk \<Rightarrow> bool" where
  "chunk_ok ch \<longleftrightarrow> in_conn_permit ch = Some (length (rb_deref (data ch)))
     \<and> in_stream_permit ch = Some (length (rb_deref (data ch)))"

lemma store_chunk_permits:
  assumes "list_all chunk_ok cs" "n = length payload"
  shows "\<exists>cs'. store_chunk ps payload (Some n) (Some n) cs = Some cs' \<and> list_all chunk_ok cs'"
proof (cases "open_page ps (length payload) cs")
  case None
  then show ?thesis using assms by (simp add: store_chunk_def chunk_ok_def)
next
  case (Some page)
  then have ne: "cs \<noteq> []" and pg: "data (last cs) = Page page"
    by (auto simp: open_page_def split: if_splits receive_buffer.splits)
  have "chunk_ok (last cs)" "list_all chunk_ok (butlast cs)"
    using assms(1) ne by (auto simp: list_all_iff dest: in_set_butlastD)
  then show ?thesis using Some assms(2) pg by (simp add: store_chunk_def chunk_ok_def)
qed

section \<open>Accounting\<close>

text \<open>
  Every received byte is held by exactly one chunk, in a queue or with a reader, and the chunk holds one
  permit of each budget for it. \<open>out sid\<close> is the number of bytes of stream \<open>sid\<close> in chunks that a reader
  has taken from the queue and not consumed yet.
\<close>

definition stream_load :: "'s stream_state \<Rightarrow> nat" where
  "stream_load st = length (chunk_bytes (chunks (inbound st)))"

definition inbound_load :: "(u64 \<Rightarrow> nat) \<Rightarrow> 's connection \<Rightarrow> nat" where
  "inbound_load out c = (\<Sum>sid\<in>dom (objects c). stream_load (the (objects c sid)) + out sid)"

definition stream_account ::
  "('s \<Rightarrow> nat) \<Rightarrow> ('s \<Rightarrow> bool) \<Rightarrow> nat \<Rightarrow> nat \<Rightarrow> 's stream_state \<Rightarrow> bool" where
  "stream_account free waiting out cap st \<longleftrightarrow>
     list_all chunk_ok (chunks (inbound st)) \<and> rw_inv (s_window st) \<and> unat (window (s_window st)) = cap
     \<and> free (inbound_stream_bytes st) + (stream_load st + out) = cap \<and> \<not> waiting (inbound_stream_bytes st)
     \<and> stream_load st + out \<le> buffered (s_window st)"

definition conn_account ::
  "('s \<Rightarrow> nat) \<Rightarrow> ('s \<Rightarrow> bool) \<Rightarrow> nat \<Rightarrow> 's connection \<Rightarrow> bool" where
  "conn_account free waiting load c \<longleftrightarrow>
     rw_inv (c_window c) \<and> unat (window (c_window c)) = max_inbound_connection_bytes (limits c)
     \<and> free (inbound_conn_bytes c) + load = max_inbound_connection_bytes (limits c)
     \<and> \<not> waiting (inbound_conn_bytes c) \<and> load \<le> buffered (c_window c)"

definition inbound_inv ::
  "('s \<Rightarrow> nat) \<Rightarrow> ('s \<Rightarrow> bool) \<Rightarrow> (u64 \<Rightarrow> nat) \<Rightarrow> 's connection \<Rightarrow> bool" where
  "inbound_inv free waiting out c \<longleftrightarrow>
     finite (dom (objects c)) \<and> (\<forall>sid. objects c sid = None \<longrightarrow> out sid = 0)
     \<and> (\<forall>sid st. objects c sid = Some st \<longrightarrow>
          stream_account free waiting (out sid) (max_inbound_stream_bytes (limits c)) st)
     \<and> conn_account free waiting (inbound_load out c) c"

lemma inbound_load_split:
  assumes "finite (dom (objects c))" "objects c sid = Some st"
  shows "inbound_load out c = stream_load st + out sid
    + (\<Sum>i\<in>dom (objects c) - {sid}. stream_load (the (objects c i)) + out i)"
  using assms by (simp add: inbound_load_def sum.remove [of _ sid] domI)

text \<open>The load after one stream changed: only its own share differs.\<close>

lemma inbound_load_update:
  assumes "finite (dom (objects c))" "objects c sid = Some st"
    and "objects c' = (objects c)(sid \<mapsto> st')" "\<And>i. i \<noteq> sid \<Longrightarrow> out' i = out i"
  shows "inbound_load out' c' + (stream_load st + out sid) = inbound_load out c + (stream_load st' + out' sid)"
proof -
  have "(\<Sum>i\<in>dom (objects c') - {sid}. stream_load (the (objects c' i)) + out' i)
      = (\<Sum>i\<in>dom (objects c) - {sid}. stream_load (the (objects c i)) + out i)"
    using assms by (intro sum.cong) auto
  then show ?thesis
    using inbound_load_split [of c sid st out] inbound_load_split [of c' sid st' out'] assms by simp
qed

lemma inbound_inv_update:
  assumes inv: "inbound_inv free waiting out c" and st: "objects c sid = Some st"
    and c': "objects c' = (objects c)(sid \<mapsto> st')" "limits c' = limits c"
    and out': "\<And>i. i \<noteq> sid \<Longrightarrow> out' i = out i"
    and acc: "stream_account free waiting (out' sid) (max_inbound_stream_bytes (limits c)) st'"
    and conn: "\<And>load. load + (stream_load st + out sid) = inbound_load out c + (stream_load st' + out' sid)
      \<Longrightarrow> conn_account free waiting load c'"
  shows "inbound_inv free waiting out' c'"
proof -
  have fin: "finite (dom (objects c))" using inv by (simp add: inbound_inv_def)
  have "conn_account free waiting (inbound_load out' c') c'"
    by (rule conn) (rule inbound_load_update [OF fin st c'(1) out'])
  then show ?thesis
    using inv acc c' out' fin by (auto simp: inbound_inv_def)
qed

lemma inbound_invD:
  assumes "inbound_inv free waiting out c"
  shows "finite (dom (objects c))" "conn_account free waiting (inbound_load out c) c"
    "objects c sid = Some st \<Longrightarrow> stream_account free waiting (out sid) (max_inbound_stream_bytes (limits c)) st"
    "objects c sid = Some st \<Longrightarrow> list_all chunk_ok (chunks (inbound st))"
  using assms by (auto simp: inbound_inv_def stream_account_def)

lemma inbound_load_ge:
  assumes "inbound_inv free waiting out c" "objects c sid = Some st"
  shows "stream_load st + out sid \<le> inbound_load out c"
  using inbound_load_split [of c sid st out] assms by (simp add: inbound_inv_def)

section \<open>What giving back credit changes\<close>

text \<open>Only the windows and the inbound budgets; everything else of the connection is as before.\<close>

definition credit_frame :: "'s connection \<Rightarrow> 's connection \<Rightarrow> bool" where
  "credit_frame c c' \<longleftrightarrow>
     (\<exists>wins sems cw cs. c' = c\<lparr>objects := (\<lambda>i. map_option (\<lambda>st. st\<lparr>s_window := wins i, inbound_stream_bytes := sems i\<rparr>)
        (objects c i)), c_window := cw, inbound_conn_bytes := cs\<rparr>)"

lemma credit_frameI:
  assumes "c' = c\<lparr>objects := objs, c_window := cw, inbound_conn_bytes := cs\<rparr>"
    and "\<And>i. objs i = map_option (\<lambda>st. st\<lparr>s_window := wins i, inbound_stream_bytes := sems i\<rparr>) (objects c i)"
  shows "credit_frame c c'"
proof -
  have "objs = (\<lambda>i. map_option (\<lambda>st. st\<lparr>s_window := wins i, inbound_stream_bytes := sems i\<rparr>) (objects c i))"
    using assms(2) by blast
  then show ?thesis using assms(1) by (auto simp: credit_frame_def)
qed

lemma credit_frame_stream:
  "credit_frame c (on_stream sid (\<lambda>st. st\<lparr>s_window := f (s_window st), inbound_stream_bytes := g (inbound_stream_bytes st)\<rparr>)
     (c\<lparr>c_window := cw, inbound_conn_bytes := cs\<rparr>))" (is "credit_frame c ?c'")
proof (rule credit_frameI [where objs = "objects ?c'"])
  show "?c' = c\<lparr>objects := objects ?c', c_window := cw, inbound_conn_bytes := cs\<rparr>"
    by (simp add: on_stream_def)
  show "objects ?c' i = map_option (\<lambda>st. st\<lparr>s_window := (if i = sid then f else id) (s_window (the (objects c i))),
      inbound_stream_bytes := (if i = sid then g else id) (inbound_stream_bytes (the (objects c i)))\<rparr>) (objects c i)" for i
    by (cases "objects c i") (auto simp: on_stream_def)
qed

lemma credit_frame_trans [trans]:
  assumes "credit_frame a b" "credit_frame b c"
  shows "credit_frame a c"
proof -
  obtain w1 s1 cw1 cs1 where b: "b = a\<lparr>objects := (\<lambda>i. map_option (\<lambda>st. st\<lparr>s_window := w1 i, inbound_stream_bytes := s1 i\<rparr>)
        (objects a i)), c_window := cw1, inbound_conn_bytes := cs1\<rparr>"
    using assms(1) unfolding credit_frame_def by blast
  obtain w2 s2 cw2 cs2 where c: "c = b\<lparr>objects := (\<lambda>i. map_option (\<lambda>st. st\<lparr>s_window := w2 i, inbound_stream_bytes := s2 i\<rparr>)
        (objects b i)), c_window := cw2, inbound_conn_bytes := cs2\<rparr>"
    using assms(2) unfolding credit_frame_def by blast
  show ?thesis
    by (rule credit_frameI [where wins = w2 and sems = s2]) (use b c in \<open>auto simp: option.map_comp o_def\<close>)
qed

lemma credit_frame_release: "credit_frame c (release_inbound S sid m n c)"
  using credit_frame_stream [where c = c and sid = sid and f = id and g = "sem_release S n"
      and cw = "c_window c" and cs = "sem_release S m (inbound_conn_bytes c)"]
  by (simp add: release_inbound_def)

lemma credit_frame_window: "credit_frame c (c\<lparr>c_window := cw\<rparr>)"
  using credit_frame_stream [where c = c and sid = 0 and f = id and g = id and cw = cw
      and cs = "inbound_conn_bytes c"]
  by (simp add: on_stream_def option.map_ident)

lemma credit_frame_s_window: "credit_frame c (on_stream sid (\<lambda>st. st\<lparr>s_window := f (s_window st)\<rparr>) c)"
  using credit_frame_stream [where c = c and sid = sid and f = f and g = id and cw = "c_window c"
      and cs = "inbound_conn_bytes c"]
  by simp

lemma credit_frame_consume: "credit_frame c (snd (chunk_consume S sid n ch c))"
proof -
  obtain cn cp sn sp where p: "permit_split n (in_conn_permit ch) = (cn, cp)"
      "permit_split n (in_stream_permit ch) = (sn, sp)"
    by (metis surj_pair)
  let ?c1 = "release_inbound S sid cn sn c"
  let ?c2 = "?c1\<lparr>c_window := snd (rw_consume n (c_window ?c1))\<rparr>"
  have "credit_frame c ?c1" by (rule credit_frame_release)
  also have "credit_frame ?c1 ?c2" by (rule credit_frame_window)
  also have "credit_frame ?c2 (on_stream sid (\<lambda>st. st\<lparr>s_window := snd (rw_consume n (s_window st))\<rparr>) ?c2)"
    by (rule credit_frame_s_window)
  finally show ?thesis by (simp add: chunk_consume_def Let_def p)
qed

lemma credit_frame_drop: "credit_frame c (drop_chunk S sid ch c)"
  using credit_frame_trans [OF credit_frame_consume [of c S sid "length (rb_deref (data ch))" ch] credit_frame_release]
  by (simp add: drop_chunk_def case_prod_beta Let_def)

lemma credit_frame_refl [simp]: "credit_frame c c"
  using credit_frame_window [of c "c_window c"] by simp

lemma credit_frame_drops: "credit_frame c (drop_chunks S sid chs c)"
proof (induction chs arbitrary: c)
  case (Cons ch chs)
  then show ?case using credit_frame_trans [OF credit_frame_drop Cons] by simp
qed simp

lemma credit_frameD:
  assumes "credit_frame c c'"
  shows "writer c' = writer c" "streams c' = streams c" "limits c' = limits c" "closed c' = closed c"
    "terminated c' = terminated c" "incoming_streams c' = incoming_streams c"
    "dom (objects c') = dom (objects c)"
  using assms by (auto simp: credit_frame_def dom_def)

lemma credit_frame_object:
  assumes "credit_frame c c'" "objects c sid = Some st"
  obtains w s where "objects c' sid = Some (st\<lparr>s_window := w, inbound_stream_bytes := s\<rparr>)"
  using assms by (auto simp: credit_frame_def)

section \<open>The operations keep the accounts\<close>

context semaphore
begin

lemma chunk_consume_eq:
  assumes "objects c sid = Some st" "in_conn_permit ch = Some m" "in_stream_permit ch = Some m" "n \<le> m"
  shows "chunk_consume S sid n ch c =
    (ch\<lparr>in_conn_permit := Some (m - n), in_stream_permit := Some (m - n)\<rparr>,
     c\<lparr>objects := (objects c)(sid \<mapsto> st\<lparr>inbound_stream_bytes := sem_release S n (inbound_stream_bytes st),
         s_window := snd (rw_consume n (s_window st))\<rparr>),
       c_window := snd (rw_consume n (c_window c)),
       inbound_conn_bytes := sem_release S n (inbound_conn_bytes c)\<rparr>)"
  using assms by (simp add: chunk_consume_def permit_split_def release_inbound_def on_stream_def Let_def)

lemma chunk_consume_inv:
  assumes inv: "inbound_inv free waiting out c" and st: "objects c sid = Some st"
    and ch: "in_conn_permit ch = Some m" "in_stream_permit ch = Some m" "n \<le> m" and n: "n \<le> out sid"
  shows "inbound_inv free waiting (out(sid := out sid - n)) (snd (chunk_consume S sid n ch c))"
proof -
  have acc: "stream_account free waiting (out sid) (max_inbound_stream_bytes (limits c)) st"
    and conn: "conn_account free waiting (inbound_load out c) c"
    using inv st by (auto simp: inbound_inv_def)
  have nb: "n \<le> buffered (s_window st)" "n \<le> buffered (c_window c)"
    using acc conn n inbound_load_ge [OF inv st] by (auto simp: stream_account_def conn_account_def)
  have w: "rw_inv (s_window st)" "rw_inv (c_window c)"
    using acc conn by (auto simp: stream_account_def conn_account_def)
  show ?thesis
    unfolding chunk_consume_eq [OF st ch] snd_conv
    by (rule inbound_inv_update [OF inv st])
      (use acc conn n nb rw_consume_buffered [OF w(1) nb(1)] rw_consume_buffered [OF w(2) nb(2)] release_idle
        in \<open>auto simp: stream_account_def conn_account_def stream_load_def\<close>)
qed

lemma release_zero_inv:
  assumes inv: "inbound_inv free waiting out c" and st: "objects c sid = Some st"
  shows "inbound_inv free waiting out (release_inbound S sid 0 0 c)"
proof -
  have acc: "stream_account free waiting (out sid) (max_inbound_stream_bytes (limits c)) st"
    and conn: "conn_account free waiting (inbound_load out c) c"
    using inv st by (auto simp: inbound_inv_def)
  show ?thesis
    unfolding release_inbound_def
    by (rule inbound_inv_update [OF inv st, where
          st' = "st\<lparr>inbound_stream_bytes := sem_release S 0 (inbound_stream_bytes st)\<rparr>"])
      (use acc conn st release_idle in \<open>auto simp: on_stream_def stream_account_def conn_account_def stream_load_def\<close>)
qed

lemma drop_chunk_inv:
  assumes inv: "inbound_inv free waiting out c" and st: "objects c sid = Some st"
    and ch: "chunk_ok ch" and n: "length (rb_deref (data ch)) \<le> out sid"
  shows "inbound_inv free waiting (out(sid := out sid - length (rb_deref (data ch)))) (drop_chunk S sid ch c)"
proof -
  let ?n = "length (rb_deref (data ch))"
  let ?r = "chunk_consume S sid ?n ch c"
  have p: "in_conn_permit ch = Some ?n" "in_stream_permit ch = Some ?n" using ch by (auto simp: chunk_ok_def)
  have i: "inbound_inv free waiting (out(sid := out sid - ?n)) (snd ?r)"
    by (rule chunk_consume_inv [OF inv st p le_refl n])
  obtain st' where st': "objects (snd ?r) sid = Some st'"
    using credit_frame_object [OF credit_frame_consume st] by blast
  have "fst ?r = ch\<lparr>in_conn_permit := Some 0, in_stream_permit := Some 0\<rparr>"
    by (simp add: chunk_consume_eq [OF st p le_refl])
  then show ?thesis
    using release_zero_inv [OF i st'] by (simp add: drop_chunk_def case_prod_beta Let_def held_def)
qed

lemma drop_chunks_inv:
  assumes "inbound_inv free waiting out c" "objects c sid = Some st"
    and "list_all chunk_ok chs" "length (chunk_bytes chs) \<le> out sid"
  shows "inbound_inv free waiting (out(sid := out sid - length (chunk_bytes chs))) (drop_chunks S sid chs c)"
  using assms
proof (induction chs arbitrary: out c st)
  case (Cons ch chs)
  let ?o = "out(sid := out sid - length (rb_deref (data ch)))"
  obtain st' where st': "objects (drop_chunk S sid ch c) sid = Some st'"
    using credit_frame_object [OF credit_frame_drop Cons.prems(2)] by blast
  have inv: "inbound_inv free waiting ?o (drop_chunk S sid ch c)"
    using Cons.prems by (intro drop_chunk_inv) auto
  have eq: "?o(sid := ?o sid - length (chunk_bytes chs)) = out(sid := out sid - length (chunk_bytes (ch # chs)))"
    by (simp add: fun_eq_iff)
  have "inbound_inv free waiting (?o(sid := ?o sid - length (chunk_bytes chs)))
      (drop_chunks S sid chs (drop_chunk S sid ch c))"
    by (rule Cons.IH [OF inv st']) (use Cons.prems in auto)
  then show ?case by (simp only: eq drop_chunks.simps)
qed simp

text \<open>Moving chunks between the queue of a stream and a reader, and setting flags.\<close>

lemma requeue_inv:
  assumes inv: "inbound_inv free waiting out c" and st: "objects c sid = Some st"
    and c': "objects c' = (objects c)(sid \<mapsto> st')" "limits c' = limits c" "c_window c' = c_window c"
      "inbound_conn_bytes c' = inbound_conn_bytes c"
    and st': "s_window st' = s_window st" "inbound_stream_bytes st' = inbound_stream_bytes st"
      "list_all chunk_ok (chunks (inbound st'))"
    and out': "\<And>i. i \<noteq> sid \<Longrightarrow> out' i = out i"
    and load: "stream_load st' + out' sid = stream_load st + out sid"
  shows "inbound_inv free waiting out' c'"
proof -
  have acc: "stream_account free waiting (out sid) (max_inbound_stream_bytes (limits c)) st"
    and conn: "conn_account free waiting (inbound_load out c) c"
    using inv st by (auto simp: inbound_inv_def)
  show ?thesis
    by (rule inbound_inv_update [OF inv st c'(1,2) out'])
      (use acc conn c' st' load in \<open>auto simp: stream_account_def conn_account_def\<close>)
qed

lemma clear_inv:
  assumes inv: "inbound_inv free waiting out c" and st: "objects c sid = Some st"
    and c': "objects c' = (objects c)(sid \<mapsto> st')" "limits c' = limits c" "c_window c' = c_window c"
      "inbound_conn_bytes c' = inbound_conn_bytes c"
    and st': "s_window st' = s_window st" "inbound_stream_bytes st' = inbound_stream_bytes st"
      "chunks (inbound st') = []"
  shows "inbound_inv free waiting out (drop_chunks S sid (chunks (inbound st)) c')"
proof -
  let ?n = "length (chunk_bytes (chunks (inbound st)))"
  have ok: "list_all chunk_ok (chunks (inbound st))"
    using inv st by (auto simp: inbound_inv_def stream_account_def)
  have "inbound_inv free waiting (out(sid := out sid + ?n)) c'"
    by (rule requeue_inv [OF inv st c' st'(1,2)]) (simp_all add: st' stream_load_def)
  from drop_chunks_inv [OF this _ ok, of sid] c' show ?thesis by simp
qed

lemma mark_reset_inv:
  assumes "inbound_inv free waiting out c"
  shows "inbound_inv free waiting out (mark_reset S sid e c)"
proof (cases "objects c sid")
  case (Some st)
  then show ?thesis
    by (simp add: mark_reset_def on_inbound_def)
      (rule clear_inv [OF assms Some, where st' = "st\<lparr>inbound := (inbound st)\<lparr>reset_error := Some e, chunks := []\<rparr>\<rparr>"],
        simp_all add: on_stream_def)
qed (use assms in \<open>simp add: mark_reset_def\<close>)

lemma discard_inbound_inv:
  assumes "inbound_inv free waiting out c"
  shows "inbound_inv free waiting out (discard_inbound S sid c)"
proof (cases "objects c sid")
  case (Some st)
  then show ?thesis
    by (simp add: discard_inbound_def on_inbound_def)
      (rule clear_inv [OF assms Some,
          where st' = "st\<lparr>recv_discarded := True, inbound := (inbound st)\<lparr>chunks := []\<rparr>\<rparr>"],
        simp_all add: on_stream_def)
qed (use assms in \<open>simp add: discard_inbound_def\<close>)

lemma on_stream_inv:
  assumes "inbound_inv free waiting out c"
    and "\<And>st. s_window (f st) = s_window st \<and> inbound_stream_bytes (f st) = inbound_stream_bytes st
      \<and> chunks (inbound (f st)) = chunks (inbound st)"
  shows "inbound_inv free waiting out (on_stream sid f c)"
proof (cases "objects c sid")
  case None
  then have "on_stream sid f c = c" by (simp add: on_stream_def fun_upd_idem)
  then show ?thesis using assms(1) by simp
next
  case (Some st)
  then show ?thesis
    using assms by (intro requeue_inv [OF assms(1) Some, where st' = "f st"])
      (auto simp: on_stream_def stream_load_def inbound_inv_def stream_account_def)
qed

lemma mark_recv_terminal_inv:
  "inbound_inv free waiting out c \<Longrightarrow> inbound_inv free waiting out (mark_recv_terminal sid c)"
  by (simp add: mark_recv_terminal_def on_stream_inv)

lemma read_chunk_inv:
  assumes inv: "inbound_inv free waiting out c" and r: "read_chunk sid c = (Ready (Inr (Some ch)), c')"
  shows "chunk_ok ch" "inbound_inv free waiting (out(sid := out sid + length (rb_deref (data ch)))) c'"
proof -
  obtain st chs where st: "objects c sid = Some st" "chunks (inbound st) = ch # chs"
      "c' = on_inbound sid (\<lambda>i. i\<lparr>chunks := chs\<rparr>) c"
    using r by (auto simp: read_chunk_def split: option.splits list.splits if_splits)
  have ok: "list_all chunk_ok (ch # chs)"
    using inbound_invD(4) [OF inv st(1)] st(2) by simp
  then show "chunk_ok ch" by simp
  show "inbound_inv free waiting (out(sid := out sid + length (rb_deref (data ch)))) c'"
    unfolding st(3) on_inbound_def
    by (rule requeue_inv [OF inv st(1), where st' = "st\<lparr>inbound := (inbound st)\<lparr>chunks := chs\<rparr>\<rparr>"])
      (use ok st in \<open>auto simp: on_stream_def stream_load_def\<close>)
qed

lemma acquire_inbound_eq:
  assumes "objects c sid = Some st" "0 < n" "n < 2 ^ 32"
  shows "acquire_inbound S sid n c =
    (let (r1, s1) = sem_try_acquire S n (inbound_conn_bytes c);
         (r2, s2) = sem_try_acquire S n (inbound_stream_bytes st);
         objs = (objects c)(sid \<mapsto> st\<lparr>inbound_stream_bytes := s2\<rparr>) in
     if r1 = Granted then
       if r2 = Granted then (Inr (Some n, Some n), c\<lparr>inbound_conn_bytes := s1, objects := objs\<rparr>)
       else (Inl (Fail (LimitExceeded ''maximum buffered inbound stream bytes reached'')),
             c\<lparr>inbound_conn_bytes := sem_release S n s1, objects := objs\<rparr>)
     else (Inl (Fail (LimitExceeded ''maximum buffered inbound connection bytes reached'')),
           c\<lparr>inbound_conn_bytes := s1\<rparr>))"
proof -
  have u: "as_u32 n = n" using assms(3) by (simp add: as_u32_def)
  show ?thesis
    using assms(1,2) by (auto simp: acquire_inbound_def u on_stream_def Let_def split: prod.splits sem_result.splits)
qed

text \<open>When both windows have accounted for the payload, the permits it needs are free.\<close>

lemma window_gives_permits:
  assumes inv: "inbound_inv free waiting out c" and st: "objects c sid = Some st"
    and n: "inbound_load out c + n \<le> buffered (c_window c)" "stream_load st + out sid + n \<le> buffered (s_window st)"
  shows "n \<le> free (inbound_conn_bytes c)" "n \<le> free (inbound_stream_bytes st)"
proof -
  have acc: "stream_account free waiting (out sid) (max_inbound_stream_bytes (limits c)) st"
    and conn: "conn_account free waiting (inbound_load out c) c"
    using inbound_invD [OF inv] st by auto
  have "rw_inv (c_window c)" "rw_inv (s_window st)"
    using acc conn by (auto simp: stream_account_def conn_account_def)
  note buffered_le_window [OF this(1)] buffered_le_window [OF this(2)]
  then show "n \<le> free (inbound_conn_bytes c)" "n \<le> free (inbound_stream_bytes st)"
    using acc conn n by (auto simp: stream_account_def conn_account_def)
qed

lemma acquire_inbound_granted:
  assumes inv: "inbound_inv free waiting out c" and st: "objects c sid = Some st"
    and n: "inbound_load out c + n \<le> buffered (c_window c)" "stream_load st + out sid + n \<le> buffered (s_window st)"
      "0 < n" "n < 2 ^ 32"
    and open': "\<not> is_closed (inbound_conn_bytes c)" "\<not> is_closed (inbound_stream_bytes st)"
  shows "\<exists>r. acquire_inbound S sid n c = (Inr r, snd (acquire_inbound S sid n c))"
proof -
  have "\<not> waiting (inbound_conn_bytes c)" "\<not> waiting (inbound_stream_bytes st)"
    using inbound_invD(2) [OF inv] inbound_invD(3) [OF inv st] by (auto simp: stream_account_def conn_account_def)
  then have "fst (sem_try_acquire S n (inbound_conn_bytes c)) = Granted"
      "fst (sem_try_acquire S n (inbound_stream_bytes st)) = Granted"
    using try_grants window_gives_permits [OF inv st n(1,2)] open' by blast+
  then show ?thesis by (simp add: acquire_inbound_eq [OF st n(3,4)] case_prod_beta Let_def)
qed

lemma acquire_inbound_refused:
  assumes inv: "inbound_inv free waiting out c" and st: "objects c sid = Some st" and n: "0 < n" "n < 2 ^ 32"
    and r: "acquire_inbound S sid n c = (Inl e, c')"
  shows "inbound_inv free waiting out c'" "\<exists>msg. e = Fail (LimitExceeded msg)"
proof -
  obtain r1 s1 r2 s2 where t: "sem_try_acquire S n (inbound_conn_bytes c) = (r1, s1)"
      "sem_try_acquire S n (inbound_stream_bytes st) = (r2, s2)"
    by (metis surj_pair)
  have acc: "stream_account free waiting (out sid) (max_inbound_stream_bytes (limits c)) st"
    and conn: "conn_account free waiting (inbound_load out c) c"
    using inbound_invD [OF inv] st by auto
  have f: "free s1 + (if r1 = Granted then n else 0) = free (inbound_conn_bytes c)"
      "free s2 + (if r2 = Granted then n else 0) = free (inbound_stream_bytes st)"
      "waiting s1 = waiting (inbound_conn_bytes c)" "waiting s2 = waiting (inbound_stream_bytes st)"
    using try_free [of n "inbound_conn_bytes c"] try_free [of n "inbound_stream_bytes st"]
      try_waiting [of n "inbound_conn_bytes c"] try_waiting [of n "inbound_stream_bytes st"] t by auto
  show "\<exists>msg. e = Fail (LimitExceeded msg)"
    using r by (auto simp: acquire_inbound_eq [OF st n] t Let_def split: if_splits)
  have c': "c' = c\<lparr>inbound_conn_bytes := if r1 = Granted then sem_release S n s1 else s1,
      objects := (objects c)(sid \<mapsto> st\<lparr>inbound_stream_bytes := if r1 = Granted then s2 else inbound_stream_bytes st\<rparr>)\<rparr>"
    and r2: "r1 = Granted \<Longrightarrow> r2 \<noteq> Granted"
    using r st by (auto simp: acquire_inbound_eq [OF st n] t Let_def fun_upd_idem split: if_splits)
  show "inbound_inv free waiting out c'"
    unfolding c'
    by (rule inbound_inv_update [OF inv st, where
          st' = "st\<lparr>inbound_stream_bytes := if r1 = Granted then s2 else inbound_stream_bytes st\<rparr>"])
      (use acc conn f r2 release_idle in \<open>auto simp: stream_account_def conn_account_def stream_load_def\<close>)
qed

lemma acquire_inbound_taken:
  assumes st: "objects c sid = Some st" and n: "0 < n" "n < 2 ^ 32"
    and r: "acquire_inbound S sid n c = (Inr r, c')"
  obtains s1 s2 where "r = (Some n, Some n)"
    "c' = c\<lparr>inbound_conn_bytes := s1, objects := (objects c)(sid \<mapsto> st\<lparr>inbound_stream_bytes := s2\<rparr>)\<rparr>"
    "free s1 + n = free (inbound_conn_bytes c)" "free s2 + n = free (inbound_stream_bytes st)"
    "waiting s1 = waiting (inbound_conn_bytes c)" "waiting s2 = waiting (inbound_stream_bytes st)"
proof -
  obtain r1 s1 r2 s2 where t: "sem_try_acquire S n (inbound_conn_bytes c) = (r1, s1)"
      "sem_try_acquire S n (inbound_stream_bytes st) = (r2, s2)"
    by (metis surj_pair)
  have g: "r1 = Granted" "r2 = Granted"
    using r by (auto simp: acquire_inbound_eq [OF st n] t Let_def split: if_splits)
  show ?thesis
    by (rule that [of s2 s1])
      (use r g t try_free [of n "inbound_conn_bytes c"] try_free [of n "inbound_stream_bytes st"]
        try_waiting [of n "inbound_conn_bytes c"] try_waiting [of n "inbound_stream_bytes st"]
        in \<open>auto simp: acquire_inbound_eq [OF st n] Let_def\<close>)
qed

text \<open>Storing a payload after its permits were taken.\<close>

lemma store_inbound_inv:
  assumes inv: "inbound_inv free waiting out c" and st: "objects c sid = Some st"
    and n: "n = length payload" "inbound_load out c + n \<le> buffered (c_window c)"
      "stream_load st + out sid + n \<le> buffered (s_window st)"
    and c1: "c1 = c\<lparr>inbound_conn_bytes := s1, objects := (objects c)(sid \<mapsto> st\<lparr>inbound_stream_bytes := s2\<rparr>)\<rparr>"
      "free s1 + n = free (inbound_conn_bytes c)" "free s2 + n = free (inbound_stream_bytes st)"
      "waiting s1 = waiting (inbound_conn_bytes c)" "waiting s2 = waiting (inbound_stream_bytes st)"
    and live: "\<not> recv_discarded st"
    and r: "store_inbound S sid payload (Some n) (Some n) c1 = (r, c')"
  shows "inbound_inv free waiting out c'"
    "fin_received (inbound st) \<Longrightarrow> r = Inl (Fail (Protocol ''received stream data after FIN''))"
    "\<not> fin_received (inbound st) \<Longrightarrow> r = Inr () \<and>
       (\<exists>cs. chunk_bytes cs = chunk_bytes (chunks (inbound st)) @ payload \<and> objects c' = (objects c)(sid \<mapsto>
          st\<lparr>inbound_stream_bytes := s2, inbound := (inbound st)\<lparr>chunks := cs\<rparr>\<rparr>)
        \<and> c' = c\<lparr>inbound_conn_bytes := s1, objects := objects c'\<rparr>)"
proof -
  have acc: "stream_account free waiting (out sid) (max_inbound_stream_bytes (limits c)) st"
    and conn: "conn_account free waiting (inbound_load out c) c"
    using inbound_invD [OF inv] st by auto
  define ps where "ps = min (max_inbound_stream_bytes (limits c)) (16 * 1024)"
  obtain cs where cs: "store_chunk ps payload (Some n) (Some n) (chunks (inbound st)) = Some cs" "list_all chunk_ok cs"
    using store_chunk_permits [OF inbound_invD(4) [OF inv st] n(1)] by blast
  have bytes: "chunk_bytes cs = chunk_bytes (chunks (inbound st)) @ payload"
    by (rule store_chunk_bytes [OF cs(1)])
  have eq: "store_inbound S sid payload (Some n) (Some n) c1 =
    (if fin_received (inbound st)
     then (Inl (Fail (Protocol ''received stream data after FIN'')),
       c\<lparr>inbound_conn_bytes := sem_release S n s1,
         objects := (objects c)(sid \<mapsto> st\<lparr>inbound_stream_bytes := sem_release S n s2\<rparr>)\<rparr>)
     else (Inr (), c\<lparr>inbound_conn_bytes := s1, objects := (objects c)(sid \<mapsto>
       st\<lparr>inbound_stream_bytes := s2, inbound := (inbound st)\<lparr>chunks := cs\<rparr>\<rparr>)\<rparr>))"
    using live cs(1) by (simp add: store_inbound_def c1(1) release_inbound_def on_inbound_def on_stream_def held_def
        Let_def ps_def)
  show "fin_received (inbound st) \<Longrightarrow> r = Inl (Fail (Protocol ''received stream data after FIN''))"
    using r eq by simp
  show "\<not> fin_received (inbound st) \<Longrightarrow> r = Inr () \<and>
       (\<exists>cs. chunk_bytes cs = chunk_bytes (chunks (inbound st)) @ payload \<and> objects c' = (objects c)(sid \<mapsto>
          st\<lparr>inbound_stream_bytes := s2, inbound := (inbound st)\<lparr>chunks := cs\<rparr>\<rparr>)
        \<and> c' = c\<lparr>inbound_conn_bytes := s1, objects := objects c'\<rparr>)"
    using r bytes unfolding eq by auto
  show "inbound_inv free waiting out c'"
  proof (cases "fin_received (inbound st)")
    case True
    then have "c' = c\<lparr>inbound_conn_bytes := sem_release S n s1,
         objects := (objects c)(sid \<mapsto> st\<lparr>inbound_stream_bytes := sem_release S n s2\<rparr>)\<rparr>"
      using r eq by simp
    then show ?thesis
      by (intro inbound_inv_update [OF inv st, where st' = "st\<lparr>inbound_stream_bytes := sem_release S n s2\<rparr>"])
        (use acc conn c1(2-) release_idle in \<open>auto simp: stream_account_def conn_account_def stream_load_def\<close>)
  next
    case False
    then have "c' = c\<lparr>inbound_conn_bytes := s1, objects := (objects c)(sid \<mapsto>
       st\<lparr>inbound_stream_bytes := s2, inbound := (inbound st)\<lparr>chunks := cs\<rparr>\<rparr>)\<rparr>"
      using r eq by simp
    then show ?thesis
      by (intro inbound_inv_update [OF inv st,
            where st' = "st\<lparr>inbound_stream_bytes := s2, inbound := (inbound st)\<lparr>chunks := cs\<rparr>\<rparr>"])
        (use acc conn c1(2-) n bytes cs(2) in \<open>auto simp: stream_account_def conn_account_def stream_load_def\<close>)
  qed
qed

text \<open>
  \<open>push_inbound\<close> as \<open>on_remote_stream_frame\<close> calls it, with the payload already counted by both windows:
  the accounts balance whatever happens, and a live stream of an open connection takes the payload.
\<close>

lemma push_inbound_discarded:
  assumes inv: "inbound_inv free waiting out c" and st: "objects c sid = Some st" "recv_discarded st"
    and n: "inbound_load out c + length payload \<le> buffered (c_window c)"
  shows "fst (push_inbound S sid payload c) = Inr ()" "inbound_inv free waiting out (snd (push_inbound S sid payload c))"
proof -
  let ?w = "snd (rw_consume (length payload) (c_window c))"
  have eq: "push_inbound S sid payload c = (Inr (), c\<lparr>c_window := ?w\<rparr>)" using st by (simp add: push_inbound_def)
  have conn: "conn_account free waiting (inbound_load out c) c" by (rule inbound_invD(2) [OF inv])
  have nb: "rw_inv (c_window c)" "length payload \<le> buffered (c_window c)" using conn n by (auto simp: conn_account_def)
  have "conn_account free waiting (inbound_load out c) (c\<lparr>c_window := ?w\<rparr>)"
    using conn n rw_consume_buffered [OF nb] by (auto simp: conn_account_def)
  moreover have "inbound_load out (c\<lparr>c_window := ?w\<rparr>) = inbound_load out c" by (simp add: inbound_load_def)
  ultimately show "fst (push_inbound S sid payload c) = Inr ()"
      "inbound_inv free waiting out (snd (push_inbound S sid payload c))"
    using inv unfolding eq by (simp_all add: inbound_inv_def)
qed

lemma push_inbound_inv:
  assumes inv: "inbound_inv free waiting out c" and st: "objects c sid = Some st"
    and n: "inbound_load out c + length payload \<le> buffered (c_window c)"
      "stream_load st + out sid + length payload \<le> buffered (s_window st)"
      "payload \<noteq> []" "length payload < 2 ^ 32"
  shows "inbound_inv free waiting out (snd (push_inbound S sid payload c))"
    "fst (push_inbound S sid payload c) \<noteq> Inl Panicked"
proof -
  let ?n = "length payload"
  have pos: "0 < ?n" using n(3) by simp
  have "inbound_inv free waiting out (snd (push_inbound S sid payload c))
    \<and> fst (push_inbound S sid payload c) \<noteq> Inl Panicked"
  proof (cases "recv_discarded st")
    case True
    then show ?thesis using push_inbound_discarded [OF inv st True n(1)] by simp
  next
    case False
    show ?thesis
    proof (cases "acquire_inbound S sid ?n c" rule: action_cases)
      case (failed e c1)
      then have "push_inbound S sid payload c = (Inl e, c1)"
        using st False by (simp add: push_inbound_def and_then_def)
      then show ?thesis using acquire_inbound_refused [OF inv st pos n(4) failed] by auto
    next
      case (returned r c1)
      obtain s1 s2 where t: "r = (Some ?n, Some ?n)"
        "c1 = c\<lparr>inbound_conn_bytes := s1, objects := (objects c)(sid \<mapsto> st\<lparr>inbound_stream_bytes := s2\<rparr>)\<rparr>"
        "free s1 + ?n = free (inbound_conn_bytes c)" "free s2 + ?n = free (inbound_stream_bytes st)"
        "waiting s1 = waiting (inbound_conn_bytes c)" "waiting s2 = waiting (inbound_stream_bytes st)"
        using acquire_inbound_taken [OF st pos n(4) returned] by blast
      have p: "push_inbound S sid payload c = store_inbound S sid payload (Some ?n) (Some ?n) c1"
        using returned t(1) st False by (simp add: push_inbound_def and_then_def)
      show ?thesis
        using store_inbound_inv [OF inv st refl n(1,2) t(2-6) False, of "fst (push_inbound S sid payload c)"
            "snd (push_inbound S sid payload c)"] p by (cases "fin_received (inbound st)") simp_all
    qed
  qed
  then show "inbound_inv free waiting out (snd (push_inbound S sid payload c))"
    "fst (push_inbound S sid payload c) \<noteq> Inl Panicked" by simp_all
qed

lemma push_inbound_appends:
  assumes inv: "inbound_inv free waiting out c" and st: "objects c sid = Some st"
    and n: "inbound_load out c + length payload \<le> buffered (c_window c)"
      "stream_load st + out sid + length payload \<le> buffered (s_window st)"
      "payload \<noteq> []" "length payload < 2 ^ 32"
    and live: "\<not> recv_discarded st" "\<not> fin_received (inbound st)"
      "\<not> is_closed (inbound_conn_bytes c)" "\<not> is_closed (inbound_stream_bytes st)"
  obtains cs s1 s2 where "push_inbound S sid payload c = (Inr (), c\<lparr>inbound_conn_bytes := s1,
      objects := (objects c)(sid \<mapsto> st\<lparr>inbound_stream_bytes := s2, inbound := (inbound st)\<lparr>chunks := cs\<rparr>\<rparr>)\<rparr>)"
    "chunk_bytes cs = chunk_bytes (chunks (inbound st)) @ payload"
proof -
  let ?n = "length payload"
  have pos: "0 < ?n" using n(3) by simp
  obtain r c1 where a: "acquire_inbound S sid ?n c = (Inr r, c1)"
    using acquire_inbound_granted [OF inv st n(1,2) pos n(4) live(3,4)] by blast
  obtain s1 s2 where t: "r = (Some ?n, Some ?n)"
    "c1 = c\<lparr>inbound_conn_bytes := s1, objects := (objects c)(sid \<mapsto> st\<lparr>inbound_stream_bytes := s2\<rparr>)\<rparr>"
    "free s1 + ?n = free (inbound_conn_bytes c)" "free s2 + ?n = free (inbound_stream_bytes st)"
    "waiting s1 = waiting (inbound_conn_bytes c)" "waiting s2 = waiting (inbound_stream_bytes st)"
    using acquire_inbound_taken [OF st pos n(4) a] by blast
  have p: "push_inbound S sid payload c = store_inbound S sid payload (Some ?n) (Some ?n) c1"
    using a t(1) st live(1) by (simp add: push_inbound_def and_then_def)
  from store_inbound_inv(3) [OF inv st refl n(1,2) t(2-6) live(1), of "fst (push_inbound S sid payload c)"
      "snd (push_inbound S sid payload c)"] p live(2) that
  show thesis by (auto simp: prod_eq_iff)
qed

end

section \<open>The number of chunks\<close>

text \<open>Two neighbours in a queue could not have been merged: a page is followed by a chunk that did not
  fit in it, and a chunk that is not a page is at least half a page long.\<close>

definition gap :: "usize \<Rightarrow> inbound_chunk \<Rightarrow> usize \<Rightarrow> bool" where
  "gap ps a n = (case data a of Shared d \<Rightarrow> usize_div_ceil ps 2 \<le> length d | Page d \<Rightarrow> ps < length d + n)"

fun paged :: "usize \<Rightarrow> inbound_chunk list \<Rightarrow> bool" where
  "paged ps [] = True"
| "paged ps [a] = (case data a of Shared d \<Rightarrow> usize_div_ceil ps 2 \<le> length d | Page d \<Rightarrow> True)"
| "paged ps (a # b # cs) = (gap ps a (length (rb_deref (data b))) \<and> paged ps (b # cs))"

text \<open>The queues of a stream: filled by \<open>push_inbound\<close>, emptied from the front by readers.\<close>

inductive chunk_queue :: "usize \<Rightarrow> inbound_chunk list \<Rightarrow> bool" for ps where
  empty: "chunk_queue ps []"
| store: "chunk_queue ps cs \<Longrightarrow> store_chunk ps payload cp sp cs = Some cs' \<Longrightarrow> chunk_queue ps cs'"
| pop: "chunk_queue ps (ch # cs) \<Longrightarrow> chunk_queue ps cs"

lemma paged_snoc:
  "paged ps (cs @ [a, b]) \<longleftrightarrow> paged ps (cs @ [a]) \<and> gap ps a (length (rb_deref (data b))) \<and> paged ps [b]"
proof (induction cs rule: paged.induct [of _ ps])
  case (1 ps)
  then show ?case by (cases "data a") (auto simp: gap_def)
next
  case (2 ps x)
  then show ?case by (cases "data a") (auto simp: gap_def)
qed auto

lemma paged_tl: "paged ps (ch # cs) \<Longrightarrow> paged ps cs"
  by (cases cs) auto

lemma gap_mono: "gap ps a m \<Longrightarrow> m \<le> n \<Longrightarrow> gap ps a n"
  by (auto simp: gap_def split: receive_buffer.splits)

lemma paged_grow:
  assumes "paged ps (cs @ [a])" "length (rb_deref (data a)) \<le> length d"
  shows "paged ps (cs @ [a\<lparr>data := Page d, in_conn_permit := x, in_stream_permit := y\<rparr>])"
proof (cases cs rule: rev_cases)
  case (snoc ds z)
  then show ?thesis using assms gap_mono [of ps z "length (rb_deref (data a))" "length d"] by (simp add: paged_snoc)
qed simp

lemma paged_store:
  assumes pg: "paged ps cs" and r: "store_chunk ps payload cp sp cs = Some cs'"
  shows "paged ps cs'"
proof (cases "open_page ps (length payload) cs")
  case (Some page)
  then have ne: "cs = butlast cs @ [last cs]" and pd: "data (last cs) = Page page"
    by (auto simp: open_page_def split: if_splits receive_buffer.splits)
  obtain x y where "cs' = butlast cs @ [(last cs)\<lparr>data := Page (page @ payload), in_conn_permit := x, in_stream_permit := y\<rparr>]"
    using r Some by (auto simp: store_chunk_def split: option.splits)
  then show ?thesis using paged_grow [of ps "butlast cs" "last cs" "page @ payload"] pg ne pd by simp
next
  case None
  let ?ch = "\<lparr>data = (if length payload < usize_div_ceil ps 2 then Page payload else Shared payload),
    in_conn_permit = cp, in_stream_permit = sp\<rparr>"
  have cs': "cs' = cs @ [?ch]" using r None by (simp add: store_chunk_def)
  have last: "paged ps [?ch]" and len: "length (rb_deref (data ?ch)) = length payload" by auto
  show ?thesis
  proof (cases cs rule: rev_cases)
    case Nil
    then show ?thesis using cs' last by simp
  next
    case (snoc ds z)
    have "paged ps [z]" using pg snoc by (cases ds rule: rev_cases) (simp_all add: paged_snoc)
    then have "gap ps z (length payload)"
      using None snoc by (auto simp: gap_def open_page_def split: receive_buffer.splits if_splits)
    then show ?thesis using cs' snoc pg last len by (simp add: paged_snoc del: paged.simps)
  qed
qed

lemma chunk_queue_paged: "chunk_queue ps cs \<Longrightarrow> paged ps cs"
  by (induction rule: chunk_queue.induct) (auto intro: paged_store paged_tl)

lemma paged_count:
  "paged ps (a # cs) \<Longrightarrow> length cs * usize_div_ceil ps 2 + length (rb_deref (data a)) \<le> 2 * length (chunk_bytes (a # cs))"
proof (induction cs arbitrary: a)
  case (Cons b cs)
  have "usize_div_ceil ps 2 \<le> length (rb_deref (data a)) + length (rb_deref (data b))"
    using Cons.prems by (auto simp: gap_def usize_div_ceil_two split: receive_buffer.splits)
  then show ?case using Cons.IH [of b] Cons.prems by simp
qed simp

text \<open>C20 (bounds): coalescing bounds the metadata a peer can make the receiver allocate. Whatever the sizes
  of the frames (down to one byte each), a queue that holds \<open>n\<close> bytes has at most \<open>1 + 2 n / h\<close> chunks, where
  \<open>h\<close> is half the page size rounded up.\<close>

theorem chunk_count_bounded:
  assumes "chunk_queue ps cs"
  shows "(length cs - 1) * usize_div_ceil ps 2 \<le> 2 * length (chunk_bytes cs)"
proof (cases cs)
  case (Cons a ds)
  then show ?thesis using paged_count [of ps a ds] chunk_queue_paged [OF assms] by simp
qed simp

theorem chunk_count_bounded_witness:
  "\<exists>cs. chunk_queue 4 cs \<and> chunk_bytes cs = [1, 2, 3, 4, 5] \<and> length cs = 2
     \<and> (length cs - 1) * usize_div_ceil 4 2 \<le> 2 * length (chunk_bytes cs)"
proof -
  let ?ch = "\<lambda>d n. \<lparr>data = d, in_conn_permit = Some n, in_stream_permit = Some n\<rparr>"
  have h: "usize_div_ceil 4 2 = 2" by (simp add: usize_div_ceil_def)
  have "chunk_queue 4 [?ch (Page [1]) 1]"
    by (rule chunk_queue.store [OF chunk_queue.empty, where payload = "[1]" and cp = "Some 1" and sp = "Some 1"])
      (simp add: store_chunk_def open_page_def h)
  then have "chunk_queue 4 [?ch (Page [1, 2, 3]) 3]"
    by (rule chunk_queue.store [where payload = "[2, 3]" and cp = "Some 2" and sp = "Some 2"])
      (simp add: store_chunk_def open_page_def h)
  then have q: "chunk_queue 4 [?ch (Page [1, 2, 3]) 3, ?ch (Shared [4, 5]) 2]"
    by (rule chunk_queue.store [where payload = "[4, 5]" and cp = "Some 2" and sp = "Some 2"])
      (simp add: store_chunk_def open_page_def h)
  show ?thesis using q chunk_count_bounded [OF q]
    by (intro exI [of _ "[?ch (Page [1, 2, 3]) 3, ?ch (Shared [4, 5]) 2]"]) simp
qed

end
