(* ===== verification/Messages.thy ===== *)
theory Messages
  imports Limits
begin

text \<open>
  The text of the errors (\<open>Display\<close> of \<open>VarIntError\<close>, \<open>ProtoError\<close> and \<open>Error\<close>), which the runtime sends to
  the peer as the reason of a close frame, and the conversion of text to the bytes of a \<open>String\<close>.
\<close>

fun show_nat :: "nat \<Rightarrow> string" where
  "show_nat n = (if n < 10 then [char_of (48 + n)] else show_nat (n div 10) @ [char_of (48 + n mod 10)])"

declare show_nat.simps [simp del]

definition show_u64 :: "u64 \<Rightarrow> string" where
  "show_u64 w = show_nat (unat w)"

text \<open>The format \<open>{:#x}\<close> of a byte.\<close>

definition hex_digit :: "nat \<Rightarrow> char" where
  "hex_digit n = (if n < 10 then char_of (48 + n) else char_of (87 + n))"

definition show_hex :: "byte \<Rightarrow> string" where
  "show_hex b = ''0x'' @ (if unat b < 16 then [hex_digit (unat b)] else [hex_digit (unat b div 16), hex_digit (unat b mod 16)])"

fun varint_error_display :: "varint_error \<Rightarrow> string" where
  "varint_error_display (ValueTooLarge v) = ''varint value too large: '' @ show_u64 v"
| "varint_error_display VarIntUnexpectedEof = ''unexpected end of input while decoding varint''"

fun proto_error_display :: "proto_error \<Rightarrow> string" where
  "proto_error_display (VarIntErr e) = ''varint error: '' @ varint_error_display e"
| "proto_error_display UnexpectedEof = ''unexpected end of input''"
| "proto_error_display (UnknownFrameType t) = ''unknown frame type: '' @ show_hex t"
| "proto_error_display (UnsupportedFlags t flags) =
     ''unsupported flags '' @ show_hex flags @ '' for frame type '' @ show_hex t"
| "proto_error_display InvalidUtf8 = ''invalid UTF-8 in close reason''"
| "proto_error_display (TrailingBytes n) = ''trailing bytes in frame: '' @ show_nat n"
| "proto_error_display (LengthOverflow v) = ''payload length too large for platform: '' @ show_u64 v"

fun error_display :: "error \<Rightarrow> string" where
  "error_display (Io e) = ''io error: '' @ e"
| "error_display (Tls e) = ''tls error: '' @ e"
| "error_display (TlsHandshake e) = ''TLS handshake failed: '' @ e"
| "error_display (InvalidDnsName e) = ''invalid dns name: '' @ e"
| "error_display (Config e) = ''configuration error: '' @ e"
| "error_display (Protocol e) = ''protocol error: '' @ e"
| "error_display (Wire e) = ''wire protocol error: '' @ proto_error_display e"
| "error_display (LimitExceeded e) = ''limit exceeded: '' @ e"
| "error_display (InvalidLimit field reason) = ''invalid limit `'' @ field @ ''`: '' @ reason"
| "error_display (Timeout what) = what @ '' timed out''"
| "error_display StreamIdExhausted = ''stream identifier space exhausted''"
| "error_display ConnectionClosed = ''connection closed''"
| "error_display (StreamReset code) = ''stream reset with code '' @ show_u64 code"
| "error_display (EndpointRole e) = ''endpoint role mismatch: '' @ e"

definition str_bytes :: "string \<Rightarrow> rust_string" where
  "str_bytes s = map of_char s"

lemma length_str_bytes [simp]: "length (str_bytes s) = length s"
  by (simp add: str_bytes_def)

text \<open>ASCII text is valid UTF-8.\<close>

lemma utf8_valid_ascii: "list_all (\<lambda>b. b < 0x80) bs \<Longrightarrow> utf8_valid bs"
  by (induction bs rule: utf8_valid.induct) (simp_all add: utf8_tail_def)

end
