(* ===== verification/Closing.thy ===== *)
theory Closing
  imports Writer Inbound Messages
begin

text \<open>
  Closing a connection, in \<^verbatim>\<open>muxtls/src/connection.rs\<close>: the reason of the close frame and its fit into the frame
  size, \<open>initiate_close\<close>, \<open>mark_closed\<close>, \<open>abort\<close> and the handles of a connection; and \<open>max_stream_payload\<close>, the
  other computation on the frame size.
\<close>

section \<open>Model\<close>

definition ensure_open :: "'s connection \<Rightarrow> error + unit" where
  "ensure_open c = (if closed c then Inl ConnectionClosed else Inr ())"

definition validate_close_reason :: "limits \<Rightarrow> u64 \<Rightarrow> rust_string \<Rightarrow> error + unit" where
  "validate_close_reason l code reason =
     (case error_code_from_u64 code of
        Inl e \<Rightarrow> Inl (Wire e)
      | Inr error_code \<Rightarrow>
          (case length_varint (length reason) of
             Inl _ \<Rightarrow> Inl (LimitExceeded ''close reason is too large'')
           | Inr reason_len \<Rightarrow>
               (let encoded_len = 1 + error_code_encoded_len error_code + varint_encoded_len reason_len + length reason in
                if encoded_len > max_frame_size l
                then Inl (LimitExceeded (''encoded close frame size '' @ show_nat encoded_len
                       @ '' exceeds max frame size '' @ show_nat (max_frame_size l)))
                else Inr ())))"

definition fit_close_reason :: "limits \<Rightarrow> u64 \<Rightarrow> rust_string \<Rightarrow> error + rust_string" where
  "fit_close_reason l code reason =
     (if is_ok (validate_close_reason l code reason) then Inr reason
      else let fallback = str_bytes ''connection error'' in
        if is_ok (validate_close_reason l code fallback) then Inr fallback
        else case validate_close_reason l code [] of Inl e \<Rightarrow> Inl e | Inr _ \<Rightarrow> Inr [])"

definition initiate_close :: "'s sem_ops \<Rightarrow> u64 \<Rightarrow> rust_string \<Rightarrow> ('s connection, fault, unit) action" where
  "initiate_close S code reason c =
     (case fit_close_reason (limits c) code reason of
        Inl e \<Rightarrow> (Inl (Fail e), c)
      | Inr reason \<Rightarrow>
          (case error_code_from_u64 code of
             Inl e \<Rightarrow> (Inl (Fail (Wire e)), c)
           | Inr error_code \<Rightarrow>
               if closed c then (Inr (), c)
               else
                 (let c = c\<lparr>closed := True\<rparr>;
                      c = (if code \<noteq> 0
                           then drop_out_chunks S (all_chunks (writer c))
                                  (on_queues (\<lambda>q. q\<lparr>by_stream := [], ready := [], control := []\<rparr>) c)
                           else c);
                      c = on_queues (\<lambda>q. q\<lparr>close_frame := Some (ConnectionClose error_code reason),
                            graceful_close := (code = 0), closing := True\<rparr>) c
                  in (Inr (), c\<lparr>open_streams := sem_close S (open_streams c),
                        outbound_conn_bytes := sem_close S (outbound_conn_bytes c),
                        outbound_frames := sem_close S (outbound_frames c)\<rparr>))))"

definition mark_closed :: "'s sem_ops \<Rightarrow> 's connection \<Rightarrow> 's connection" where
  "mark_closed S c =
     (let c = c\<lparr>closed := True, terminated := True\<rparr> in
      if cleanup_started c then c
      else
        (let c = c\<lparr>cleanup_started := True, open_streams := sem_close S (open_streams c),
               inbound_conn_bytes := sem_close S (inbound_conn_bytes c),
               outbound_conn_bytes := sem_close S (outbound_conn_bytes c),
               outbound_frames := sem_close S (outbound_frames c)\<rparr>;
             c = writer_shutdown S c
         in c\<lparr>streams := {},
              objects := (\<lambda>i. if i \<in> streams c then map_option (mark_connection_closed S) (objects c i) else objects c i)\<rparr>))"

text \<open>\<open>Connection::close\<close>, \<open>abort\<close>, \<open>is_closed\<close>, \<open>clone\<close> and \<open>drop\<close>.\<close>

definition connection_close :: "'s sem_ops \<Rightarrow> rust_string \<Rightarrow> ('s connection, fault, unit) action" where
  "connection_close S reason c =
     (case validate_close_reason (limits c) 0 reason of
        Inl e \<Rightarrow> (Inl (Fail e), c)
      | Inr _ \<Rightarrow> initiate_close S 0 reason c)"

definition connection_abort :: "'s connection \<Rightarrow> 's connection" where
  "connection_abort c = c\<lparr>closed := True, terminated := True\<rparr>"

definition connection_is_closed :: "'s connection \<Rightarrow> bool" where
  "connection_is_closed c = closed c"

definition connection_clone :: "'s connection \<Rightarrow> 's connection" where
  "connection_clone c = c\<lparr>connection_handles := connection_handles c + 1\<rparr>"

definition connection_drop :: "'s connection \<Rightarrow> 's connection" where
  "connection_drop c = c\<lparr>connection_handles := connection_handles c - 1\<rparr>"

text \<open>One poll of \<open>wait_closed\<close> and of \<open>wait_terminated\<close>.\<close>

definition wait_closed :: "'s connection \<Rightarrow> unit poll" where
  "wait_closed c = (if joined c then Ready () else Pending)"

definition wait_terminated :: "'s connection \<Rightarrow> unit poll" where
  "wait_terminated c = (if terminated c then Ready () else Pending)"

definition record_sent :: "usize \<Rightarrow> 's connection \<Rightarrow> 's connection" where
  "record_sent payload_len c =
     c\<lparr>stats := (stats c)\<lparr>frames_sent := frames_sent (stats c) + 1, bytes_sent := bytes_sent (stats c) + as_u64 payload_len\<rparr>\<rparr>"

definition record_received :: "usize \<Rightarrow> 's connection \<Rightarrow> 's connection" where
  "record_received payload_len c =
     c\<lparr>stats := (stats c)\<lparr>frames_received := frames_received (stats c) + 1,
        bytes_received := bytes_received (stats c) + as_u64 payload_len\<rparr>\<rparr>"

text \<open>\<open>max_stream_payload\<close>: a binary search for the largest payload whose frame fits.\<close>

definition payload_fits :: "limits \<Rightarrow> u64 \<Rightarrow> usize \<Rightarrow> bool" where
  "payload_fits l sid middle =
     (case from_u64 sid of
        Inl _ \<Rightarrow> False
      | Inr stream_id \<Rightarrow>
          (case length_varint middle of
             Inl _ \<Rightarrow> False
           | Inr payload_len \<Rightarrow>
               1 + varint_encoded_len stream_id + 1 + varint_encoded_len payload_len + middle \<le> max_frame_size l))"

function payload_search :: "limits \<Rightarrow> u64 \<Rightarrow> usize \<Rightarrow> usize \<Rightarrow> usize" where
  "payload_search l sid low high =
     (if low < high then
        let middle = low + usize_div_ceil (high - low) 2 in
        if payload_fits l sid middle then payload_search l sid middle high
        else payload_search l sid low (middle - 1)
      else low)"
  by pat_completeness auto
termination
  by (relation "measure (\<lambda>(l, sid, low, high). high - low)") (auto simp: usize_div_ceil_two)

declare payload_search.simps [simp del]

definition max_stream_payload :: "limits \<Rightarrow> u64 \<Rightarrow> usize" where
  "max_stream_payload l sid =
     min (payload_search l sid 0 (min (max_frame_size l) u32_max)) (max_outbound_stream_bytes l)"

section \<open>The largest payload\<close>

lemma payload_fits_iff:
  assumes "sid \<le> varint_MAX" "n < 2 ^ 62"
  shows "payload_fits l sid n \<longleftrightarrow> 2 + varint_encoded_len (VarInt sid) + varint_encoded_len (VarInt (as_u64 n)) + n \<le> max_frame_size l"
proof -
  have "length_varint n = Inr (VarInt (as_u64 n))"
    using assms(2) length_varint_small(1) by (simp add: length_varint_def u64_try_from_usize_def as_u64_def)
  then show ?thesis using assms(1) by (simp add: payload_fits_def from_u64_Inr [THEN iffD2])
qed

lemma payload_fits_mono:
  assumes "sid \<le> varint_MAX" "n < 2 ^ 62" "payload_fits l sid n" "m \<le> n"
  shows "payload_fits l sid m"
proof -
  have "varint_encoded_len (VarInt (as_u64 m)) \<le> varint_encoded_len (VarInt (as_u64 n))"
    using assms by (intro varint_encoded_len_mono as_u64_mono) auto
  then show ?thesis using assms payload_fits_iff [of sid m l] payload_fits_iff [of sid n l] by simp
qed

text \<open>The search keeps a payload that fits below and none that fits above.\<close>

lemma payload_search_greatest:
  assumes "sid \<le> varint_MAX" "low \<le> high" "high < 2 ^ 62" "payload_fits l sid low"
  shows "low \<le> payload_search l sid low high \<and> payload_search l sid low high \<le> high
    \<and> payload_fits l sid (payload_search l sid low high)
    \<and> (\<forall>m. payload_search l sid low high < m \<and> m \<le> high \<longrightarrow> \<not> payload_fits l sid m)"
  using assms
proof (induction l sid low high rule: payload_search.induct)
  case (1 l sid low high)
  define mid where "mid = low + usize_div_ceil (high - low) 2"
  show ?case
  proof (cases "low < high")
    case False
    then show ?thesis using 1(3-6) by (auto simp: payload_search.simps)
  next
    case True
    then have mid: "low < mid" "mid \<le> high" by (auto simp: mid_def usize_div_ceil_two)
    show ?thesis
    proof (cases "payload_fits l sid mid")
      case fits: True
      have e: "payload_search l sid low high = payload_search l sid mid high"
        using True fits by (simp add: payload_search.simps [of l sid low] Let_def mid_def)
      have "mid \<le> payload_search l sid mid high \<and> payload_search l sid mid high \<le> high
          \<and> payload_fits l sid (payload_search l sid mid high)
          \<and> (\<forall>m. payload_search l sid mid high < m \<and> m \<le> high \<longrightarrow> \<not> payload_fits l sid m)"
        using 1(1) [OF True mid_def fits] 1(3,5) mid fits by blast
      then show ?thesis using e mid by auto
    next
      case fits: False
      have e: "payload_search l sid low high = payload_search l sid low (mid - 1)"
        using True fits by (simp add: payload_search.simps [of l sid low] Let_def mid_def)
      have ih: "low \<le> payload_search l sid low (mid - 1) \<and> payload_search l sid low (mid - 1) \<le> mid - 1
          \<and> payload_fits l sid (payload_search l sid low (mid - 1))
          \<and> (\<forall>m. payload_search l sid low (mid - 1) < m \<and> m \<le> mid - 1 \<longrightarrow> \<not> payload_fits l sid m)"
        using 1(2) [OF True mid_def fits] 1(3,5,6) mid by auto
      moreover have "\<not> payload_fits l sid m" if "mid \<le> m" "m \<le> high" for m
        using payload_fits_mono [OF 1(3), of m l mid] that 1(5) fits by auto
      ultimately show ?thesis using e mid by (metis le_trans less_imp_le_nat nat_le_linear diff_le_self
          not_le Suc_pred' less_Suc_eq_le le_neq_implies_less zero_less_iff_neq_zero not_less_zero)
    qed
  qed
qed

lemma max_stream_payload_iff:
  assumes "sid \<le> varint_MAX" "25 \<le> max_frame_size l" "max_frame_size l < 2 ^ 32"
  shows "n \<le> max_stream_payload l sid \<longleftrightarrow> n \<le> max_outbound_stream_bytes l \<and> n < 2 ^ 62 \<and> payload_fits l sid n"
proof -
  let ?r = "payload_search l sid 0 (min (max_frame_size l) u32_max)"
  have m: "min (max_frame_size l) u32_max = max_frame_size l" using assms(3) by (simp add: u32_max_def)
  have z: "payload_fits l sid 0"
    using payload_fits_iff [OF assms(1), of 0 l] varint_encoded_len_bounds(2) [of "VarInt sid"]
      varint_encoded_len_bounds(2) [of "VarInt (as_u64 0)"] assms(2) by simp
  have g: "?r \<le> max_frame_size l" "payload_fits l sid ?r"
    "\<And>k. ?r < k \<Longrightarrow> k \<le> max_frame_size l \<Longrightarrow> \<not> payload_fits l sid k"
    using payload_search_greatest [OF assms(1), of 0 "max_frame_size l" l] z assms(3) m by auto
  have "n \<le> max_frame_size l" if "n < 2 ^ 62" "payload_fits l sid n" using payload_fits_iff [OF assms(1) that(1)] that(2) by simp
  moreover have "n \<le> ?r \<Longrightarrow> payload_fits l sid n" using payload_fits_mono [OF assms(1) _ g(2)] g(1) assms(3) by simp
  moreover have "n \<le> ?r \<Longrightarrow> n < 2 ^ 62" using g(1) assms(3) by simp
  ultimately show ?thesis using g(3) [of n] unfolding max_stream_payload_def by (meson min.bounded_iff not_le)
qed

section \<open>Preservation of the invariants\<close>

lemma queues_inv_map:
  assumes inv: "queues_inv c"
    and objs: "\<And>i. objects c' i = map_option (g i) (objects c i)"
    and same: "writer c' = writer c" "limits c' = limits c" "c_window c' = c_window c"
    and g: "\<And>i st. s_window (g i st) = s_window st \<and> s_sent (g i st) = s_sent st
      \<and> s_peer_limit (g i st) = s_peer_limit st \<and> (send_terminal st \<longrightarrow> send_terminal (g i st))"
  shows "queues_inv c'"
proof -
  have "stream_queue_ok (limits c) i (objects c' i) chs" if "map_of (by_stream (writer c)) i = Some chs" for i chs
    using queues_invD(3) [OF inv that] g objs by (auto simp: stream_queue_ok_def split: option.splits)
  moreover have "i \<le> varint_MAX \<and> rw_inv (s_window s) \<and> stream_credit_ok (peer_initial_stream_limit (writer c)) s"
    if "objects c' i = Some s" for i s
    using that g objs queues_invD(4-6) [OF inv, of i] by (auto simp: stream_credit_ok_def)
  ultimately show ?thesis using inv same by (simp add: queues_inv_def)
qed

lemma queues_inv_on_stream:
  assumes "queues_inv c"
    and "\<And>st. s_window (f st) = s_window st \<and> s_sent (f st) = s_sent st \<and> s_peer_limit (f st) = s_peer_limit st
      \<and> (send_terminal st \<longrightarrow> send_terminal (f st))"
  shows "queues_inv (on_stream sid f c)"
  by (rule queues_inv_map [OF assms(1), where g = "\<lambda>i. if i = sid then f else id"])
    (use assms(2) in \<open>auto simp: option.map_id\<close>)

text \<open>Fields that the invariants of the queues do not read.\<close>

lemma queues_inv_fields:
  assumes "queues_inv c" "objects c' = objects c" "writer c' = writer c" "limits c' = limits c" "c_window c' = c_window c"
  shows "queues_inv c'"
  using assms by (simp add: queues_inv_def)

lemma queues_inv_sems [simp]:
  "queues_inv (c\<lparr>closed := b\<rparr>) = queues_inv c"
  "queues_inv (c\<lparr>open_streams := s\<rparr>) = queues_inv c"
  "queues_inv (c\<lparr>inbound_conn_bytes := s\<rparr>) = queues_inv c"
  "queues_inv (c\<lparr>outbound_conn_bytes := s\<rparr>) = queues_inv c"
  "queues_inv (c\<lparr>outbound_frames := s\<rparr>) = queues_inv c"
  "queues_inv (c\<lparr>stats := t\<rparr>) = queues_inv c"
  "queues_inv (c\<lparr>streams := ids\<rparr>) = queues_inv c"
  by (simp_all add: queues_inv_def)

lemma queues_inv_drop_out: "queues_inv c \<Longrightarrow> queues_inv (drop_out_chunk S ch c)"
  unfolding drop_out_chunk_def
  by (rule queues_inv_on_stream) (auto intro: queues_inv_fields)

lemma queues_inv_drop_outs: "queues_inv c \<Longrightarrow> queues_inv (drop_out_chunks S chs c)"
  by (induction chs arbitrary: c) (simp_all add: queues_inv_drop_out)

lemma queues_inv_credit_frame:
  assumes "queues_inv c" "credit_frame c c'" "rw_inv (c_window c')"
    and "\<And>sid st. objects c' sid = Some st \<Longrightarrow> rw_inv (s_window st)"
  shows "queues_inv c'"
proof -
  obtain wins sems where objs: "\<And>i. objects c' i = map_option (\<lambda>st. st\<lparr>s_window := wins i, inbound_stream_bytes := sems i\<rparr>) (objects c i)"
    using assms(2) by (auto simp: credit_frame_def)
  have "stream_queue_ok (limits c) i (objects c' i) chs" if "map_of (by_stream (writer c)) i = Some chs" for i chs
    using queues_invD(3) [OF assms(1) that] objs by (auto simp: stream_queue_ok_def split: option.splits)
  moreover have "i \<le> varint_MAX \<and> rw_inv (s_window s) \<and> stream_credit_ok (peer_initial_stream_limit (writer c)) s"
    if "objects c' i = Some s" for i s
    using that objs queues_invD(4-6) [OF assms(1), of i] assms(4) [OF that] by (auto simp: stream_credit_ok_def)
  ultimately show ?thesis using assms(1,3) credit_frameD [OF assms(2)] by (simp add: queues_inv_def)
qed

lemma fit_close_reason_ok:
  assumes l: "25 \<le> max_frame_size l" and code: "code \<le> varint_MAX" and u: "utf8_valid reason"
  obtains r where "fit_close_reason l code reason = Inr r" "r = reason \<or> r = str_bytes ''connection error'' \<or> r = []"
    "wf_frame (ConnectionClose (ErrorCode (VarInt code)) r)"
    "length (frame_bytes (ConnectionClose (ErrorCode (VarInt code)) r)) \<le> max_frame_size l"
proof -
  have ec: "error_code_from_u64 code = Inr (ErrorCode (VarInt code))"
    using code by (simp add: error_code_from_u64_def from_u64_Inr [THEN iffD2])
  have v: "length s < 2 ^ 62 \<and> length (frame_bytes (ConnectionClose (ErrorCode (VarInt code)) s)) \<le> max_frame_size l"
    if valid: "is_ok (validate_close_reason l code s)" for s
  proof -
    obtain x where x: "length_varint (length s) = Inr x"
      using valid by (cases "length_varint (length s)") (simp_all add: validate_close_reason_def ec)
    then have len: "length s < 2 ^ 62" "x = VarInt (as_u64 (length s))"
      by (auto simp: length_varint_def u64_try_from_usize_def from_u64_Inr map_err_def as_u64_def
          word_le_nat_alt unat_varint_MAX unat_of_nat take_bit_eq_mod split: if_splits sum.splits)
    show ?thesis using valid x len
      by (auto simp: validate_close_reason_def ec Let_def sized_bytes_def encoded_len_lengths split: if_splits)
  qed
  have fb: "utf8_valid (str_bytes ''connection error'')" by (rule utf8_valid_ascii) (simp add: str_bytes_def)
  have nil: "is_ok (validate_close_reason l code [])"
    using l varint_encoded_len_bounds(2) [of "VarInt code"]
    by (simp add: validate_close_reason_def ec length_varint_def u64_try_from_usize_def from_u64_def
        error_code_encoded_len_def varint_encoded_len_def [of "VarInt 0"])
  define r where "r = (if is_ok (validate_close_reason l code reason) then reason
     else if is_ok (validate_close_reason l code (str_bytes ''connection error'')) then str_bytes ''connection error'' else [])"
  have "fit_close_reason l code reason = Inr r"
    using nil by (auto simp: fit_close_reason_def r_def Let_def is_ok_def split: sum.splits)
  moreover have "is_ok (validate_close_reason l code r)" using nil by (simp add: r_def)
  ultimately show thesis
    using that [of r] v [of r] u fb code by (auto simp: r_def wf_varint_def split: if_splits)
qed

lemma queues_inv_initiate_close:
  assumes inv: "queues_inv c" and code: "code \<le> varint_MAX" and u: "utf8_valid reason"
  shows "fst (initiate_close S code reason c) = Inr ()" "queues_inv (snd (initiate_close S code reason c))"
proof -
  obtain r where r: "fit_close_reason (limits c) code reason = Inr r"
    "wf_frame (ConnectionClose (ErrorCode (VarInt code)) r)"
    "length (frame_bytes (ConnectionClose (ErrorCode (VarInt code)) r)) \<le> max_frame_size (limits c)"
    using fit_close_reason_ok [OF queues_invD(11) [OF inv] code u] by metis
  have ec: "error_code_from_u64 code = Inr (ErrorCode (VarInt code))"
    using code by (simp add: error_code_from_u64_def from_u64_Inr [THEN iffD2])
  show "fst (initiate_close S code reason c) = Inr ()"
    using r by (simp add: initiate_close_def ec Let_def)
  let ?set = "\<lambda>c. on_queues (\<lambda>q. q\<lparr>close_frame := Some (ConnectionClose (ErrorCode (VarInt code)) r),
      graceful_close := (code = 0), closing := True\<rparr>) c"
  have set_inv: "queues_inv (?set a)" if "queues_inv a" "limits a = limits c" for a
    using that r by (simp add: queues_inv_def ready_ok_def control_ok_def del: frame_bytes.simps wf_frame.simps)
  have "queues_inv (on_queues (\<lambda>q. q\<lparr>by_stream := [], ready := [], control := []\<rparr>) c)"
    using inv by (simp add: queues_inv_def ready_ok_def control_ok_def cong: option.case_cong)
  then have "queues_inv (drop_out_chunks S (all_chunks (writer c)) (on_queues (\<lambda>q. q\<lparr>by_stream := [], ready := [], control := []\<rparr>) (c\<lparr>closed := True\<rparr>)))"
    by (intro queues_inv_drop_outs) (auto simp: on_queues_def elim: queues_inv_fields)
  moreover have "queues_inv (c\<lparr>closed := True\<rparr>)" by (rule queues_inv_fields [OF inv]) simp_all
  ultimately show "queues_inv (snd (initiate_close S code reason c))"
    using r(1) inv ec set_inv [of "c\<lparr>closed := True\<rparr>"]
      set_inv [of "drop_out_chunks S (all_chunks (writer c)) (on_queues (\<lambda>q. q\<lparr>by_stream := [], ready := [], control := []\<rparr>) (c\<lparr>closed := True\<rparr>))"]
    by (cases "code = 0") (simp_all add: initiate_close_def Let_def)
qed

lemma queues_inv_mark_closed:
  assumes inv: "queues_inv c"
  shows "queues_inv (mark_closed S c)"
proof (cases "cleanup_started c")
  case True
  then show ?thesis by (auto simp: mark_closed_def intro: queues_inv_fields [OF inv])
next
  case False
  let ?c1 = "c\<lparr>closed := True, terminated := True, cleanup_started := True, open_streams := sem_close S (open_streams c),
               inbound_conn_bytes := sem_close S (inbound_conn_bytes c),
               outbound_conn_bytes := sem_close S (outbound_conn_bytes c),
               outbound_frames := sem_close S (outbound_frames c)\<rparr>"
  have "queues_inv ?c1" by (rule queues_inv_fields [OF inv]) simp_all
  then have "queues_inv (on_queues (\<lambda>q. q\<lparr>by_stream := [], ready := [], control := [], receive_windows := {},
          close_frame := None, graceful_close := False, closing := True\<rparr>) ?c1)"
    by (simp add: queues_inv_def ready_ok_def control_ok_def)
  then have "queues_inv (writer_shutdown S ?c1)"
    unfolding writer_shutdown_def by (rule queues_inv_drop_outs)
  then have "queues_inv ((writer_shutdown S ?c1)\<lparr>streams := {}, objects := (\<lambda>i. if i \<in> streams (writer_shutdown S ?c1)
      then map_option (mark_connection_closed S) (objects (writer_shutdown S ?c1) i) else objects (writer_shutdown S ?c1) i)\<rparr>)"
    by (rule queues_inv_map [where g = "\<lambda>i. if i \<in> streams (writer_shutdown S ?c1) then mark_connection_closed S else id"])
      (simp_all add: mark_connection_closed_def option.map_id)
  then show ?thesis using False by (simp add: mark_closed_def Let_def)
qed

section \<open>A new connection\<close>

lemma connection_new_valid:
  assumes "connection_new S m l is_client certs = Inr c"
  shows "valid_limits m l" "limits c = l" "objects c = Map.empty" "streams c = {}"
    "c_window c = rw_new (max_inbound_connection_bytes l)"
    "inbound_conn_bytes c = sem_new S (max_inbound_connection_bytes l)"
    "writer c = queues_new\<lparr>control := [Settings (VarInt (as_u64 (max_inbound_connection_bytes l)))
        (VarInt (as_u64 (max_inbound_stream_bytes l))) (VarInt (as_u64 (max_frame_size l)))]\<rparr>"
proof -
  have "validate m l = Inr ()" using assms by (auto simp: connection_new_def split: sum.splits)
  then show v: "valid_limits m l" by (simp add: validate_iff)
  show "limits c = l" "objects c = Map.empty" "streams c = {}" "c_window c = rw_new (max_inbound_connection_bytes l)"
    "inbound_conn_bytes c = sem_new S (max_inbound_connection_bytes l)"
    "writer c = queues_new\<lparr>control := [Settings (VarInt (as_u64 (max_inbound_connection_bytes l)))
        (VarInt (as_u64 (max_inbound_stream_bytes l))) (VarInt (as_u64 (max_frame_size l)))]\<rparr>"
    using assms settings_frame_valid [OF v] by (auto simp: connection_new_def Let_def split: sum.splits)
qed

lemma connection_new_ok:
  assumes "validate m l = Inr ()"
  shows "\<exists>c. connection_new S m l is_client certs = Inr c \<and> \<not> closed c"
  using assms settings_frame_valid [of m l] by (simp add: connection_new_def validate_iff [symmetric] Let_def)

lemma queues_inv_new:
  assumes "connection_new S m l is_client certs = Inr c"
  shows "queues_inv c"
proof -
  note n = connection_new_valid [OF assms]
  have b: "max_frame_size l < 2 ^ 32" "max_inbound_stream_bytes l < 2 ^ 32" "max_inbound_connection_bytes l < 2 ^ 32"
      "25 \<le> max_frame_size l" "2 \<le> max_control_frames l"
    using n(1) by (auto simp: valid_limits_def)
  have v: "wf_varint (VarInt (as_u64 k))" if "k < 2 ^ 32" for k :: nat
    using that by (simp add: wf_varint_unat unat_as_u64)
  show ?thesis
    using b v rw_inv_new [of "max_inbound_connection_bytes l"]
    by (simp add: queues_inv_def n(2-) ready_ok_def control_ok_def queues_new_def MIN_FRAME_SIZE_def)
qed

section \<open>Closing and the inbound accounts\<close>

context semaphore
begin

lemma inbound_inv_map:
  assumes inv: "inbound_inv free waiting out c"
    and objs: "\<And>i. objects c' i = map_option (g i) (objects c i)"
    and same: "limits c' = limits c" "c_window c' = c_window c"
      "free (inbound_conn_bytes c') = free (inbound_conn_bytes c)" "\<not> waiting (inbound_conn_bytes c')"
    and g: "\<And>i st. s_window (g i st) = s_window st \<and> chunks (inbound (g i st)) = chunks (inbound st)
      \<and> free (inbound_stream_bytes (g i st)) = free (inbound_stream_bytes st)
      \<and> (\<not> waiting (inbound_stream_bytes st) \<longrightarrow> \<not> waiting (inbound_stream_bytes (g i st)))"
  shows "inbound_inv free waiting out c'"
proof -
  have dom: "dom (objects c') = dom (objects c)" using objs by (auto simp: dom_def)
  have "stream_load (the (objects c' i)) = stream_load (the (objects c i))" if "i \<in> dom (objects c)" for i
    using that objs g by (auto simp: stream_load_def)
  then have "inbound_load out c' = inbound_load out c" unfolding inbound_load_def dom by (intro sum.cong) auto
  moreover have "stream_account free waiting (out i) (max_inbound_stream_bytes (limits c)) st'"
    if some: "objects c' i = Some st'" for i st'
  proof -
    obtain st where st: "objects c i = Some st" "st' = g i st" using some objs by auto
    show ?thesis using inbound_invD(3) [OF inv st(1)] g [of i st] by (simp add: st(2) stream_account_def stream_load_def)
  qed
  moreover have "out i = 0" if "objects c' i = None" for i
    using that inv objs by (auto simp: inbound_inv_def)
  ultimately show ?thesis using inv dom same by (simp add: inbound_inv_def conn_account_def)
qed

lemma inbound_inv_on_stream_out:
  assumes "inbound_inv free waiting out c"
    and "\<And>st. s_window (f st) = s_window st \<and> inbound_stream_bytes (f st) = inbound_stream_bytes st
      \<and> chunks (inbound (f st)) = chunks (inbound st)"
    and "objects c' = objects (on_stream sid f c)" "limits c' = limits c" "c_window c' = c_window c"
      "inbound_conn_bytes c' = inbound_conn_bytes c"
  shows "inbound_inv free waiting out c'"
  by (rule inbound_inv_map [OF assms(1), where g = "\<lambda>i. if i = sid then f else id"])
    (use assms inbound_invD(2) [OF assms(1)] in \<open>auto simp: option.map_id conn_account_def\<close>)

lemma inbound_inv_fields:
  assumes "inbound_inv free waiting out c" "objects c' = objects c" "limits c' = limits c" "c_window c' = c_window c"
    "inbound_conn_bytes c' = inbound_conn_bytes c"
  shows "inbound_inv free waiting out c'"
  using assms by (simp add: inbound_inv_def conn_account_def inbound_load_def)

lemma inbound_inv_drop_outs:
  "inbound_inv free waiting out c \<Longrightarrow> inbound_inv free waiting out (drop_out_chunks S chs c)"
proof (induction chs arbitrary: c)
  case (Cons ch chs)
  have "inbound_inv free waiting out (drop_out_chunk S ch c)"
    by (rule inbound_inv_on_stream_out [OF Cons.prems, where sid = "out_state ch"
          and f = "\<lambda>st. st\<lparr>outbound_stream_frames := sem_release S (stream_frame_permit ch) (outbound_stream_frames st),
            outbound_stream_bytes := sem_release S (held (out_stream_permit ch)) (outbound_stream_bytes st)\<rparr>"])
      (simp_all add: drop_out_chunk_def on_stream_def)
  then show ?case using Cons.IH by simp
qed simp

lemma inbound_inv_new:
  assumes "connection_new S m l is_client certs = Inr c"
  shows "inbound_inv free waiting (\<lambda>_. 0) c"
proof -
  note n = connection_new_valid [OF assms]
  have "max_inbound_connection_bytes l < 2 ^ 32" using n(1) by (simp add: valid_limits_def)
  then show ?thesis
    using rw_inv_new [of "max_inbound_connection_bytes l"] new_idle
    by (simp add: inbound_inv_def n(2-6) conn_account_def inbound_load_def rw_new_def unat_as_u64)
qed

lemma inbound_inv_initiate_close:
  assumes inv: "inbound_inv free waiting out c"
  shows "inbound_inv free waiting out (snd (initiate_close S code reason c))"
proof -
  have o: "inbound_inv free waiting out (on_queues f a) = inbound_inv free waiting out a"
      "inbound_inv free waiting out (a\<lparr>closed := b\<rparr>) = inbound_inv free waiting out a"
      "inbound_inv free waiting out (a\<lparr>open_streams := x, outbound_conn_bytes := y, outbound_frames := z\<rparr>)
        = inbound_inv free waiting out a"
    for f a b x y z
    by (simp_all add: inbound_inv_def conn_account_def inbound_load_def)
  show ?thesis
    using inv by (simp add: initiate_close_def Let_def o inbound_inv_drop_outs split: sum.split)
qed

lemma inbound_inv_mark_closed:
  assumes inv: "inbound_inv free waiting out c"
  shows "inbound_inv free waiting out (mark_closed S c)"
proof (cases "cleanup_started c")
  case True
  then show ?thesis by (auto simp: mark_closed_def intro: inbound_inv_fields [OF inv])
next
  case False
  let ?c1 = "c\<lparr>closed := True, terminated := True, cleanup_started := True, open_streams := sem_close S (open_streams c),
               inbound_conn_bytes := sem_close S (inbound_conn_bytes c),
               outbound_conn_bytes := sem_close S (outbound_conn_bytes c),
               outbound_frames := sem_close S (outbound_frames c)\<rparr>"
  have c1: "inbound_inv free waiting out ?c1"
    by (rule inbound_inv_map [OF inv, where g = "\<lambda>_. id"]) (simp_all add: close_idle option.map_id)
  have ws: "inbound_inv free waiting out (writer_shutdown S ?c1)"
    unfolding writer_shutdown_def by (intro inbound_inv_drop_outs) (rule inbound_inv_fields [OF c1], simp_all)
  then have "\<not> waiting (inbound_conn_bytes (writer_shutdown S ?c1))"
    using inbound_invD(2) [OF ws] by (simp add: conn_account_def)
  then have "inbound_inv free waiting out ((writer_shutdown S ?c1)\<lparr>streams := {}, objects := (\<lambda>i. if i \<in> streams (writer_shutdown S ?c1)
      then map_option (mark_connection_closed S) (objects (writer_shutdown S ?c1) i) else objects (writer_shutdown S ?c1) i)\<rparr>)"
    by (intro inbound_inv_map [OF ws, where g = "\<lambda>i. if i \<in> streams (writer_shutdown S ?c1) then mark_connection_closed S else id"])
      (simp_all add: mark_connection_closed_def option.map_id close_idle)
  then show ?thesis using False by (simp add: mark_closed_def Let_def)
qed

end

section \<open>Properties\<close>

text \<open>C19 (equivalence): the binary search of \<^verbatim>\<open>max_stream_payload\<close> ends and is exact. A payload is at most its
  result if and only if it is within the outbound stream budget and its frame, as \<open>Frame::encoded_len\<close> computes
  it, fits the frame size. With validated limits at least one byte always fits, so a writer always makes progress.\<close>

theorem max_stream_payload_exact:
  assumes "valid_limits m l" "sid \<le> varint_MAX" "length p < 2 ^ 62"
  shows "(length p \<le> max_stream_payload l sid \<longleftrightarrow> length p \<le> max_outbound_stream_bytes l
      \<and> (\<exists>k. frame_encoded_len (Stream (VarInt sid) fin p) = Inr k \<and> k \<le> max_frame_size l))
    \<and> 1 \<le> max_stream_payload l sid"
proof -
  have l: "25 \<le> max_frame_size l" "max_frame_size l < 2 ^ 32" "1 \<le> max_outbound_stream_bytes l"
    using assms(1) by (auto simp: valid_limits_def)
  have "wf_frame (Stream (VarInt sid) fin p)" using assms(2,3) by (simp add: wf_varint_def)
  then have "frame_encoded_len (Stream (VarInt sid) fin p) = Inr (2 + varint_encoded_len (VarInt sid)
      + varint_encoded_len (VarInt (as_u64 (length p))) + length p)"
    using frame_encoded_len_exact stream_frame_length by metis
  moreover have "payload_fits l sid 1"
    using payload_fits_iff [OF assms(2), of 1 l] varint_encoded_len_bounds(2) [of "VarInt sid"]
      varint_encoded_len_bounds(2) [of "VarInt (as_u64 1)"] l(1) by simp
  ultimately show ?thesis
    using max_stream_payload_iff [OF assms(2) l(1,2)] payload_fits_iff [OF assms(2,3)] l(3) assms(3) by simp
qed

theorem max_stream_payload_exact_witness:
  "length [1, 2, 3 :: byte] \<le> max_stream_payload default_limits 4"
proof -
  have "validate 4194304 default_limits = Inr ()" by (rule default_limits_valid) simp
  then have v: "valid_limits 4194304 default_limits" by (simp add: validate_iff)
  have "frame_encoded_len (Stream (VarInt 4) False [1, 2, 3]) = Inr 7"
    by (simp add: length_varint_def u64_try_from_usize_def from_u64_def varint_MAX_def varint_encoded_len_def)
  moreover have "(4::u64) \<le> varint_MAX" by (simp add: varint_MAX_def)
  ultimately show ?thesis
    using max_stream_payload_exact [OF v, of 4 "[1, 2, 3]" False] by (simp add: default_limits_def)
qed

text \<open>C17 (functional): a close request is never lost. With a frame size of at least 25 and an error code in
  range, \<^verbatim>\<open>initiate_close\<close> succeeds for every reason; on an open connection it queues a close frame that fits
  the local frame size, carrying the given reason if that fits and the fallback text or an empty reason otherwise.
  Queued data survives exactly when the close is graceful (code 0). A second call changes nothing.\<close>

theorem close_is_queued:
  assumes "queues_inv c" "code \<le> varint_MAX" "utf8_valid reason"
  shows "fst (initiate_close S code reason c) = Inr ()
    \<and> (closed c \<longrightarrow> snd (initiate_close S code reason c) = c)
    \<and> (\<not> closed c \<longrightarrow> (\<exists>r n. close_frame (writer (snd (initiate_close S code reason c))) = Some (ConnectionClose (ErrorCode (VarInt code)) r)
         \<and> r \<in> {reason, str_bytes ''connection error'', []}
         \<and> frame_encoded_len (ConnectionClose (ErrorCode (VarInt code)) r) = Inr n \<and> n \<le> max_frame_size (limits c)
         \<and> by_stream (writer (snd (initiate_close S code reason c))) = (if code = 0 then by_stream (writer c) else [])
         \<and> closed (snd (initiate_close S code reason c)) \<and> closing (writer (snd (initiate_close S code reason c)))))"
proof -
  obtain r where r: "fit_close_reason (limits c) code reason = Inr r"
    "r = reason \<or> r = str_bytes ''connection error'' \<or> r = []"
    "wf_frame (ConnectionClose (ErrorCode (VarInt code)) r)"
    "length (frame_bytes (ConnectionClose (ErrorCode (VarInt code)) r)) \<le> max_frame_size (limits c)"
    by (rule fit_close_reason_ok [OF queues_invD(11) [OF assms(1)] assms(2,3)])
  have ec: "error_code_from_u64 code = Inr (ErrorCode (VarInt code))"
    using assms(2) by (simp add: error_code_from_u64_def from_u64_Inr [THEN iffD2])
  let ?c = "snd (initiate_close S code reason c)"
  have ok: "fst (initiate_close S code reason c) = Inr ()" "closed c \<Longrightarrow> ?c = c"
    by (simp_all add: initiate_close_def Let_def r(1) ec)
  have f: "close_frame (writer ?c) = Some (ConnectionClose (ErrorCode (VarInt code)) r)"
      "by_stream (writer ?c) = (if code = 0 then by_stream (writer c) else [])" "closed ?c" "closing (writer ?c)"
    if "\<not> closed c"
    using that by (simp_all add: initiate_close_def Let_def r(1) ec)
  have n: "frame_encoded_len (ConnectionClose (ErrorCode (VarInt code)) r) =
      Inr (length (frame_bytes (ConnectionClose (ErrorCode (VarInt code)) r)))"
    by (rule frame_encoded_len_exact [OF r(3)])
  have "r \<in> {reason, str_bytes ''connection error'', []}" using r(2) by blast
  with ok f n r(4) show ?thesis by blast
qed

theorem close_is_queued_witness:
  "\<exists>c c'. connection_new counting_ops 4194304 default_limits True None = Inr c
     \<and> initiate_close counting_ops 0 [100, 111, 110, 101] c = (Inr (), c') \<and> closing (writer c')"
proof -
  have "validate 4194304 default_limits = Inr ()" by (rule default_limits_valid) simp
  then obtain c where c: "connection_new counting_ops 4194304 default_limits True None = Inr c" "\<not> closed c"
    using connection_new_ok by blast
  have "utf8_valid [100, 111, 110, 101]" by (simp add: utf8_tail_def)
  then show ?thesis
    using close_is_queued [OF queues_inv_new [OF c(1)], of 0 "[100, 111, 110, 101]" counting_ops] c
    by (auto simp: prod_eq_iff)
qed

end
