(* ===== verification/Streams.thy ===== *)
theory Streams
  imports Closing
begin

text \<open>
  The life of a stream in \<^verbatim>\<open>muxtls/src/connection.rs\<close>: stream identifiers, opening from either side, the frames
  of the peer for one stream, reset, the drop of the application's handles, and retirement from the table.
\<close>

section \<open>Model\<close>

text \<open>\<open>fetch_update\<close> on the counter: the identifier taken and the new counter.\<close>

definition take_stream_id :: "u64 \<Rightarrow> (error + u64) \<times> u64" where
  "take_stream_id next_id = (if next_id \<le> varint_MAX then (Inr next_id, next_id + 2) else (Inl StreamIdExhausted, next_id))"

definition ensure_peer_send_open :: "'s stream_state \<Rightarrow> u64 \<Rightarrow> string \<Rightarrow> error + unit" where
  "ensure_peer_send_open st stream_id frame =
     (if recv_terminal st
      then Inl (Protocol (frame @ '' after peer send side closed for stream id '' @ show_u64 stream_id))
      else Inr ())"

definition frames_per_stream :: "limits \<Rightarrow> usize" where
  "frames_per_stream l = max_queued_outbound_frames l div max_open_streams l"

text \<open>Creating the state of a stream and publishing it in the table and to the writer.\<close>

definition register_stream :: "'s sem_ops \<Rightarrow> u64 \<Rightarrow> 's connection \<Rightarrow> 's connection" where
  "register_stream S sid c =
     on_queues (\<lambda>q. q\<lparr>receive_windows := insert sid (receive_windows q)\<rparr>)
       (c\<lparr>objects := (objects c)(sid \<mapsto> stream_state_new S (max_inbound_stream_bytes (limits c))
              (max_outbound_stream_bytes (limits c)) 1 (frames_per_stream (limits c))),
          streams := insert sid (streams c)\<rparr>)"

definition count_opened :: "'s connection \<Rightarrow> 's connection" where
  "count_opened c = c\<lparr>stats := (stats c)\<lparr>opened_streams := opened_streams (stats c) + 1\<rparr>\<rparr>"

text \<open>\<open>SendStream::new\<close> and \<open>RecvStream::new\<close> count the handles of a stream.\<close>

definition add_handles :: "u64 \<Rightarrow> 's connection \<Rightarrow> 's connection" where
  "add_handles sid c = on_stream sid (\<lambda>st. st\<lparr>send_handles := send_handles st + 1, recv_handles := recv_handles st + 1\<rparr>) c"

text \<open>\<open>open_bi\<close> waits for its lock and then for a permit; the stages are where a poll resumes.\<close>

datatype open_stage = OpenStart | OpenLock | OpenPermit

definition open_finish :: "'s sem_ops \<Rightarrow> 's connection \<Rightarrow> (fault + u64) \<times> 's connection" where
  "open_finish S c =
     (let give_back = (\<lambda>c. c\<lparr>open_streams := sem_release S 1 (open_streams c)\<rparr>) in
      if closed c then (Inl (Fail ConnectionClosed), give_back c)
      else if closing (writer c) \<or> length (control (writer c)) \<ge> max_control_frames (limits c)
      then (Inl (Fail ConnectionClosed), give_back (mark_closed S c))
      else case take_stream_id (next_local_stream_id c) of
        (Inl e, _) \<Rightarrow> (Inl (Fail e), give_back c)
      | (Inr sid, next_id) \<Rightarrow>
          (let c = c\<lparr>next_local_stream_id := next_id\<rparr> in
           case from_u64 sid of
             Inl e \<Rightarrow> (Inl (Fail (Protocol (varint_error_display e))), give_back c)
           | Inr stream_id \<Rightarrow>
               (let c = on_queues (\<lambda>q. q\<lparr>control := control q @ [OpenStream stream_id]\<rparr>) c
                in (Inr sid, add_handles sid (count_opened (register_stream S sid c))))))"

definition open_permit_stage :: "'s sem_ops \<Rightarrow> 's connection \<Rightarrow> ((fault + u64) + open_stage) \<times> 's connection" where
  "open_permit_stage S c =
     (case sem_poll_acquire S 1 (open_streams c) of
        (Granted, s) \<Rightarrow>
          (let (r, c) = open_finish S (c\<lparr>open_streams := s\<rparr>) in (Inl r, c\<lparr>open_locked := False\<rparr>))
      | (Unavailable, s) \<Rightarrow> (Inr OpenPermit, c\<lparr>open_streams := s\<rparr>)
      | (SemClosed, s) \<Rightarrow> (Inl (Inl (Fail ConnectionClosed)), c\<lparr>open_streams := s, open_locked := False\<rparr>))"

definition open_lock_stage :: "'s sem_ops \<Rightarrow> 's connection \<Rightarrow> ((fault + u64) + open_stage) \<times> 's connection" where
  "open_lock_stage S c =
     (if open_locked c then (Inr OpenLock, c)
      else case ensure_open c of
        Inl e \<Rightarrow> (Inl (Inl (Fail e)), c)
      | Inr _ \<Rightarrow> open_permit_stage S (c\<lparr>open_locked := True\<rparr>))"

fun poll_open_bi :: "'s sem_ops \<Rightarrow> open_stage \<Rightarrow> 's connection \<Rightarrow> ((fault + u64) + open_stage) \<times> 's connection" where
  "poll_open_bi S OpenStart c =
     (case ensure_open c of Inl e \<Rightarrow> (Inl (Inl (Fail e)), c) | Inr _ \<Rightarrow> open_lock_stage S c)"
| "poll_open_bi S OpenLock c = open_lock_stage S c"
| "poll_open_bi S OpenPermit c = open_permit_stage S c"

text \<open>Cancellation of a pending \<open>open_bi\<close>.\<close>

fun drop_open :: "open_stage \<Rightarrow> 's connection \<Rightarrow> 's connection" where
  "drop_open OpenPermit c = c\<lparr>open_locked := False\<rparr>"
| "drop_open _ c = c"

text \<open>One pass of the loop of \<open>accept_bi\<close>.\<close>

definition accept_bi :: "'s connection \<Rightarrow> (fault + u64) poll \<times> 's connection" where
  "accept_bi c =
     (case ensure_open c of
        Inl e \<Rightarrow> (Ready (Inl (Fail e)), c)
      | Inr _ \<Rightarrow>
          (case incoming_streams c of
             sid # rest \<Rightarrow> (Ready (Inr sid), add_handles sid (c\<lparr>incoming_streams := rest\<rparr>))
           | [] \<Rightarrow> (Pending, c)))"

definition try_retire_stream :: "'s sem_ops \<Rightarrow> u64 \<Rightarrow> 's connection \<Rightarrow> 's connection" where
  "try_retire_stream S sid c =
     (if sid \<notin> streams c then c
      else case objects c sid of
        None \<Rightarrow> c
      | Some st \<Rightarrow>
          if \<not> send_complete st \<or> \<not> recv_terminal st then c
          else
            (let c = release_open_permit S sid c in
             if sid \<in> streams c \<and> send_terminal st \<and> recv_terminal st
             then on_queues (\<lambda>q. q\<lparr>receive_windows := receive_windows q - {sid}\<rparr>) (c\<lparr>streams := streams c - {sid}\<rparr>)
             else c))"

definition lookup_stream :: "u64 \<Rightarrow> 's connection \<Rightarrow> 's stream_state option" where
  "lookup_stream sid c = (if sid \<in> streams c then objects c sid else None)"

definition receive_both :: "u64 \<Rightarrow> usize \<Rightarrow> ('s connection, fault, unit) action" where
  "receive_both sid n c =
     (case rw_receive n (c_window c) of
        (Inl e, w) \<Rightarrow> (Inl (Fail e), c\<lparr>c_window := w\<rparr>)
      | (Inr _, w) \<Rightarrow>
          (let c = c\<lparr>c_window := w\<rparr> in
           case objects c sid of
             None \<Rightarrow> (Inl Panicked, c)
           | Some st \<Rightarrow>
               (case rw_receive n (s_window st) of
                  (Inl e, w) \<Rightarrow> (Inl (Fail e), on_stream sid (\<lambda>st. st\<lparr>s_window := w\<rparr>) c)
                | (Inr _, w) \<Rightarrow> (Inr (), on_stream sid (\<lambda>st. st\<lparr>s_window := w\<rparr>) c))))"

definition on_remote_stream_frame ::
  "'s sem_ops \<Rightarrow> u64 \<Rightarrow> bytes \<Rightarrow> bool \<Rightarrow> ('s connection, fault, unit) action" where
  "on_remote_stream_frame S sid payload fin c =
     (case lookup_stream sid c of
        None \<Rightarrow> (Inl (Fail (Protocol (''data for unknown stream id '' @ show_u64 sid))), c)
      | Some st \<Rightarrow>
          (case ensure_peer_send_open st sid ''stream frame'' of
             Inl e \<Rightarrow> (Inl (Fail e), c)
           | Inr _ \<Rightarrow>
               and_then (receive_both sid (length payload)) (\<lambda>_.
               and_then (if payload \<noteq> [] then push_inbound S sid payload else ok ()) (\<lambda>_ c.
                 (Inr (), if fin then try_retire_stream S sid (mark_recv_terminal sid c) else c))) c))"

definition on_remote_reset :: "'s sem_ops \<Rightarrow> u64 \<Rightarrow> u64 \<Rightarrow> ('s connection, fault, unit) action" where
  "on_remote_reset S sid code c =
     (case lookup_stream sid c of
        None \<Rightarrow> (Inl (Fail (Protocol (''reset for unknown stream id '' @ show_u64 sid))), c)
      | Some st \<Rightarrow>
          (case ensure_peer_send_open st sid ''reset'' of
             Inl e \<Rightarrow> (Inl (Fail e), c)
           | Inr _ \<Rightarrow> (Inr (), try_retire_stream S sid (mark_recv_terminal sid (mark_reset S sid code c)))))"

definition on_remote_open :: "'s sem_ops \<Rightarrow> u64 \<Rightarrow> ('s connection, fault, unit) action" where
  "on_remote_open S sid c =
     (if sid mod 2 = local_parity c
      then (Inl (Fail (Protocol (''peer opened stream with invalid parity: '' @ show_u64 sid))), c)
      else if sid \<noteq> next_remote_stream_id c
      then (Inl (Fail (Protocol (''expected peer stream id '' @ show_u64 (next_remote_stream_id c)
              @ '', received '' @ show_u64 sid))), c)
      else case sem_try_acquire S 1 (open_streams c) of
        (Granted, s) \<Rightarrow>
          (let c = c\<lparr>open_streams := s\<rparr> in
           if sid \<in> streams c
           then (Inl (Fail (Protocol (''peer reused active stream id '' @ show_u64 sid))),
                 c\<lparr>open_streams := sem_release S 1 (open_streams c)\<rparr>)
           else
             (let c = count_opened ((register_stream S sid c)\<lparr>next_remote_stream_id := sid + 2\<rparr>) in
              if length (incoming_streams c) \<ge> max_open_streams (limits c)
              then (Inl (Fail (LimitExceeded ''incoming stream queue is full'')), c)
              else (Inr (), c\<lparr>incoming_streams := incoming_streams c @ [sid]\<rparr>)))
      | (_, s) \<Rightarrow> (Inl (Fail (LimitExceeded ''max open streams reached'')), c\<lparr>open_streams := s\<rparr>))"

text \<open>\<open>by_stream.remove\<close> and \<open>ready.retain\<close>.\<close>

definition remove_queue :: "'s sem_ops \<Rightarrow> u64 \<Rightarrow> 's connection \<Rightarrow> 's connection" where
  "remove_queue S sid c =
     drop_out_chunks S (queue_of sid (writer c))
       (on_queues (\<lambda>q. q\<lparr>by_stream := AList.delete sid (by_stream q), ready := filter (\<lambda>i. i \<noteq> sid) (ready q)\<rparr>) c)"

definition reset_stream :: "'s sem_ops \<Rightarrow> u64 \<Rightarrow> u64 \<Rightarrow> ('s connection, fault, unit) action" where
  "reset_stream S sid code c =
     (case ensure_open c of
        Inl e \<Rightarrow> (Inl (Fail e), c)
      | Inr _ \<Rightarrow>
          (case from_u64 sid of
             Inl e \<Rightarrow> (Inl (Fail (Protocol (varint_error_display e))), c)
           | Inr stream_id \<Rightarrow>
               (case error_code_from_u64 code of
                  Inl e \<Rightarrow> (Inl (Fail (Wire e)), c)
                | Inr error_code \<Rightarrow>
                    (case objects c sid of
                       None \<Rightarrow> (Inl Panicked, c)
                     | Some st \<Rightarrow>
                         if send_dispatched st \<or> reset_queued st then (Inr (), c)
                         else if closing (writer c) \<or> length (control (writer c)) \<ge> max_control_frames (limits c)
                         then (Inl (Fail ConnectionClosed), c)
                         else
                           (let c = on_stream sid (\<lambda>st. st\<lparr>reset_queued := True\<rparr>) c;
                                c = remove_queue S sid c;
                                c = on_queues (\<lambda>q. q\<lparr>control := control q @ [ResetStream stream_id error_code]\<rparr>) c
                            in (Inr (), on_stream sid (\<lambda>st. st\<lparr>send_terminal := True,
                                  outbound_stream_bytes := sem_close S (outbound_stream_bytes st)\<rparr>) c))))))"

definition handle_last_send_drop :: "'s sem_ops \<Rightarrow> u64 \<Rightarrow> 's connection \<Rightarrow> 's connection" where
  "handle_last_send_drop S sid c =
     (let c = (case objects c sid of
                 None \<Rightarrow> c
               | Some st \<Rightarrow> if \<not> send_terminal st then snd (reset_stream S sid 0 c) else c)
      in try_retire_stream S sid c)"

definition handle_last_recv_drop :: "'s sem_ops \<Rightarrow> u64 \<Rightarrow> ('s connection, fault, unit) action" where
  "handle_last_recv_drop S sid c =
     (let c = discard_inbound S sid c in
      case objects c sid of
        None \<Rightarrow> (Inl Panicked, c)
      | Some st \<Rightarrow>
          if \<not> recv_terminal st \<and> \<not> closed c
          then (case from_u64 sid of
                  Inl _ \<Rightarrow> (Inl Panicked, c)
                | Inr stream_id \<Rightarrow>
                    (let (sent, c) = enqueue_control (StopSending stream_id) c;
                         c = (if \<not> sent \<and> \<not> closed c then mark_closed S c else c)
                     in (Inr (), try_retire_stream S sid c)))
          else (Inr (), try_retire_stream S sid c))"

text \<open>\<open>release_handle\<close>: whether the last handle was released.\<close>

definition release_handle :: "usize \<Rightarrow> bool \<times> usize" where
  "release_handle n = (if n = 0 then (False, 0) else (n = 1, n - 1))"

text \<open>\<open>Drop\<close> for \<open>SendStream\<close> and \<open>RecvStream\<close>, as far as the stream state is concerned.\<close>

definition release_send :: "u64 \<Rightarrow> 's connection \<Rightarrow> 's connection" where
  "release_send sid c =
     on_stream sid (\<lambda>st. let (last, n) = release_handle (send_handles st)
                          in st\<lparr>send_handles := n, send_dropped := send_dropped st \<or> last\<rparr>) c"

definition release_recv :: "u64 \<Rightarrow> 's connection \<Rightarrow> 's connection" where
  "release_recv sid c =
     on_stream sid (\<lambda>st. let (last, n) = release_handle (recv_handles st)
                          in st\<lparr>recv_handles := n, recv_dropped := recv_dropped st \<or> last\<rparr>) c"

section \<open>Invariant of identifiers, permits and flags\<close>

text \<open>Both counters keep their parity and only identifiers below them were used; the table, the accept
  queue and the writer refer to existing streams.\<close>

definition id_limit :: "'s connection \<Rightarrow> u64 \<Rightarrow> u64" where
  "id_limit c sid = (if sid mod 2 = local_parity c then next_local_stream_id c else next_remote_stream_id c)"

definition ids_inv :: "'s connection \<Rightarrow> bool" where
  "ids_inv c \<longleftrightarrow> local_parity c \<le> 1
     \<and> next_local_stream_id c mod 2 = local_parity c \<and> next_remote_stream_id c mod 2 = 1 - local_parity c
     \<and> unat (next_local_stream_id c) \<le> 2 ^ 62 + 1 \<and> unat (next_remote_stream_id c) \<le> 2 ^ 62 + 1
     \<and> (\<forall>sid \<in> dom (objects c). sid < id_limit c sid)
     \<and> finite (dom (objects c)) \<and> streams c \<subseteq> dom (objects c) \<and> set (incoming_streams c) \<subseteq> dom (objects c)
     \<and> receive_windows (writer c) = streams c"

text \<open>Every permit of \<open>open_streams\<close> is free or held by a stream, and each stream in the table holds one. The
  limits are those a connection is created with.\<close>

definition open_load :: "'s connection \<Rightarrow> nat" where
  "open_load c = (\<Sum>sid\<in>dom (objects c). held (open_permit (the (objects c sid))))"

definition open_inv :: "('s \<Rightarrow> nat) \<Rightarrow> 's connection \<Rightarrow> bool" where
  "open_inv free c \<longleftrightarrow> free (open_streams c) + open_load c = max_open_streams (limits c)
     \<and> (\<forall>sid \<in> streams c. map_option open_permit (objects c sid) = Some (Some 1))
     \<and> (\<exists>m. valid_limits m (limits c))"

text \<open>The sending side is closed before its end is put on the wire; the end of the receiving side is recorded twice.
  A queued reset is of a stream that was opened and whose sending side is closed.\<close>

definition flags_ok :: "'s stream_state \<Rightarrow> bool" where
  "flags_ok st \<longleftrightarrow> (send_complete st \<longrightarrow> send_terminal st) \<and> (send_dispatched st \<longrightarrow> send_terminal st)
     \<and> (recv_terminal st \<longleftrightarrow> fin_received (inbound st))"

definition flags_inv :: "'s connection \<Rightarrow> bool" where
  "flags_inv c \<longleftrightarrow> (\<forall>sid st. objects c sid = Some st \<longrightarrow> flags_ok st)
     \<and> (\<forall>v e. ResetStream v e \<in> set (control (writer c)) \<longrightarrow> into_inner v < id_limit c (into_inner v)
          \<and> (\<forall>st. objects c (into_inner v) = Some st \<longrightarrow> send_terminal st))"

definition streams_inv :: "('s \<Rightarrow> nat) \<Rightarrow> 's connection \<Rightarrow> bool" where
  "streams_inv free c \<longleftrightarrow> ids_inv c \<and> open_inv free c \<and> flags_inv c"

lemma id_limit_frame [simp]:
  "id_limit (on_queues g c) = id_limit c"
  "id_limit (on_stream sid f c) = id_limit c"
  "open_load (on_queues g c) = open_load c"
  by (simp_all add: id_limit_def open_load_def fun_eq_iff)

text \<open>Changes that keep the permits: streams may leave the table, identifiers, flags and the accept queue only shrink.\<close>

lemma streams_inv_shrink:
  assumes inv: "streams_inv free c"
    and objs: "\<And>i. objects c' i = map_option (g i) (objects c i)"
    and g: "\<And>i st. open_permit (g i st) = open_permit st \<and> (flags_ok st \<longrightarrow> flags_ok (g i st))
      \<and> (send_terminal st \<longrightarrow> send_terminal (g i st))"
    and same: "local_parity c' = local_parity c" "next_local_stream_id c' = next_local_stream_id c"
      "next_remote_stream_id c' = next_remote_stream_id c" "streams c' \<subseteq> streams c"
      "set (incoming_streams c') \<subseteq> set (incoming_streams c)"
      "receive_windows (writer c') = streams c'" "limits c' = limits c"
      "free (open_streams c') = free (open_streams c)" "set (control (writer c')) \<subseteq> set (control (writer c))"
  shows "streams_inv free c'"
proof -
  have dom: "dom (objects c') = dom (objects c)" using objs by (auto simp: dom_def)
  have lim: "id_limit c' = id_limit c" using same by (simp add: id_limit_def fun_eq_iff)
  then have "ids_inv c'" using inv dom same by (auto simp: streams_inv_def ids_inv_def)
  moreover have "open_load c' = open_load c"
    unfolding open_load_def dom using objs g by (intro sum.cong) auto
  then have "open_inv free c'"
    using inv same objs g by (auto simp: streams_inv_def open_inv_def option.map_comp o_def)
  moreover have "flags_inv c'"
  proof -
    have f: "flags_ok st" if "objects c i = Some st" for i st using inv that by (auto simp: streams_inv_def flags_inv_def)
    have t: "into_inner v < id_limit c (into_inner v)" "objects c (into_inner v) = Some st \<Longrightarrow> send_terminal st"
      if "ResetStream v e \<in> set (control (writer c))" for v e st
      using inv that by (auto simp: streams_inv_def flags_inv_def)
    show ?thesis unfolding flags_inv_def lim using objs g f t same(9) by (fastforce simp: subset_iff)
  qed
  ultimately show ?thesis by (simp add: streams_inv_def)
qed

lemma streams_inv_windows: "streams_inv free c \<Longrightarrow> receive_windows (writer c) = streams c"
  by (simp add: streams_inv_def ids_inv_def)

lemma streams_inv_same:
  assumes inv: "streams_inv free c"
    and objs: "\<And>i. objects c' i = map_option (g i) (objects c i)"
    and g: "\<And>i st. open_permit (g i st) = open_permit st \<and> (flags_ok st \<longrightarrow> flags_ok (g i st))
      \<and> (send_terminal st \<longrightarrow> send_terminal (g i st))"
    and same: "local_parity c' = local_parity c" "next_local_stream_id c' = next_local_stream_id c"
      "next_remote_stream_id c' = next_remote_stream_id c" "streams c' = streams c" "incoming_streams c' = incoming_streams c"
      "receive_windows (writer c') = receive_windows (writer c)" "limits c' = limits c"
      "free (open_streams c') = free (open_streams c)" "set (control (writer c')) \<subseteq> set (control (writer c))"
  shows "streams_inv free c'"
  using streams_inv_shrink [OF inv objs g] streams_inv_windows [OF inv] same by simp

lemma streams_inv_on_stream:
  assumes "streams_inv free c"
    and "\<And>st. open_permit (f st) = open_permit st \<and> (flags_ok st \<longrightarrow> flags_ok (f st))
      \<and> (send_terminal st \<longrightarrow> send_terminal (f st))"
  shows "streams_inv free (on_stream sid f c)"
  by (rule streams_inv_same [OF assms(1), where g = "\<lambda>i. if i = sid then f else id"])
    (use assms(2) in \<open>auto simp: option.map_id\<close>)

lemma streams_inv_on_queues:
  assumes "streams_inv free c" "receive_windows (f (writer c)) = receive_windows (writer c)"
    "set (control (f (writer c))) \<subseteq> set (control (writer c))"
  shows "streams_inv free (on_queues f c)"
  by (rule streams_inv_same [OF assms(1), where g = "\<lambda>_. id"]) (use assms(2,3) in \<open>simp_all add: option.map_id\<close>)

lemma streams_inv_fields [simp]:
  "streams_inv free (c\<lparr>c_window := w\<rparr>) = streams_inv free c"
  "streams_inv free (c\<lparr>inbound_conn_bytes := s\<rparr>) = streams_inv free c"
  "streams_inv free (c\<lparr>outbound_conn_bytes := s\<rparr>) = streams_inv free c"
  "streams_inv free (c\<lparr>outbound_frames := s\<rparr>) = streams_inv free c"
  "streams_inv free (c\<lparr>closed := b\<rparr>) = streams_inv free c"
  "streams_inv free (c\<lparr>terminated := b\<rparr>) = streams_inv free c"
  "streams_inv free (c\<lparr>joined := b\<rparr>) = streams_inv free c"
  "streams_inv free (c\<lparr>cleanup_started := b\<rparr>) = streams_inv free c"
  "streams_inv free (c\<lparr>open_locked := b\<rparr>) = streams_inv free c"
  "streams_inv free (c\<lparr>stats := t\<rparr>) = streams_inv free c"
  "streams_inv free (c\<lparr>connection_handles := n\<rparr>) = streams_inv free c"
  by (simp_all add: streams_inv_def ids_inv_def id_limit_def open_inv_def open_load_def flags_inv_def)

lemma streams_inv_permits:
  assumes "streams_inv f c" "g s = f (open_streams c)"
  shows "streams_inv g (c\<lparr>open_streams := s\<rparr>)"
proof -
  have [simp]: "id_limit (c\<lparr>open_streams := s\<rparr>) = id_limit c" by (simp add: id_limit_def fun_eq_iff)
  show ?thesis using assms by (simp add: streams_inv_def ids_inv_def open_inv_def open_load_def flags_inv_def)
qed

lemma streams_inv_credit:
  assumes "streams_inv free c" "credit_frame c c'"
  shows "streams_inv free c'"
proof -
  obtain wins sems cw cs where c': "c' = c\<lparr>objects := (\<lambda>i. map_option (\<lambda>st. st\<lparr>s_window := wins i, inbound_stream_bytes := sems i\<rparr>)
        (objects c i)), c_window := cw, inbound_conn_bytes := cs\<rparr>"
    using assms(2) by (auto simp: credit_frame_def)
  show ?thesis
    by (rule streams_inv_same [OF assms(1), where g = "\<lambda>i st. st\<lparr>s_window := wins i, inbound_stream_bytes := sems i\<rparr>"])
      (simp_all add: c' flags_ok_def)
qed

lemma streams_inv_drop_outs: "streams_inv free c \<Longrightarrow> streams_inv free (drop_out_chunks S chs c)"
proof (induction chs arbitrary: c)
  case (Cons ch chs)
  then show ?case by (simp add: drop_out_chunk_def streams_inv_on_stream flags_ok_def)
qed simp

end
