(* ===== verification/Conn_Inv.thy ===== *)
theory Conn_Inv
  imports Streams
begin

text \<open>
  The invariant of a connection, the conjunction of the invariants of its queues (\<open>Writer\<close>), its inbound
  accounts (\<open>Inbound\<close>) and its streams (\<open>Streams\<close>), and that every operation of \<open>Closing\<close> and \<open>Streams\<close> keeps it.
\<close>

definition conn_inv ::
  "('s \<Rightarrow> nat) \<Rightarrow> ('s \<Rightarrow> bool) \<Rightarrow> (u64 \<Rightarrow> nat) \<Rightarrow> 's connection \<Rightarrow> bool" where
  "conn_inv free waiting out c \<longleftrightarrow> queues_inv c \<and> inbound_inv free waiting out c \<and> streams_inv free c"

text \<open>The same while a call that opens a stream holds one permit of \<open>open_streams\<close>.\<close>

definition opening_inv ::
  "('s \<Rightarrow> nat) \<Rightarrow> ('s \<Rightarrow> bool) \<Rightarrow> (u64 \<Rightarrow> nat) \<Rightarrow> 's connection \<Rightarrow> bool" where
  "opening_inv free waiting out c \<longleftrightarrow> queues_inv c \<and> inbound_inv free waiting out c \<and> streams_inv (\<lambda>s. free s + 1) c"

section \<open>Identifiers\<close>

lemma id_mod_2: "(x + 2) mod 2 = (x mod 2 :: u64)"
  by (simp add: word_unat_eq_iff unat_mod unat_word_ariths mod_mod_cancel)

lemma parity_cases:
  assumes "p \<le> (1 :: u64)"
  shows "p = 0 \<or> p = 1" "1 - p \<noteq> p"
proof -
  show c: "p = 0 \<or> p = 1" using assms by (auto simp: word_le_nat_alt word_unat_eq_iff)
  then show "1 - p \<noteq> p" by auto
qed

lemma next_id:
  assumes "x \<le> varint_MAX"
  shows "unat (x + 2) = unat x + 2" "unat (x + 2) \<le> 2 ^ 62 + 1" "x < x + 2" "x \<le> x + 2"
proof -
  have "unat x \<le> 2 ^ 62 - 1" using assms by (simp add: word_le_nat_alt unat_varint_MAX)
  then show "unat (x + 2) = unat x + 2" "unat (x + 2) \<le> 2 ^ 62 + 1" "x < x + 2" "x \<le> x + 2"
    by (simp_all add: unat_word_ariths word_less_nat_alt word_le_nat_alt)
qed

text \<open>The next identifiers of both sides are not in use.\<close>

lemma next_ids_fresh:
  assumes "ids_inv c"
  shows "objects c (next_local_stream_id c) = None" "objects c (next_remote_stream_id c) = None"
    "id_limit c (next_local_stream_id c) = next_local_stream_id c"
    "id_limit c (next_remote_stream_id c) = next_remote_stream_id c"
proof -
  have "1 - local_parity c \<noteq> local_parity c"
    using assms by (intro parity_cases(2)) (simp add: ids_inv_def)
  then show l: "id_limit c (next_local_stream_id c) = next_local_stream_id c"
      "id_limit c (next_remote_stream_id c) = next_remote_stream_id c"
    using assms by (auto simp: ids_inv_def id_limit_def)
  have "objects c i = None" if "id_limit c i = i" for i
    using assms that by (cases "objects c i") (force simp: ids_inv_def dest: bspec [of _ _ i])+
  then show "objects c (next_local_stream_id c) = None" "objects c (next_remote_stream_id c) = None"
    using l by blast+
qed

section \<open>Fields and flags\<close>

lemma inbound_inv_simps [simp]:
  "inbound_inv free waiting out (on_queues g c) = inbound_inv free waiting out c"
  "inbound_inv free waiting out (c\<lparr>open_streams := s\<rparr>) = inbound_inv free waiting out c"
  "inbound_inv free waiting out (c\<lparr>streams := ids\<rparr>) = inbound_inv free waiting out c"
  "inbound_inv free waiting out (c\<lparr>incoming_streams := xs\<rparr>) = inbound_inv free waiting out c"
  "inbound_inv free waiting out (c\<lparr>next_local_stream_id := i\<rparr>) = inbound_inv free waiting out c"
  "inbound_inv free waiting out (c\<lparr>next_remote_stream_id := i\<rparr>) = inbound_inv free waiting out c"
  by (simp_all add: inbound_inv_def conn_account_def inbound_load_def)

lemma conn_inv_fields [simp]:
  "conn_inv free waiting out (c\<lparr>outbound_conn_bytes := s\<rparr>) = conn_inv free waiting out c"
  "conn_inv free waiting out (c\<lparr>outbound_frames := s\<rparr>) = conn_inv free waiting out c"
  "conn_inv free waiting out (c\<lparr>closed := b\<rparr>) = conn_inv free waiting out c"
  "conn_inv free waiting out (c\<lparr>terminated := b\<rparr>) = conn_inv free waiting out c"
  "conn_inv free waiting out (c\<lparr>joined := b\<rparr>) = conn_inv free waiting out c"
  "conn_inv free waiting out (c\<lparr>cleanup_started := b\<rparr>) = conn_inv free waiting out c"
  "conn_inv free waiting out (c\<lparr>open_locked := b\<rparr>) = conn_inv free waiting out c"
  "conn_inv free waiting out (c\<lparr>stats := t\<rparr>) = conn_inv free waiting out c"
  "conn_inv free waiting out (c\<lparr>connection_handles := n\<rparr>) = conn_inv free waiting out c"
  by (simp_all add: conn_inv_def inbound_inv_def conn_account_def inbound_load_def queues_inv_def)

lemma conn_inv_count_opened [simp]: "conn_inv free waiting out (count_opened c) = conn_inv free waiting out c"
  by (simp add: count_opened_def)

lemma conn_inv_sent [simp]:
  "conn_inv free waiting out (record_sent n c) = conn_inv free waiting out c"
  "conn_inv free waiting out (record_received n c) = conn_inv free waiting out c"
  by (simp_all add: record_sent_def record_received_def)

text \<open>A change of one stream that no account depends on.\<close>

definition harmless :: "('s stream_state \<Rightarrow> 's stream_state) \<Rightarrow> bool" where
  "harmless f \<longleftrightarrow> (\<forall>st. s_window (f st) = s_window st \<and> s_sent (f st) = s_sent st \<and> s_peer_limit (f st) = s_peer_limit st
     \<and> inbound_stream_bytes (f st) = inbound_stream_bytes st \<and> chunks (inbound (f st)) = chunks (inbound st)
     \<and> open_permit (f st) = open_permit st \<and> (flags_ok st \<longrightarrow> flags_ok (f st))
     \<and> (send_terminal st \<longrightarrow> send_terminal (f st)))"

lemma queues_inv_chunks:
  assumes "queues_inv c"
  shows "queues_inv (on_inbound sid (\<lambda>i. i\<lparr>chunks := cs\<rparr>) c)"
  unfolding on_inbound_def by (rule queues_inv_on_stream [OF assms]) simp

lemma streams_inv_chunks:
  assumes "streams_inv free c"
  shows "streams_inv free (on_inbound sid (\<lambda>i. i\<lparr>chunks := cs\<rparr>) c)"
  unfolding on_inbound_def by (rule streams_inv_on_stream [OF assms]) (simp add: flags_ok_def)

lemma on_inbound_same: "objects c sid = Some st \<Longrightarrow> on_inbound sid (\<lambda>i. i\<lparr>chunks := chunks (inbound st)\<rparr>) c = c"
  by (simp add: on_inbound_def on_stream_def fun_upd_idem)

lemma credit_frame_sems:
  "credit_frame c (on_stream sid (\<lambda>st. st\<lparr>inbound_stream_bytes := y\<rparr>) (c\<lparr>inbound_conn_bytes := x\<rparr>))"
  using credit_frame_stream [where c = c and sid = sid and f = id and g = "\<lambda>_. y" and cw = "c_window c" and cs = x] by simp

lemma credit_frame_conn: "credit_frame c (c\<lparr>inbound_conn_bytes := x\<rparr>)"
  using credit_frame_stream [where c = c and sid = 0 and f = id and g = id and cw = "c_window c" and cs = x]
  by (simp add: on_stream_def option.map_ident)

lemma credit_frame_acquire: "credit_frame c (snd (acquire_inbound S sid n c))"
  by (auto simp: acquire_inbound_def Let_def credit_frame_sems credit_frame_conn
      intro: credit_frame_trans [OF credit_frame_conn credit_frame_sems] split: prod.split sem_result.split option.split)

lemma credit_frame_chunks:
  assumes "credit_frame c c'"
  shows "credit_frame (on_inbound sid (\<lambda>i. i\<lparr>chunks := cs\<rparr>) c) (on_inbound sid (\<lambda>i. i\<lparr>chunks := cs\<rparr>) c')"
proof -
  obtain wins sems cw s where c': "c' = c\<lparr>objects := (\<lambda>i. map_option (\<lambda>st. st\<lparr>s_window := wins i, inbound_stream_bytes := sems i\<rparr>)
        (objects c i)), c_window := cw, inbound_conn_bytes := s\<rparr>"
    using assms by (auto simp: credit_frame_def)
  show ?thesis
    by (rule credit_frameI [where wins = wins and sems = sems and cw = cw and cs = s
          and objs = "objects (on_inbound sid (\<lambda>i. i\<lparr>chunks := cs\<rparr>) c')"])
      (cases "objects c sid"; auto simp: c' on_inbound_def on_stream_def option.map_comp o_def)+
qed

text \<open>What \<open>push_inbound\<close> changes: the chunks of its stream, the windows and the inbound budgets.\<close>

lemma credit_frame_store:
  assumes "objects c sid = Some st"
  shows "\<exists>cs. credit_frame (on_inbound sid (\<lambda>i. i\<lparr>chunks := cs\<rparr>) c) (snd (store_inbound S sid payload cp sp c))"
proof (cases "\<exists>cs. snd (store_inbound S sid payload cp sp c) = on_inbound sid (\<lambda>i. i\<lparr>chunks := cs\<rparr>) c")
  case False
  then have "credit_frame c (snd (store_inbound S sid payload cp sp c))"
    using assms by (auto simp: store_inbound_def Let_def
        intro: credit_frame_release credit_frame_trans [OF credit_frame_release credit_frame_window]
        split: option.split if_splits)
  then show ?thesis using on_inbound_same [OF assms] by metis
qed (metis credit_frame_refl)

lemma credit_frame_push:
  assumes "objects c sid = Some st"
  shows "\<exists>cs. credit_frame (on_inbound sid (\<lambda>i. i\<lparr>chunks := cs\<rparr>) c) (snd (push_inbound S sid payload c))"
proof (cases "recv_discarded st")
  case True
  then have "credit_frame c (snd (push_inbound S sid payload c))"
    using assms by (simp add: push_inbound_def credit_frame_window)
  then show ?thesis using on_inbound_same [OF assms] by metis
next
  case False
  have acq: "credit_frame c (snd (acquire_inbound S sid (length payload) c))" by (rule credit_frame_acquire)
  obtain st' where st': "objects (snd (acquire_inbound S sid (length payload) c)) sid = Some st'"
    using credit_frame_object [OF acq assms] by blast
  show ?thesis
  proof (cases "acquire_inbound S sid (length payload) c" rule: action_cases)
    case (failed e c1)
    then have "credit_frame c (snd (push_inbound S sid payload c))"
      using assms False acq by (simp add: push_inbound_def and_then_def)
    then show ?thesis using on_inbound_same [OF assms] by metis
  next
    case (returned r c1)
    obtain cs where "credit_frame (on_inbound sid (\<lambda>i. i\<lparr>chunks := cs\<rparr>) c1) (snd (store_inbound S sid payload (fst r) (snd r) c1))"
      using credit_frame_store [of c1 sid st' S payload "fst r" "snd r"] st' returned by auto
    with credit_frame_chunks [OF acq, of sid cs] returned show ?thesis
      using assms False by (auto simp: push_inbound_def and_then_def case_prod_beta intro: credit_frame_trans)
  qed
qed

text \<open>A step that moves chunks of one stream and gives back credit, with the accounts shown separately.\<close>

lemma conn_inv_credit:
  assumes "conn_inv free waiting out c" "credit_frame (on_inbound sid (\<lambda>i. i\<lparr>chunks := cs\<rparr>) c) c'"
    "inbound_inv free waiting out' c'"
  shows "conn_inv free waiting out' c'"
proof -
  have w: "rw_inv (c_window c')" "\<And>sid st. objects c' sid = Some st \<Longrightarrow> rw_inv (s_window st)"
    using assms(3) by (auto simp: inbound_inv_def conn_account_def stream_account_def)
  have "queues_inv c'"
    using assms(1) by (intro queues_inv_credit_frame [OF queues_inv_chunks assms(2) w]) (simp_all add: conn_inv_def)
  moreover have "streams_inv free c'"
    using assms(1) by (intro streams_inv_credit [OF streams_inv_chunks assms(2)]) (simp add: conn_inv_def)
  ultimately show ?thesis using assms(3) by (simp add: conn_inv_def)
qed

lemma conn_inv_credit_only:
  assumes "conn_inv free waiting out c" "credit_frame c c'" "inbound_inv free waiting out' c'" "objects c sid = Some st"
  shows "conn_inv free waiting out' c'"
  using conn_inv_credit [OF assms(1), of sid "chunks (inbound st)" c' out'] assms by (simp add: on_inbound_same)

lemma drop_out_chunks_streams:
  "(drop_out_chunks S chs c)\<lparr>streams := ids\<rparr> = drop_out_chunks S chs (c\<lparr>streams := ids\<rparr>)"
proof (induction chs arbitrary: c)
  case (Cons ch chs)
  have "(drop_out_chunk S ch c)\<lparr>streams := ids\<rparr> = drop_out_chunk S ch (c\<lparr>streams := ids\<rparr>)"
    by (simp add: drop_out_chunk_def on_stream_def)
  then show ?case by (simp only: drop_out_chunks.simps Cons)
qed simp

lemma objects_drop_outs_None: "objects (drop_out_chunks S chs c) sid = None \<longleftrightarrow> objects c sid = None"
  by (induction chs arbitrary: c) (simp_all add: drop_out_chunk_def)

lemma streams_inv_mark_closed:
  assumes inv: "streams_inv free c" and close: "\<And>s. free (sem_close S s) = free s"
  shows "streams_inv free (mark_closed S c)"
proof (cases "cleanup_started c")
  case True
  then show ?thesis using inv by (simp add: mark_closed_def)
next
  case False
  let ?c1 = "c\<lparr>closed := True, terminated := True, cleanup_started := True, open_streams := sem_close S (open_streams c),
               inbound_conn_bytes := sem_close S (inbound_conn_bytes c),
               outbound_conn_bytes := sem_close S (outbound_conn_bytes c),
               outbound_frames := sem_close S (outbound_frames c)\<rparr>"
  define d where "d = writer_shutdown S ?c1"
  have "streams_inv free (d\<lparr>streams := {}\<rparr>)"
    unfolding d_def writer_shutdown_def drop_out_chunks_streams
    by (intro streams_inv_drop_outs streams_inv_shrink [OF inv, where g = "\<lambda>_. id"]) (simp_all add: option.map_id close)
  then have "streams_inv free (d\<lparr>streams := {}, objects := (\<lambda>i. if i \<in> streams d
      then map_option (mark_connection_closed S) (objects d i) else objects d i)\<rparr>)"
    by (rule streams_inv_same [where g = "\<lambda>i. if i \<in> streams d then mark_connection_closed S else id"])
      (simp_all add: mark_connection_closed_def flags_ok_def option.map_id)
  moreover have "mark_closed S c = d\<lparr>streams := {}, objects := (\<lambda>i. if i \<in> streams d
      then map_option (mark_connection_closed S) (objects d i) else objects d i)\<rparr>"
    unfolding d_def using False by (simp add: mark_closed_def Let_def)
  ultimately show ?thesis by simp
qed

context semaphore
begin

lemma conn_inv_on_stream:
  assumes "conn_inv free waiting out c" "harmless f"
  shows "conn_inv free waiting out (on_stream sid f c)"
proof -
  have "queues_inv (on_stream sid f c)" "streams_inv free (on_stream sid f c)"
    using assms by (auto simp: conn_inv_def harmless_def intro!: queues_inv_on_stream streams_inv_on_stream)
  moreover have "inbound_inv free waiting out (on_stream sid f c)"
    using assms by (intro on_stream_inv) (auto simp: conn_inv_def harmless_def)
  ultimately show ?thesis by (simp add: conn_inv_def)
qed

lemma conn_inv_drop_outs:
  "conn_inv free waiting out c \<Longrightarrow> conn_inv free waiting out (drop_out_chunks S chs c)"
  by (simp add: conn_inv_def queues_inv_drop_outs inbound_inv_drop_outs streams_inv_drop_outs)

lemma conn_inv_add_handles: "conn_inv free waiting out c \<Longrightarrow> conn_inv free waiting out (add_handles sid c)"
  unfolding add_handles_def by (rule conn_inv_on_stream) (simp_all add: harmless_def flags_ok_def)

lemma conn_inv_mark_recv_terminal:
  "conn_inv free waiting out c \<Longrightarrow> conn_inv free waiting out (mark_recv_terminal sid c)"
  unfolding mark_recv_terminal_def by (rule conn_inv_on_stream) (simp_all add: harmless_def flags_ok_def)

lemma conn_inv_release_send: "conn_inv free waiting out c \<Longrightarrow> conn_inv free waiting out (release_send sid c)"
  unfolding release_send_def
  by (rule conn_inv_on_stream) (simp_all add: harmless_def flags_ok_def Let_def case_prod_beta)

lemma conn_inv_release_recv: "conn_inv free waiting out c \<Longrightarrow> conn_inv free waiting out (release_recv sid c)"
  unfolding release_recv_def
  by (rule conn_inv_on_stream) (simp_all add: harmless_def flags_ok_def Let_def case_prod_beta)

text \<open>Dropping the queued chunks of a stream, on a reset by the peer and on the drop of the reader.\<close>

lemma conn_inv_mark_reset:
  assumes "conn_inv free waiting out c"
  shows "conn_inv free waiting out (mark_reset S sid e c)"
proof (cases "objects c sid")
  case (Some st)
  let ?c1 = "on_stream sid (\<lambda>st. st\<lparr>inbound := (inbound st)\<lparr>reset_error := Some e\<rparr>\<rparr>) c"
  have c1: "conn_inv free waiting out ?c1"
    by (rule conn_inv_on_stream [OF assms]) (simp add: harmless_def flags_ok_def)
  have "inbound_inv free waiting out (mark_reset S sid e c)"
    using assms by (intro mark_reset_inv) (simp add: conn_inv_def)
  moreover have "credit_frame (on_inbound sid (\<lambda>i. i\<lparr>chunks := []\<rparr>) ?c1) (mark_reset S sid e c)"
    using credit_frame_drops [of "on_inbound sid (\<lambda>i. i\<lparr>chunks := []\<rparr>) ?c1" S sid "chunks (inbound st)"] Some
    by (simp add: mark_reset_def on_inbound_def on_stream_def)
  ultimately show ?thesis by (intro conn_inv_credit [OF c1])
qed (use assms in \<open>simp add: mark_reset_def\<close>)

lemma conn_inv_discard_inbound:
  assumes "conn_inv free waiting out c"
  shows "conn_inv free waiting out (discard_inbound S sid c)"
proof (cases "objects c sid")
  case (Some st)
  let ?c1 = "on_stream sid (\<lambda>st. st\<lparr>recv_discarded := True\<rparr>) c"
  have c1: "conn_inv free waiting out ?c1"
    by (rule conn_inv_on_stream [OF assms]) (simp add: harmless_def flags_ok_def)
  have "inbound_inv free waiting out (discard_inbound S sid c)"
    using assms by (intro discard_inbound_inv) (simp add: conn_inv_def)
  moreover have "credit_frame (on_inbound sid (\<lambda>i. i\<lparr>chunks := []\<rparr>) ?c1) (discard_inbound S sid c)"
    using credit_frame_drops [of "on_inbound sid (\<lambda>i. i\<lparr>chunks := []\<rparr>) ?c1" S sid "chunks (inbound st)"] Some
    by (simp add: discard_inbound_def)
  ultimately show ?thesis by (intro conn_inv_credit [OF c1])
qed (use assms in \<open>simp add: discard_inbound_def\<close>)

section \<open>Closing\<close>

lemma conn_inv_initiate_close:
  assumes "conn_inv free waiting out c" "code \<le> varint_MAX" "utf8_valid reason"
  shows "conn_inv free waiting out (snd (initiate_close S code reason c))"
proof -
  have inv: "queues_inv c" "inbound_inv free waiting out c" "streams_inv free c" using assms(1) by (simp_all add: conn_inv_def)
  have os: "streams_inv free (c\<lparr>open_streams := sem_close S (open_streams c)\<rparr>)" if "streams_inv free c" for c
    by (rule streams_inv_same [OF that, where g = "\<lambda>_. id"]) (simp_all add: option.map_id)
  have "streams_inv free (snd (initiate_close S code reason c))"
    using inv(3) unfolding initiate_close_def
    by (auto simp: Let_def on_queues_def [symmetric] simp del: on_queues_frame split: sum.split
        intro!: os streams_inv_on_queues streams_inv_drop_outs)
  then show ?thesis
    using queues_inv_initiate_close(2) [OF inv(1) assms(2,3)] inbound_inv_initiate_close [OF inv(2)] by (simp add: conn_inv_def)
qed

lemma conn_inv_mark_closed: "conn_inv free waiting out c \<Longrightarrow> conn_inv free waiting out (mark_closed S c)"
  by (simp add: conn_inv_def queues_inv_mark_closed inbound_inv_mark_closed streams_inv_mark_closed)

lemma conn_inv_new:
  assumes "connection_new S m l is_client certs = Inr c"
  shows "conn_inv free waiting (\<lambda>_. 0) c"
proof -
  have "streams_inv free c"
    using assms by (auto simp: connection_new_def Let_def settings_frame_def streams_inv_def ids_inv_def open_inv_def
        open_load_def flags_inv_def queues_new_def validate_iff split: sum.splits option.splits if_splits)
  then show ?thesis using queues_inv_new [OF assms] inbound_inv_new [OF assms] by (simp add: conn_inv_def)
qed

section \<open>Retirement and reset\<close>

lemma streams_inv_retire:
  assumes inv: "streams_inv free c" and st: "objects c sid = Some st"
    and objs: "objects c' = (objects c)(sid \<mapsto> st\<lparr>open_permit := None\<rparr>)"
    and fields: "local_parity c' = local_parity c" "next_local_stream_id c' = next_local_stream_id c"
      "next_remote_stream_id c' = next_remote_stream_id c" "streams c' = streams c - {sid}" "limits c' = limits c"
      "incoming_streams c' = incoming_streams c" "receive_windows (writer c') = receive_windows (writer c) - {sid}"
      "control (writer c') = control (writer c)" "free (open_streams c') = free (open_streams c) + held (open_permit st)"
  shows "streams_inv free c'"
proof -
  have dom: "dom (objects c') = dom (objects c)" unfolding objs using st by auto
  have fin: "finite (dom (objects c))" using inv by (simp add: streams_inv_def ids_inv_def)
  have lim: "id_limit c' = id_limit c" by (simp add: id_limit_def fields fun_eq_iff)
  then have "ids_inv c'" using inv dom by (auto simp: streams_inv_def ids_inv_def fields)
  moreover have "open_load c' + held (open_permit st) = open_load c"
    using sum_dom_update [OF fin st, of "\<lambda>st. held (open_permit st)" "st\<lparr>open_permit := None\<rparr>"]
    by (simp add: open_load_def objs held_def del: fun_upd_apply dom_fun_upd)
  then have "open_inv free c'" using inv by (auto simp: streams_inv_def open_inv_def fields objs)
  moreover have "flags_inv c'"
    using inv st by (auto simp: streams_inv_def flags_inv_def fields objs flags_ok_def lim)
  ultimately show ?thesis by (simp add: streams_inv_def)
qed

lemma conn_inv_try_retire:
  assumes inv: "conn_inv free waiting out c"
  shows "conn_inv free waiting out (try_retire_stream S sid c)"
proof (cases "try_retire_stream S sid c = c")
  case False
  then obtain st where st: "objects c sid = Some st" "send_complete st" "recv_terminal st" "sid \<in> streams c"
    by (auto simp: try_retire_stream_def split: option.splits if_splits)
  have t: "send_terminal st" using inv st by (auto simp: conn_inv_def streams_inv_def flags_inv_def flags_ok_def)
  let ?c1 = "release_open_permit S sid c"
  have eq: "try_retire_stream S sid c = on_queues (\<lambda>q. q\<lparr>receive_windows := receive_windows q - {sid}\<rparr>)
      (?c1\<lparr>streams := streams ?c1 - {sid}\<rparr>)"
    using st t by (simp add: try_retire_stream_def release_open_permit_def Let_def)
  have c1: "?c1 = on_stream sid (\<lambda>st. st\<lparr>open_permit := None\<rparr>)
      (c\<lparr>open_streams := sem_release S (held (open_permit st)) (open_streams c)\<rparr>)"
    using st by (simp add: release_open_permit_def)
  have "queues_inv ?c1" "inbound_inv free waiting out ?c1"
    unfolding c1 using inv by (auto simp: conn_inv_def intro!: queues_inv_on_stream on_stream_inv)
  then have "queues_inv (try_retire_stream S sid c)" "inbound_inv free waiting out (try_retire_stream S sid c)"
    unfolding eq by (simp_all add: queues_inv_def ready_ok_def control_ok_def cong: option.case_cong)
  moreover have "streams_inv free (try_retire_stream S sid c)"
    unfolding eq c1
    by (rule streams_inv_retire [OF _ st(1)]) (use inv st(1) in \<open>simp_all add: conn_inv_def on_stream_def\<close>)
  ultimately show ?thesis by (simp add: conn_inv_def)
qed (use inv in simp)

lemma conn_inv_push_control:
  assumes "conn_inv free waiting out c" "length (control (writer c)) < max_control_frames (limits c)"
    "is_control f" "wf_frame f"
    and "\<And>v e. f = ResetStream v e \<Longrightarrow> \<exists>st. objects c (into_inner v) = Some st \<and> send_terminal st"
  shows "conn_inv free waiting out (on_queues (\<lambda>q. q\<lparr>control := control q @ [f]\<rparr>) c)"
proof -
  let ?c = "on_queues (\<lambda>q. q\<lparr>control := control q @ [f]\<rparr>) c"
  have "queues_inv ?c"
    using assms by (simp add: conn_inv_def queues_inv_def ready_ok_def control_ok_def cong: option.case_cong)
  moreover have "ids_inv ?c" "open_inv free ?c"
    using assms(1) by (simp_all add: conn_inv_def streams_inv_def ids_inv_def open_inv_def)
  moreover have "flags_inv ?c"
    using assms(1,5) by (fastforce simp: conn_inv_def streams_inv_def flags_inv_def ids_inv_def)
  ultimately show ?thesis using assms(1) by (simp add: conn_inv_def streams_inv_def)
qed

lemma conn_inv_enqueue_control:
  assumes "conn_inv free waiting out c" "is_control f" "wf_frame f" "\<And>v e. f \<noteq> ResetStream v e"
  shows "conn_inv free waiting out (snd (enqueue_control f c))"
  using assms conn_inv_push_control [OF assms(1) _ assms(2,3)] by (auto simp: enqueue_control_def)

lemma conn_inv_remove_queue:
  assumes inv: "conn_inv free waiting out c"
  shows "conn_inv free waiting out (remove_queue S sid c)"
proof -
  let ?c = "on_queues (\<lambda>q. q\<lparr>by_stream := AList.delete sid (by_stream q), ready := filter (\<lambda>i. i \<noteq> sid) (ready q)\<rparr>) c"
  have "ready_ok (writer ?c)"
    using queues_invD(1) [of c] inv by (auto simp: conn_inv_def ready_ok_def distinct_delete)
  then have "queues_inv ?c"
    using inv by (auto simp: conn_inv_def queues_inv_def control_ok_def delete_conv' cong: option.case_cong)
  moreover have "streams_inv free ?c"
    using inv by (intro streams_inv_on_queues) (simp_all add: conn_inv_def)
  ultimately have "conn_inv free waiting out ?c" using inv by (simp add: conn_inv_def)
  then show ?thesis unfolding remove_queue_def by (rule conn_inv_drop_outs)
qed

lemma on_stream_on_queues: "on_stream sid f (on_queues g c) = on_queues g (on_stream sid f c)"
  by (simp add: on_stream_def on_queues_def)

lemma conn_inv_reset_stream:
  assumes inv: "conn_inv free waiting out c"
  shows "conn_inv free waiting out (snd (reset_stream S sid code c))"
proof (cases "snd (reset_stream S sid code c) = c")
  case False
  let ?c1 = "on_stream sid (\<lambda>st. st\<lparr>reset_queued := True\<rparr>) c"
  let ?stop = "\<lambda>st. st\<lparr>send_terminal := True, outbound_stream_bytes := sem_close S (outbound_stream_bytes st)\<rparr>"
  let ?c2 = "on_stream sid ?stop (remove_queue S sid ?c1)"
  obtain v e where v: "from_u64 sid = Inr v" "error_code_from_u64 code = Inr e"
      "length (control (writer c)) < max_control_frames (limits c)" "objects c sid \<noteq> None"
    and eq: "snd (reset_stream S sid code c) = on_queues (\<lambda>q. q\<lparr>control := control q @ [ResetStream v e]\<rparr>) ?c2"
    using False by (auto simp: reset_stream_def Let_def on_stream_on_queues split: sum.splits option.splits if_splits)
  have obj: "objects (remove_queue S sid ?c1) sid \<noteq> None"
    using v(4) by (simp add: remove_queue_def objects_drop_outs_None)
  have wf: "v = VarInt sid" "wf_frame (ResetStream v e)"
    using v by (auto simp: from_u64_Inr error_code_from_u64_def wf_varint_def split: sum.splits)
  have "conn_inv free waiting out ?c1" by (rule conn_inv_on_stream [OF inv]) (simp add: harmless_def flags_ok_def)
  then have "conn_inv free waiting out ?c2"
    by (rule conn_inv_on_stream [OF conn_inv_remove_queue]) (simp add: harmless_def flags_ok_def)
  then show ?thesis
    unfolding eq by (rule conn_inv_push_control)
      (use v(3) wf obj in \<open>auto simp: remove_queue_def\<close>)
qed (use inv in simp)

lemma conn_inv_handle_last_send_drop:
  "conn_inv free waiting out c \<Longrightarrow> conn_inv free waiting out (handle_last_send_drop S sid c)"
  by (auto simp: handle_last_send_drop_def Let_def split: option.split intro!: conn_inv_try_retire conn_inv_reset_stream)

lemma conn_inv_handle_last_recv_drop:
  assumes "conn_inv free waiting out c"
  shows "conn_inv free waiting out (snd (handle_last_recv_drop S sid c))"
proof -
  have c1: "conn_inv free waiting out (discard_inbound S sid c)" by (rule conn_inv_discard_inbound [OF assms])
  have "wf_frame (StopSending v)" if "from_u64 sid = Inr v" for v
    using that by (auto simp: from_u64_Inr wf_varint_def)
  then have "conn_inv free waiting out (snd (enqueue_control (StopSending v) (discard_inbound S sid c)))"
    if "from_u64 sid = Inr v" for v
    using that by (intro conn_inv_enqueue_control [OF c1]) auto
  then show ?thesis
    using c1 by (auto simp: handle_last_recv_drop_def Let_def case_prod_beta split: option.split sum.split
        intro!: conn_inv_try_retire conn_inv_mark_closed)
qed

section \<open>A new stream\<close>

lemma conn_inv_limits:
  assumes "conn_inv free waiting out c"
  obtains m where "valid_limits m (limits c)"
  using assms by (auto simp: conn_inv_def streams_inv_def open_inv_def)

lemma new_stream_simps [simp]:
  "chunks (inbound (stream_state_new S a b p f)) = []"
  "s_window (stream_state_new S a b p f) = rw_new a"
  "inbound_stream_bytes (stream_state_new S a b p f) = sem_new S a"
  "open_permit (stream_state_new S a b p f) = Some p"
  "flags_ok (stream_state_new S a b p f)"
  "stream_credit_ok i (stream_state_new S a b p f)"
  by (simp_all add: stream_state_new_def flags_ok_def stream_credit_ok_def)

lemma inbound_inv_insert:
  assumes inv: "inbound_inv free waiting out c" and none: "objects c sid = None"
    and bound: "max_inbound_stream_bytes (limits c) < 2 ^ 32"
    and c': "objects c' = (objects c)(sid \<mapsto> stream_state_new S (max_inbound_stream_bytes (limits c)) b p f)"
      "limits c' = limits c" "c_window c' = c_window c" "inbound_conn_bytes c' = inbound_conn_bytes c"
  shows "inbound_inv free waiting out c'"
proof -
  let ?st = "stream_state_new S (max_inbound_stream_bytes (limits c)) b p f"
  have out: "out sid = 0" using inv none by (simp add: inbound_inv_def)
  have acc: "stream_account free waiting (out sid) (max_inbound_stream_bytes (limits c)) ?st"
    using bound rw_inv_new [of "max_inbound_stream_bytes (limits c)"] new_idle
    by (simp add: stream_account_def stream_load_def out rw_new_def unat_as_u64)
  have fin: "finite (dom (objects c))" by (rule inbound_invD(1) [OF inv])
  have "(\<Sum>i\<in>dom (objects c). stream_load (the (objects c' i)) + out i) = inbound_load out c"
    using none by (auto simp: inbound_load_def c'(1) intro!: sum.cong)
  then have "inbound_load out c' = inbound_load out c"
    using fin none out by (subst inbound_load_def) (simp add: c'(1) domIff stream_load_def)
  then show ?thesis using inv acc c' by (simp add: inbound_inv_def conn_account_def)
qed

lemma streams_inv_insert:
  assumes inv: "streams_inv (\<lambda>s. free s + 1) c" and none: "objects c sid = None"
    and objs: "objects c' = (objects c)(sid \<mapsto> stream_state_new S a b 1 f)"
    and ids: "local_parity c' = local_parity c" "next_local_stream_id c' mod 2 = local_parity c"
      "next_remote_stream_id c' mod 2 = 1 - local_parity c" "unat (next_local_stream_id c') \<le> 2 ^ 62 + 1"
      "unat (next_remote_stream_id c') \<le> 2 ^ 62 + 1" "next_local_stream_id c \<le> next_local_stream_id c'"
      "next_remote_stream_id c \<le> next_remote_stream_id c'" "sid < id_limit c' sid"
    and same: "streams c' = insert sid (streams c)" "receive_windows (writer c') = insert sid (receive_windows (writer c))"
      "limits c' = limits c" "set (incoming_streams c') \<subseteq> insert sid (set (incoming_streams c))"
      "open_streams c' = open_streams c"
      "id_limit c sid \<le> sid" "\<And>v e. ResetStream v e \<in> set (control (writer c')) \<Longrightarrow> ResetStream v e \<in> set (control (writer c))"
  shows "streams_inv free c'"
proof -
  have fin: "finite (dom (objects c))" using inv by (simp add: streams_inv_def ids_inv_def)
  have le: "id_limit c i \<le> id_limit c' i" for i using ids by (simp add: id_limit_def)
  have dom: "dom (objects c') = insert sid (dom (objects c))" by (auto simp: objs)
  have old: "\<forall>i \<in> dom (objects c). i < id_limit c i" "streams c \<subseteq> dom (objects c)"
      "set (incoming_streams c) \<subseteq> dom (objects c)" "receive_windows (writer c) = streams c" "local_parity c \<le> 1"
    using inv by (simp_all add: streams_inv_def ids_inv_def)
  have "i < id_limit c' i" if "i \<in> dom (objects c)" for i
    using old(1) that le [of i] by (metis order.strict_trans2)
  then have "\<forall>i \<in> dom (objects c'). i < id_limit c' i" unfolding dom using ids(8) by simp
  moreover have "streams c' \<subseteq> dom (objects c')" "set (incoming_streams c') \<subseteq> dom (objects c')"
    unfolding dom same(1) using old(2,3) same(4) by blast+
  ultimately have "ids_inv c'"
    unfolding ids_inv_def using ids(1-5) same(1,2) old(4,5) fin dom by simp
  moreover have "open_load c' = open_load c + 1"
    using sum_dom_insert [OF fin none, of "\<lambda>st. held (open_permit st)" "stream_state_new S a b 1 f"]
    by (simp add: open_load_def objs held_def del: fun_upd_apply dom_fun_upd)
  then have "open_inv free c'" using inv same by (auto simp: streams_inv_def open_inv_def objs)
  moreover have "flags_inv c'"
    unfolding flags_inv_def
  proof (intro conjI allI impI)
    fix i st assume "objects c' i = Some st"
    then show "flags_ok st" using inv by (auto simp: objs streams_inv_def flags_inv_def split: if_splits)
  next
    fix v e assume "ResetStream v e \<in> set (control (writer c'))"
    then have r: "into_inner v < id_limit c (into_inner v)" "\<forall>st. objects c (into_inner v) = Some st \<longrightarrow> send_terminal st"
      using inv same(7) unfolding streams_inv_def flags_inv_def by blast+
    show "into_inner v < id_limit c' (into_inner v)" using r(1) le [of "into_inner v"] by (rule order.strict_trans2)
    have "into_inner v \<noteq> sid" using r(1) same(6) by auto
    then show "send_terminal st" if "objects c' (into_inner v) = Some st" for st using r(2) that by (simp add: objs)
  qed
  ultimately show ?thesis by (simp add: streams_inv_def)
qed

lemma queues_inv_insert:
  assumes inv: "queues_inv c" and none: "objects c sid = None" and sid: "sid \<le> varint_MAX"
    and bound: "a < 2 ^ 32"
    and c': "objects c' = (objects c)(sid \<mapsto> stream_state_new S a b p f)"
      "limits c' = limits c" "c_window c' = c_window c" "writer c' = (writer c)\<lparr>receive_windows := ids\<rparr>"
  shows "queues_inv c'"
proof -
  have "map_of (by_stream (writer c)) sid = None"
    using queues_invD(3) [OF inv, of sid] none by (cases "map_of (by_stream (writer c)) sid") (auto simp: stream_queue_ok_def)
  then have "stream_queue_ok (limits c) i (objects c' i) chs" if "map_of (by_stream (writer c)) i = Some chs" for i chs
    using queues_invD(3) [OF inv that] that c'(1) by (auto split: if_splits)
  moreover have "i \<le> varint_MAX \<and> rw_inv (s_window s) \<and> stream_credit_ok (peer_initial_stream_limit (writer c)) s"
    if "objects c' i = Some s" for i s
    using that queues_invD(4-6) [OF inv, of i] rw_inv_new [of a] sid bound by (auto simp: c'(1) split: if_splits)
  ultimately show ?thesis
    using inv c' by (simp add: queues_inv_def ready_ok_def control_ok_def cong: option.case_cong)
qed

lemma conn_inv_register:
  assumes inv: "opening_inv free waiting out c" and sid: "sid \<le> varint_MAX"
  shows "sid = next_local_stream_id c \<Longrightarrow>
      conn_inv free waiting out (register_stream S sid (c\<lparr>next_local_stream_id := sid + 2\<rparr>))"
    and "sid = next_remote_stream_id c \<Longrightarrow>
      conn_inv free waiting out ((register_stream S sid c)\<lparr>next_remote_stream_id := sid + 2\<rparr>)"
proof -
  have ids: "ids_inv c" using inv by (simp add: opening_inv_def streams_inv_def)
  have par: "1 - local_parity c \<noteq> local_parity c" using ids by (intro parity_cases(2)) (simp add: ids_inv_def)
  note fresh = next_ids_fresh [OF ids] and n = next_id [OF sid]
  obtain m where "valid_limits m (limits c)" using inv by (auto simp: opening_inv_def streams_inv_def open_inv_def)
  then have bound: "max_inbound_stream_bytes (limits c) < 2 ^ 32" by (simp add: valid_limits_def)
  let ?l = "register_stream S sid (c\<lparr>next_local_stream_id := sid + 2\<rparr>)"
  let ?r = "(register_stream S sid c)\<lparr>next_remote_stream_id := sid + 2\<rparr>"
  have q: "queues_inv c'" "inbound_inv free waiting out c'"
    if "objects c sid = None" "objects c' = objects (register_stream S sid c)" "limits c' = limits c"
      "c_window c' = c_window c" "inbound_conn_bytes c' = inbound_conn_bytes c"
      "writer c' = (writer c)\<lparr>receive_windows := insert sid (receive_windows (writer c))\<rparr>" for c'
  proof -
    show "queues_inv c'"
      by (rule queues_inv_insert [OF _ that(1) sid bound]) (use inv that in \<open>simp_all add: opening_inv_def register_stream_def\<close>)
    show "inbound_inv free waiting out c'"
      by (rule inbound_inv_insert [OF _ that(1) bound]) (use inv that in \<open>simp_all add: opening_inv_def register_stream_def\<close>)
  qed
  show "conn_inv free waiting out ?l" if "sid = next_local_stream_id c"
  proof -
    have none: "objects c sid = None" using fresh that by simp
    have "streams_inv free ?l"
      by (rule streams_inv_insert [OF _ none])
        (use inv that n fresh ids par in \<open>auto simp: opening_inv_def register_stream_def id_mod_2 ids_inv_def id_limit_def\<close>)
    then show ?thesis using q [OF none, of ?l] by (simp add: conn_inv_def register_stream_def)
  qed
  show "conn_inv free waiting out ?r" if "sid = next_remote_stream_id c"
  proof -
    have none: "objects c sid = None" using fresh that by simp
    have "streams_inv free ?r"
      by (rule streams_inv_insert [OF _ none])
        (use inv that n fresh ids par in \<open>auto simp: opening_inv_def register_stream_def id_mod_2 ids_inv_def id_limit_def\<close>)
    then show ?thesis using q [OF none, of ?r] by (simp add: conn_inv_def register_stream_def)
  qed
qed

lemma opening_inv_taken:
  assumes "conn_inv free waiting out c" "free s + 1 = free (open_streams c)"
  shows "opening_inv free waiting out (c\<lparr>open_streams := s\<rparr>)"
  using assms by (auto simp: conn_inv_def opening_inv_def intro: streams_inv_permits)

lemma opening_inv_give_back:
  assumes "opening_inv free waiting out c"
  shows "conn_inv free waiting out (c\<lparr>open_streams := sem_release S 1 (open_streams c)\<rparr>)"
  using assms by (auto simp: conn_inv_def opening_inv_def intro: streams_inv_permits)

lemma conn_inv_open_streams:
  assumes "conn_inv free waiting out c" "free s = free (open_streams c)"
  shows "conn_inv free waiting out (c\<lparr>open_streams := s\<rparr>)"
  using assms by (auto simp: conn_inv_def intro: streams_inv_permits)

lemma opening_inv_mark_closed:
  "opening_inv free waiting out c \<Longrightarrow> opening_inv free waiting out (mark_closed S c)"
  by (simp add: opening_inv_def queues_inv_mark_closed inbound_inv_mark_closed streams_inv_mark_closed)

section \<open>Opening a stream\<close>

lemma opening_inv_next_local:
  assumes "opening_inv free waiting out c"
  shows "take_stream_id (next_local_stream_id c) = (Inr sid, n) \<Longrightarrow>
    sid = next_local_stream_id c \<and> n = sid + 2 \<and> sid \<le> varint_MAX \<and> from_u64 sid = Inr (VarInt sid)"
    "take_stream_id (next_local_stream_id c) = (Inl e, n) \<Longrightarrow> e = StreamIdExhausted \<and> n = next_local_stream_id c"
  by (auto simp: take_stream_id_def from_u64_Inr split: if_splits)

lemma register_on_queues:
  "register_stream S sid (on_queues (\<lambda>q. q\<lparr>control := control q @ fs\<rparr>) c) =
   on_queues (\<lambda>q. q\<lparr>control := control q @ fs\<rparr>) (register_stream S sid c)"
  by (simp add: register_stream_def on_queues_def)

lemma open_finish_cases:
  assumes "opening_inv free waiting out c" and r: "open_finish S c = (r, c')"
  obtains (refused) "r = Inl (Fail ConnectionClosed)" "closed c" "c' = c\<lparr>open_streams := sem_release S 1 (open_streams c)\<rparr>"
  | (full) "r = Inl (Fail ConnectionClosed)" "closing (writer c) \<or> length (control (writer c)) \<ge> max_control_frames (limits c)"
      "c' = (mark_closed S c)\<lparr>open_streams := sem_release S 1 (open_streams (mark_closed S c))\<rparr>"
  | (exhausted) "r = Inl (Fail StreamIdExhausted)" "varint_MAX < next_local_stream_id c"
      "c' = c\<lparr>open_streams := sem_release S 1 (open_streams c)\<rparr>"
  | (opened) sid where "r = Inr sid" "sid = next_local_stream_id c" "sid \<le> varint_MAX" "\<not> closed c" "\<not> closing (writer c)"
      "length (control (writer c)) < max_control_frames (limits c)"
      "c' = add_handles sid (count_opened (on_queues (\<lambda>q. q\<lparr>control := control q @ [OpenStream (VarInt sid)]\<rparr>)
         (register_stream S sid (c\<lparr>next_local_stream_id := sid + 2\<rparr>))))"
proof (cases "closed c \<or> closing (writer c) \<or> length (control (writer c)) \<ge> max_control_frames (limits c)")
  case True
  then show thesis using r refused full by (auto simp: open_finish_def Let_def split: if_splits)
next
  case False
  show thesis
  proof (cases "next_local_stream_id c \<le> varint_MAX")
    case True
    then have "take_stream_id (next_local_stream_id c) = (Inr (next_local_stream_id c), next_local_stream_id c + 2)"
      by (simp add: take_stream_id_def)
    then show thesis
      using r False True opened [of "next_local_stream_id c"]
      by (simp add: open_finish_def Let_def from_u64_Inr [THEN iffD2] register_on_queues)
  next
    case no: False
    then have "take_stream_id (next_local_stream_id c) = (Inl StreamIdExhausted, next_local_stream_id c)"
      by (simp add: take_stream_id_def)
    then show thesis using r False no exhausted by (simp add: open_finish_def Let_def)
  qed
qed

lemma conn_inv_open_finish:
  assumes inv: "opening_inv free waiting out c"
  shows "conn_inv free waiting out (snd (open_finish S c))"
  using inv prod.collapse [of "open_finish S c", symmetric]
proof (cases rule: open_finish_cases)
  case refused
  then show ?thesis using opening_inv_give_back [OF inv] by simp
next
  case full
  then show ?thesis using opening_inv_give_back [OF opening_inv_mark_closed [OF inv]] by simp
next
  case exhausted
  then show ?thesis using opening_inv_give_back [OF inv] by simp
next
  case (opened sid)
  have "conn_inv free waiting out (register_stream S sid (c\<lparr>next_local_stream_id := sid + 2\<rparr>))"
    by (rule conn_inv_register(1) [OF inv opened(3,2)])
  then have "conn_inv free waiting out (on_queues (\<lambda>q. q\<lparr>control := control q @ [OpenStream (VarInt sid)]\<rparr>)
      (register_stream S sid (c\<lparr>next_local_stream_id := sid + 2\<rparr>)))"
    by (rule conn_inv_push_control) (use opened in \<open>simp_all add: register_stream_def wf_varint_def\<close>)
  then show ?thesis using opened by (simp add: conn_inv_add_handles)
qed

lemma conn_inv_open_permit_stage:
  assumes "conn_inv free waiting out c"
  shows "conn_inv free waiting out (snd (open_permit_stage S c))"
proof -
  obtain r s where p: "sem_poll_acquire S 1 (open_streams c) = (r, s)" by fastforce
  note f = poll_free [of 1 "open_streams c"]
  show ?thesis
  proof (cases r)
    case Granted
    then have "opening_inv free waiting out (c\<lparr>open_streams := s\<rparr>)" using f p by (intro opening_inv_taken [OF assms]) simp
    from conn_inv_open_finish [OF this] show ?thesis
      using Granted p by (simp add: open_permit_stage_def case_prod_beta Let_def)
  qed (use assms p f in \<open>auto simp: open_permit_stage_def intro: conn_inv_open_streams\<close>)
qed

lemma conn_inv_poll_open_bi:
  assumes "conn_inv free waiting out c"
  shows "conn_inv free waiting out (snd (poll_open_bi S stage c))"
proof -
  have "conn_inv free waiting out (snd (open_lock_stage S c))"
    using assms conn_inv_open_permit_stage [of out "c\<lparr>open_locked := True\<rparr>"]
    by (simp add: open_lock_stage_def split: sum.split)
  then show ?thesis
    using assms conn_inv_open_permit_stage [OF assms] by (cases stage) (auto split: sum.split)
qed

lemma conn_inv_drop_open: "conn_inv free waiting out c \<Longrightarrow> conn_inv free waiting out (drop_open stage c)"
  by (cases stage) simp_all

lemma conn_inv_incoming:
  assumes "conn_inv free waiting out c" "set xs \<subseteq> dom (objects c)"
  shows "conn_inv free waiting out (c\<lparr>incoming_streams := xs\<rparr>)"
proof -
  have [simp]: "id_limit (c\<lparr>incoming_streams := xs\<rparr>) = id_limit c" by (simp add: id_limit_def fun_eq_iff)
  show ?thesis using assms
    by (simp add: conn_inv_def queues_inv_def streams_inv_def ids_inv_def open_inv_def open_load_def flags_inv_def)
qed

lemma conn_inv_accept_bi:
  assumes "conn_inv free waiting out c"
  shows "conn_inv free waiting out (snd (accept_bi c))"
proof -
  have "set (incoming_streams c) \<subseteq> dom (objects c)" using assms by (simp add: conn_inv_def streams_inv_def ids_inv_def)
  then show ?thesis
    using assms by (auto simp: accept_bi_def split: sum.split list.split intro!: conn_inv_add_handles conn_inv_incoming)
qed

lemma conn_inv_on_remote_open:
  assumes inv: "conn_inv free waiting out c" and sid: "sid \<le> varint_MAX"
  shows "conn_inv free waiting out (snd (on_remote_open S sid c))"
proof -
  obtain r s where p: "sem_try_acquire S 1 (open_streams c) = (r, s)" by fastforce
  note f = try_free [of 1 "open_streams c"]
  have same: "conn_inv free waiting out (c\<lparr>open_streams := s\<rparr>)" if "r \<noteq> Granted"
    using that f p by (intro conn_inv_open_streams [OF inv]) simp
  show ?thesis
  proof (cases "sid mod 2 = local_parity c \<or> sid \<noteq> next_remote_stream_id c \<or> r \<noteq> Granted")
    case True
    then show ?thesis using inv same p by (auto simp: on_remote_open_def split: sem_result.split)
  next
    case False
    let ?c1 = "c\<lparr>open_streams := s\<rparr>"
    have o: "opening_inv free waiting out ?c1" using False f p by (intro opening_inv_taken [OF inv]) simp
    have reg: "conn_inv free waiting out ((register_stream S sid ?c1)\<lparr>next_remote_stream_id := sid + 2\<rparr>)"
      by (rule conn_inv_register(2) [OF o sid]) (use False in simp)
    have "set (incoming_streams c) \<subseteq> dom (objects c)" using inv by (simp add: conn_inv_def streams_inv_def ids_inv_def)
    then have "conn_inv free waiting out ((count_opened ((register_stream S sid ?c1)\<lparr>next_remote_stream_id := sid + 2\<rparr>))
        \<lparr>incoming_streams := incoming_streams c @ [sid]\<rparr>)"
      using reg by (intro conn_inv_incoming) (auto simp: count_opened_def register_stream_def)
    then show ?thesis
      using False p reg opening_inv_give_back [OF o]
      by (simp add: on_remote_open_def Let_def) (simp add: count_opened_def register_stream_def)
  qed
qed

section \<open>Frames of the peer for one stream\<close>

lemma inbound_inv_windows:
  assumes inv: "inbound_inv free waiting out c" and st: "objects c sid = Some st"
    and w1: "rw_inv w1" "window w1 = window (c_window c)" "buffered (c_window c) \<le> buffered w1"
    and w2: "rw_inv w2" "window w2 = window (s_window st)" "buffered (s_window st) \<le> buffered w2"
  shows "inbound_inv free waiting out (on_stream sid (\<lambda>st. st\<lparr>s_window := w2\<rparr>) (c\<lparr>c_window := w1\<rparr>))"
proof -
  have acc: "stream_account free waiting (out sid) (max_inbound_stream_bytes (limits c)) st"
    and conn: "conn_account free waiting (inbound_load out c) c"
    using inbound_invD [OF inv] st by auto
  show ?thesis
    by (rule inbound_inv_update [OF inv st, where st' = "st\<lparr>s_window := w2\<rparr>"])
      (use acc conn st w1 w2 in \<open>auto simp: on_stream_def stream_account_def conn_account_def stream_load_def\<close>)
qed

lemma conn_inv_windows:
  assumes inv: "conn_inv free waiting out c" and st: "objects c sid = Some st"
    and w1: "rw_inv w1" "window w1 = window (c_window c)" "buffered (c_window c) \<le> buffered w1"
    and w2: "rw_inv w2" "window w2 = window (s_window st)" "buffered (s_window st) \<le> buffered w2"
  shows "conn_inv free waiting out (on_stream sid (\<lambda>st. st\<lparr>s_window := w2\<rparr>) (c\<lparr>c_window := w1\<rparr>))"
proof -
  have "credit_frame c (c\<lparr>c_window := w1\<rparr>)" by (rule credit_frame_window)
  also have "credit_frame (c\<lparr>c_window := w1\<rparr>) (on_stream sid (\<lambda>st. st\<lparr>s_window := w2\<rparr>) (c\<lparr>c_window := w1\<rparr>))"
    by (rule credit_frame_s_window)
  finally show ?thesis
    by (rule conn_inv_credit_only [OF inv _ inbound_inv_windows [OF _ st w1 w2] st]) (use inv in \<open>simp add: conn_inv_def\<close>)
qed

lemma receive_both_cases:
  assumes inv: "conn_inv free waiting out c" and st: "objects c sid = Some st" and n: "n < 2 ^ 64"
    and r: "receive_both sid n c = (r, c')"
  obtains (over) "r = Inl (Fail (Protocol ''peer exceeded advertised receive credit''))" "conn_inv free waiting out c'"
      "unat (advertised (c_window c)) < unat (received (c_window c)) + n
       \<or> unat (advertised (s_window st)) < unat (received (s_window st)) + n"
  | (fits) w1 w2 where "r = Inr ()" "c' = on_stream sid (\<lambda>st. st\<lparr>s_window := w2\<rparr>) (c\<lparr>c_window := w1\<rparr>)"
      "conn_inv free waiting out c'" "inbound_load out c' + n \<le> buffered w1" "stream_load st + out sid + n \<le> buffered w2"
      "rw_receive n (c_window c) = (Inr (), w1)" "rw_receive n (s_window st) = (Inr (), w2)"
proof -
  have acc: "stream_account free waiting (out sid) (max_inbound_stream_bytes (limits c)) st"
    and conn: "conn_account free waiting (inbound_load out c) c"
    using inbound_invD [of free waiting out c] inv st by (auto simp: conn_inv_def)
  then have w: "rw_inv (c_window c)" "rw_inv (s_window st)" by (auto simp: stream_account_def conn_account_def)
  have le: "inbound_load out c \<le> buffered (c_window c)" "stream_load st + out sid \<le> buffered (s_window st)"
    using acc conn by (auto simp: stream_account_def conn_account_def)
  show thesis
  proof (cases "rw_receive n (c_window c)" rule: action_cases)
    case (failed e w1)
    then show thesis
      using r over inv n by (auto simp: receive_both_def rw_receive_eq split: if_splits)
  next
    case (returned x w1)
    note b1 = rw_receive_buffered [OF w(1) n, of w1]
    have w1: "rw_inv w1" "window w1 = window (c_window c)" "buffered w1 = buffered (c_window c) + n"
      using b1 returned by simp_all
    show thesis
    proof (cases "rw_receive n (s_window st)" rule: action_cases)
      case (failed e w2)
      then have "w2 = s_window st" "e = Protocol ''peer exceeded advertised receive credit''"
        "unat (advertised (s_window st)) < unat (received (s_window st)) + n"
        using n by (auto simp: rw_receive_eq split: if_splits)
      then show thesis
        using r returned failed st over conn_inv_windows [OF inv st w1(1,2) _ w(2)] w1(3)
        by (simp add: receive_both_def)
    next
      case (returned y w2)
      have w2: "rw_inv w2" "window w2 = window (s_window st)" "buffered w2 = buffered (s_window st) + n"
        using rw_receive_buffered [OF w(2) n, of w2] returned by simp_all
      have c': "r = Inr ()" "c' = on_stream sid (\<lambda>st. st\<lparr>s_window := w2\<rparr>) (c\<lparr>c_window := w1\<rparr>)"
        using r returned \<open>rw_receive n (c_window c) = (Inr x, w1)\<close> st by (simp_all add: receive_both_def)
      have "inbound_load out c' = inbound_load out c"
        using st by (auto simp: c' inbound_load_def stream_load_def on_stream_def intro!: sum.cong)
      then show thesis
        using fits [OF c'] conn_inv_windows [OF inv st w1(1,2) _ w2(1,2)] w1(3) w2(3) le returned
          \<open>rw_receive n (c_window c) = (Inr x, w1)\<close> c' by simp
    qed
  qed
qed

lemma conn_inv_push_inbound:
  assumes inv: "conn_inv free waiting out c" and st: "objects c sid = Some st"
    and n: "inbound_load out c + length payload \<le> buffered (c_window c)"
      "stream_load st + out sid + length payload \<le> buffered (s_window st)"
      "payload \<noteq> []" "length payload < 2 ^ 32"
  shows "conn_inv free waiting out (snd (push_inbound S sid payload c))"
proof -
  obtain cs where "credit_frame (on_inbound sid (\<lambda>i. i\<lparr>chunks := cs\<rparr>) c) (snd (push_inbound S sid payload c))"
    using credit_frame_push [OF st] by blast
  then show ?thesis
    by (rule conn_inv_credit [OF inv]) (use inv in \<open>auto simp: conn_inv_def intro: push_inbound_inv(1) [OF _ st n]\<close>)
qed

lemma conn_inv_on_remote_stream_frame:
  assumes inv: "conn_inv free waiting out c" and n: "length payload < 2 ^ 32"
  shows "conn_inv free waiting out (snd (on_remote_stream_frame S sid payload fin c))"
    "fst (on_remote_stream_frame S sid payload fin c) \<noteq> Inl Panicked"
proof -
  have fin: "conn_inv free waiting out (if fin then try_retire_stream S sid (mark_recv_terminal sid a) else a)"
    if "conn_inv free waiting out a" for a
    using that by (simp add: conn_inv_try_retire conn_inv_mark_recv_terminal)
  have "conn_inv free waiting out (snd (on_remote_stream_frame S sid payload fin c))
    \<and> fst (on_remote_stream_frame S sid payload fin c) \<noteq> Inl Panicked"
  proof (cases "lookup_stream sid c")
    case None
    then show ?thesis using inv by (simp add: on_remote_stream_frame_def)
  next
    case (Some st)
    then have st: "objects c sid = Some st" by (auto simp: lookup_stream_def split: if_splits)
    show ?thesis
    proof (cases "recv_terminal st")
      case True
      then show ?thesis using inv Some by (simp add: on_remote_stream_frame_def ensure_peer_send_open_def)
    next
      case False
      obtain r c1 where r: "receive_both sid (length payload) c = (r, c1)" by fastforce
      have eq: "on_remote_stream_frame S sid payload fin c =
          (case r of Inl e \<Rightarrow> (Inl e, c1)
           | Inr _ \<Rightarrow> and_then (if payload \<noteq> [] then push_inbound S sid payload else ok ()) (\<lambda>_ c.
                 (Inr (), if fin then try_retire_stream S sid (mark_recv_terminal sid c) else c)) c1)"
        using Some False r by (simp add: on_remote_stream_frame_def ensure_peer_send_open_def and_then_def split: sum.split)
      have "length payload < 2 ^ 64" using n by simp
      from inv st this r show ?thesis
      proof (cases rule: receive_both_cases)
        case over
        then show ?thesis by (simp add: eq)
      next
        case (fits w1 w2)
        have st1: "objects c1 sid = Some (st\<lparr>s_window := w2\<rparr>)" using st fits(2) by simp
        show ?thesis
        proof (cases "payload = []")
          case True
          then show ?thesis unfolding eq using fits(1,3) fin by (simp add: and_then_def ok_def)
        next
          case ne: False
          have p: "conn_inv free waiting out (snd (push_inbound S sid payload c1))"
              "fst (push_inbound S sid payload c1) \<noteq> Inl Panicked"
            using conn_inv_push_inbound [OF fits(3) st1 _ _ ne n] push_inbound_inv(2) [OF _ st1 _ _ ne n, of out] fits
            by (auto simp: conn_inv_def stream_load_def)
          show ?thesis
            by (cases "push_inbound S sid payload c1" rule: action_cases)
              (use ne fits(1) p fin in \<open>simp_all add: eq and_then_def\<close>)
        qed
      qed
    qed
  qed
  then show "conn_inv free waiting out (snd (on_remote_stream_frame S sid payload fin c))"
    "fst (on_remote_stream_frame S sid payload fin c) \<noteq> Inl Panicked" by simp_all
qed

lemma conn_inv_on_remote_reset:
  "conn_inv free waiting out c \<Longrightarrow> conn_inv free waiting out (snd (on_remote_reset S sid code c))"
  by (auto simp: on_remote_reset_def split: option.split sum.split
      intro!: conn_inv_try_retire conn_inv_mark_recv_terminal conn_inv_mark_reset)

end

end
