(* ===== verification/Sending.thy ===== *)
theory Sending
  imports Conn_Inv
begin

text \<open>
  The sending path of \<^verbatim>\<open>muxtls/src/connection.rs\<close>: \<open>queue_stream_chunk\<close>, a future that waits for the lock of the
  stream and for permits of four budgets before its chunk enters the queue of the writer, and
  \<open>send_stream_chunk\<close>, which abandons it when the sending side is closed meanwhile.
\<close>

section \<open>Model\<close>

text \<open>Where a poll of \<open>queue_stream_chunk\<close> resumes: before its first check, at the lock, or at one of the four
  permits, in the order in which they are acquired. From the first permit on the future holds the lock.\<close>

datatype queue_stage = QStart | QLock | QStreamFrame | QStreamBytes | QConnFrame | QConnBytes

definition byte_permit :: "bytes \<Rightarrow> usize option" where
  "byte_permit payload = (if payload = [] then None else Some (as_u32 (length payload)))"

text \<open>Giving back permits of the outbound budgets.\<close>

definition release_outbound :: "'s sem_ops \<Rightarrow> u64 \<Rightarrow> usize \<Rightarrow> usize \<Rightarrow> usize \<Rightarrow> usize \<Rightarrow> 's connection \<Rightarrow> 's connection" where
  "release_outbound S sid stream_frames stream_bytes conn_frames conn_bytes c =
     on_stream sid (\<lambda>st. st\<lparr>outbound_stream_frames := sem_release S stream_frames (outbound_stream_frames st),
                            outbound_stream_bytes := sem_release S stream_bytes (outbound_stream_bytes st)\<rparr>)
       (c\<lparr>outbound_frames := sem_release S conn_frames (outbound_frames c),
          outbound_conn_bytes := sem_release S conn_bytes (outbound_conn_bytes c)\<rparr>)"

definition set_send_locked :: "u64 \<Rightarrow> bool \<Rightarrow> 's connection \<Rightarrow> 's connection" where
  "set_send_locked sid b c = on_stream sid (\<lambda>st. st\<lparr>send_locked := b\<rparr>) c"

text \<open>The end of the future, with all permits: the chunk is handed to the writer.\<close>

definition queue_finish ::
  "'s sem_ops \<Rightarrow> u64 \<Rightarrow> bytes \<Rightarrow> bool \<Rightarrow> 's connection \<Rightarrow> (fault + unit) \<times> 's connection" where
  "queue_finish S sid payload fin c =
     (let permit = byte_permit payload in
      case ensure_open c of
        Inl e \<Rightarrow> (Inl (Fail e), set_send_locked sid False (release_outbound S sid 1 (held permit) 1 (held permit) c))
      | Inr _ \<Rightarrow>
          (let (enqueued, c) = enqueue_data S sid \<lparr>out_state = sid, frame_permit = 1, stream_frame_permit = 1,
                 out_stream_id = VarInt sid, out_payload = payload, out_fin = fin,
                 out_conn_permit = permit, out_stream_permit = permit\<rparr> c
           in if \<not> enqueued
              then (Inl (Fail (Protocol ''stream or connection closed before enqueue'')), set_send_locked sid False c)
              else (Inr (), set_send_locked sid False
                     (if fin then on_stream sid (\<lambda>st. st\<lparr>send_terminal := True\<rparr>) c else c))))"

definition queue_conn_bytes ::
  "'s sem_ops \<Rightarrow> u64 \<Rightarrow> bytes \<Rightarrow> bool \<Rightarrow> 's connection \<Rightarrow> ((fault + unit) + queue_stage) \<times> 's connection" where
  "queue_conn_bytes S sid payload fin c =
     (if payload = [] then (let (r, c) = queue_finish S sid payload fin c in (Inl r, c))
      else case sem_poll_acquire S (as_u32 (length payload)) (outbound_conn_bytes c) of
        (Granted, s) \<Rightarrow> (let (r, c) = queue_finish S sid payload fin (c\<lparr>outbound_conn_bytes := s\<rparr>) in (Inl r, c))
      | (Unavailable, s) \<Rightarrow> (Inr QConnBytes, c\<lparr>outbound_conn_bytes := s\<rparr>)
      | (SemClosed, s) \<Rightarrow>
          (Inl (Inl (Fail ConnectionClosed)), set_send_locked sid False
             (release_outbound S sid 1 (held (byte_permit payload)) 1 0 (c\<lparr>outbound_conn_bytes := s\<rparr>))))"

definition queue_conn_frame ::
  "'s sem_ops \<Rightarrow> u64 \<Rightarrow> bytes \<Rightarrow> bool \<Rightarrow> 's connection \<Rightarrow> ((fault + unit) + queue_stage) \<times> 's connection" where
  "queue_conn_frame S sid payload fin c =
     (case sem_poll_acquire S 1 (outbound_frames c) of
        (Granted, s) \<Rightarrow> queue_conn_bytes S sid payload fin (c\<lparr>outbound_frames := s\<rparr>)
      | (Unavailable, s) \<Rightarrow> (Inr QConnFrame, c\<lparr>outbound_frames := s\<rparr>)
      | (SemClosed, s) \<Rightarrow>
          (Inl (Inl (Fail ConnectionClosed)), set_send_locked sid False
             (release_outbound S sid 1 (held (byte_permit payload)) 0 0 (c\<lparr>outbound_frames := s\<rparr>))))"

definition queue_stream_bytes ::
  "'s sem_ops \<Rightarrow> u64 \<Rightarrow> bytes \<Rightarrow> bool \<Rightarrow> 's connection \<Rightarrow> ((fault + unit) + queue_stage) \<times> 's connection" where
  "queue_stream_bytes S sid payload fin c =
     (if payload = [] then queue_conn_frame S sid payload fin c
      else case objects c sid of
        None \<Rightarrow> (Inl (Inl Panicked), c)
      | Some st \<Rightarrow>
          (case sem_poll_acquire S (as_u32 (length payload)) (outbound_stream_bytes st) of
             (Granted, s) \<Rightarrow> queue_conn_frame S sid payload fin (on_stream sid (\<lambda>st. st\<lparr>outbound_stream_bytes := s\<rparr>) c)
           | (Unavailable, s) \<Rightarrow> (Inr QStreamBytes, on_stream sid (\<lambda>st. st\<lparr>outbound_stream_bytes := s\<rparr>) c)
           | (SemClosed, s) \<Rightarrow>
               (Inl (Inl (Fail ConnectionClosed)), set_send_locked sid False
                  (release_outbound S sid 1 0 0 0 (on_stream sid (\<lambda>st. st\<lparr>outbound_stream_bytes := s\<rparr>) c)))))"

definition queue_stream_frame ::
  "'s sem_ops \<Rightarrow> u64 \<Rightarrow> bytes \<Rightarrow> bool \<Rightarrow> 's connection \<Rightarrow> ((fault + unit) + queue_stage) \<times> 's connection" where
  "queue_stream_frame S sid payload fin c =
     (case objects c sid of
        None \<Rightarrow> (Inl (Inl Panicked), c)
      | Some st \<Rightarrow>
          (case sem_poll_acquire S 1 (outbound_stream_frames st) of
             (Granted, s) \<Rightarrow> queue_stream_bytes S sid payload fin (on_stream sid (\<lambda>st. st\<lparr>outbound_stream_frames := s\<rparr>) c)
           | (Unavailable, s) \<Rightarrow> (Inr QStreamFrame, on_stream sid (\<lambda>st. st\<lparr>outbound_stream_frames := s\<rparr>) c)
           | (SemClosed, s) \<Rightarrow>
               (Inl (Inl (Fail ConnectionClosed)), set_send_locked sid False
                  (on_stream sid (\<lambda>st. st\<lparr>outbound_stream_frames := s\<rparr>) c))))"

text \<open>The checks made under the lock; \<open>Inr False\<close> is the empty write that needs no frame.\<close>

definition queue_checks :: "u64 \<Rightarrow> bytes \<Rightarrow> bool \<Rightarrow> 's stream_state \<Rightarrow> 's connection \<Rightarrow> error + bool" where
  "queue_checks sid payload fin st c =
     (case ensure_open c of
        Inl e \<Rightarrow> Inl e
      | Inr _ \<Rightarrow>
          if send_terminal st then Inl (Protocol ''stream send side already closed'')
          else case from_u64 sid of
            Inl e \<Rightarrow> Inl (Protocol (varint_error_display e))
          | Inr proto_stream_id \<Rightarrow>
              (case frame_encoded_len (Stream proto_stream_id fin payload) of
                 Inl e \<Rightarrow> Inl (Wire e)
               | Inr encoded_len \<Rightarrow>
                   if encoded_len > max_frame_size (limits c)
                   then Inl (LimitExceeded (''encoded stream frame size '' @ show_nat encoded_len
                          @ '' exceeds max frame size '' @ show_nat (max_frame_size (limits c))))
                   else if length payload > max_outbound_stream_bytes (limits c)
                   then Inl (LimitExceeded ''chunk exceeds the outbound stream byte budget'')
                   else Inr (payload \<noteq> [] \<or> fin)))"

definition queue_lock ::
  "'s sem_ops \<Rightarrow> u64 \<Rightarrow> bytes \<Rightarrow> bool \<Rightarrow> 's connection \<Rightarrow> ((fault + unit) + queue_stage) \<times> 's connection" where
  "queue_lock S sid payload fin c =
     (case objects c sid of
        None \<Rightarrow> (Inl (Inl Panicked), c)
      | Some st \<Rightarrow>
          if send_locked st then (Inr QLock, c)
          else case queue_checks sid payload fin st c of
            Inl e \<Rightarrow> (Inl (Inl (Fail e)), c)
          | Inr False \<Rightarrow> (Inl (Inr ()), c)
          | Inr True \<Rightarrow> queue_stream_frame S sid payload fin (set_send_locked sid True c))"

fun poll_queue ::
  "'s sem_ops \<Rightarrow> u64 \<Rightarrow> bytes \<Rightarrow> bool \<Rightarrow> queue_stage \<Rightarrow> 's connection \<Rightarrow> ((fault + unit) + queue_stage) \<times> 's connection" where
  "poll_queue S sid payload fin QStart c =
     (case ensure_open c of Inl e \<Rightarrow> (Inl (Inl (Fail e)), c) | Inr _ \<Rightarrow> queue_lock S sid payload fin c)"
| "poll_queue S sid payload fin QLock c = queue_lock S sid payload fin c"
| "poll_queue S sid payload fin QStreamFrame c = queue_stream_frame S sid payload fin c"
| "poll_queue S sid payload fin QStreamBytes c = queue_stream_bytes S sid payload fin c"
| "poll_queue S sid payload fin QConnFrame c = queue_conn_frame S sid payload fin c"
| "poll_queue S sid payload fin QConnBytes c = queue_conn_bytes S sid payload fin c"

text \<open>Dropping the future at a stage: its permits and its lock are released.\<close>

fun drop_queue :: "'s sem_ops \<Rightarrow> u64 \<Rightarrow> bytes \<Rightarrow> queue_stage \<Rightarrow> 's connection \<Rightarrow> 's connection" where
  "drop_queue S sid payload QStart c = c"
| "drop_queue S sid payload QLock c = c"
| "drop_queue S sid payload QStreamFrame c = set_send_locked sid False c"
| "drop_queue S sid payload QStreamBytes c = set_send_locked sid False (release_outbound S sid 1 0 0 0 c)"
| "drop_queue S sid payload QConnFrame c =
     set_send_locked sid False (release_outbound S sid 1 (held (byte_permit payload)) 0 0 c)"
| "drop_queue S sid payload QConnBytes c =
     set_send_locked sid False (release_outbound S sid 1 (held (byte_permit payload)) 1 0 c)"

text \<open>One poll of \<open>send_stream_chunk\<close>: the biased \<open>select!\<close> looks at \<open>send_terminal\<close> first.\<close>

definition poll_send ::
  "'s sem_ops \<Rightarrow> u64 \<Rightarrow> bytes \<Rightarrow> bool \<Rightarrow> queue_stage \<Rightarrow> 's connection \<Rightarrow> ((fault + unit) + queue_stage) \<times> 's connection" where
  "poll_send S sid payload fin stage c =
     (case objects c sid of
        None \<Rightarrow> (Inl (Inl Panicked), c)
      | Some st \<Rightarrow>
          if send_terminal st
          then (Inl (Inl (Fail (Protocol ''stream send side closed''))), drop_queue S sid payload stage c)
          else poll_queue S sid payload fin stage c)"

section \<open>The future keeps the invariant of the connection\<close>

text \<open>What the checks establish for a chunk that is going to be queued.\<close>

definition queued_ok :: "limits \<Rightarrow> u64 \<Rightarrow> bytes \<Rightarrow> bool \<Rightarrow> bool" where
  "queued_ok l sid payload fin \<longleftrightarrow> sid \<le> varint_MAX \<and> (payload \<noteq> [] \<or> fin)
     \<and> length (frame_bytes (Stream (VarInt sid) fin payload)) \<le> max_frame_size l
     \<and> length payload \<le> max_outbound_stream_bytes l"

definition pending_ok :: "limits \<Rightarrow> u64 \<Rightarrow> bytes \<Rightarrow> bool \<Rightarrow> queue_stage \<Rightarrow> bool" where
  "pending_ok l sid payload fin stage \<longleftrightarrow> stage = QStart \<or> stage = QLock \<or> queued_ok l sid payload fin"

lemma queue_checks_ok:
  assumes "queue_checks sid payload fin st c = Inr b" "max_frame_size (limits c) < 2 ^ 32"
  shows "b \<Longrightarrow> queued_ok (limits c) sid payload fin" "\<not> closed c" "\<not> send_terminal st" "b \<longleftrightarrow> payload \<noteq> [] \<or> fin"
proof -
  obtain v n where v: "from_u64 sid = Inr v" "frame_encoded_len (Stream v fin payload) = Inr n" "n \<le> max_frame_size (limits c)"
      "length payload \<le> max_outbound_stream_bytes (limits c)"
    and r: "\<not> closed c" "\<not> send_terminal st" "b \<longleftrightarrow> payload \<noteq> [] \<or> fin"
    using assms(1) unfolding queue_checks_def ensure_open_def
    by (auto simp del: frame_encoded_len.simps split: if_splits sum.splits)
  show "\<not> closed c" "\<not> send_terminal st" "b \<longleftrightarrow> payload \<noteq> [] \<or> fin" by fact+
  have sid: "sid \<le> varint_MAX" "v = VarInt sid" using v(1) by (auto simp: from_u64_Inr)
  have "length payload \<le> n" using v(2) by (auto split: sum.splits)
  then have "wf_frame (Stream v fin payload)" using v(3) sid assms(2) by (simp add: wf_varint_def)
  from frame_encoded_len_exact [OF this] v(2) have "n = length (frame_bytes (Stream v fin payload))"
    by (simp del: frame_encoded_len.simps frame_bytes.simps)
  then show "b \<Longrightarrow> queued_ok (limits c) sid payload fin"
    using v r(3) sid unfolding queued_ok_def by simp
qed

lemma queues_inv_enqueue:
  assumes inv: "queues_inv c" and st: "objects c sid = Some st" "\<not> send_terminal st"
    and ch: "out_chunk_ok (limits c) sid chunk" "out_fin chunk \<longrightarrow> send_terminal st'"
    and st': "s_window st' = s_window st" "s_sent st' = s_sent st" "s_peer_limit st' = s_peer_limit st"
    and c': "objects c' = (objects c)(sid \<mapsto> st')" "limits c' = limits c" "c_window c' = c_window c"
      "writer c' = (writer c)\<lparr>by_stream := AList.update sid (queue_of sid (writer c) @ [chunk]) (by_stream (writer c)),
               ready := (if queue_of sid (writer c) = [] then ready (writer c) @ [sid] else ready (writer c))\<rparr>"
  shows "queues_inv c'"
proof -
  let ?q = "writer c"
  have rok: "ready_ok ?q" by (rule queues_invD(1) [OF inv])
  have key: "sid \<in> fst ` set (by_stream ?q) \<longleftrightarrow> queue_of sid ?q \<noteq> []"
    using queues_invD(3) [OF inv, of sid] rok
    by (auto simp: queue_of_def stream_queue_ok_def ready_ok_def map_of_eq_None_iff [symmetric] split: option.splits)
  have q: "list_all (out_chunk_ok (limits c) sid) (queue_of sid ?q) \<and> list_all (\<lambda>ch. \<not> out_fin ch) (queue_of sid ?q)"
  proof (cases "map_of (by_stream ?q) sid")
    case (Some chs)
    then have "stream_queue_ok (limits c) sid (Some st) chs" using queues_invD(3) [OF inv Some] st(1) by simp
    then show ?thesis using st(2) Some
      by (cases chs rule: rev_cases) (auto simp: stream_queue_ok_def queue_of_def)
  qed (simp add: queue_of_def)
  have "ready_ok (writer c')"
    using rok key unfolding ready_ok_def c'(4) by (auto simp: AList.distinct_update AList.dom_update)
  moreover have "stream_queue_ok (limits c) i (objects c' i) chs" if "map_of (by_stream (writer c')) i = Some chs" for i chs
  proof (cases "i = sid")
    case True
    then have "chs = queue_of sid ?q @ [chunk]" using that by (simp add: c'(4) AList.update_conv')
    then show ?thesis using True q ch by (simp add: stream_queue_ok_def c'(1))
  next
    case False
    then show ?thesis using that queues_invD(3) [OF inv, of i chs] by (simp add: c'(1,4) AList.update_conv')
  qed
  moreover have "i \<le> varint_MAX \<and> rw_inv (s_window s) \<and> stream_credit_ok (peer_initial_stream_limit ?q) s"
    if "objects c' i = Some s" for i s
    using that queues_invD(4-6) [OF inv, of i] st st' by (auto simp: c'(1) stream_credit_ok_def split: if_splits)
  ultimately show ?thesis
    using inv c' by (simp add: queues_inv_def control_ok_def cong: option.case_cong)
qed

context semaphore
begin

lemma conn_inv_set_send_locked: "conn_inv free waiting out c \<Longrightarrow> conn_inv free waiting out (set_send_locked sid b c)"
  unfolding set_send_locked_def by (rule conn_inv_on_stream) (simp_all add: harmless_def flags_ok_def)

lemma conn_inv_release_outbound:
  "conn_inv free waiting out c \<Longrightarrow> conn_inv free waiting out (release_outbound S sid a b d e c)"
  unfolding release_outbound_def by (rule conn_inv_on_stream) (simp_all add: harmless_def flags_ok_def)

lemma conn_inv_stream_sems:
  assumes "conn_inv free waiting out c"
  shows "conn_inv free waiting out (on_stream sid (\<lambda>st. st\<lparr>outbound_stream_bytes := s\<rparr>) c)"
    "conn_inv free waiting out (on_stream sid (\<lambda>st. st\<lparr>outbound_stream_frames := s\<rparr>) c)"
  by (rule conn_inv_on_stream [OF assms]; simp add: harmless_def flags_ok_def)+

lemmas conn_inv_queue = conn_inv_set_send_locked conn_inv_release_outbound conn_inv_stream_sems

lemma conn_inv_enqueue_data:
  assumes inv: "conn_inv free waiting out c" and ok: "queued_ok (limits c) sid payload fin"
    and e: "enqueue_data S sid \<lparr>out_state = sid, frame_permit = a, stream_frame_permit = b,
        out_stream_id = VarInt sid, out_payload = payload, out_fin = fin,
        out_conn_permit = p, out_stream_permit = p'\<rparr> c = (r, c1)" (is "enqueue_data S sid ?ch c = _")
    and obj: "objects c sid = Some st"
  shows "conn_inv free waiting out (if r \<and> fin then on_stream sid (\<lambda>st. st\<lparr>send_terminal := True\<rparr>) c1 else c1)"
proof (cases r)
  case False
  then have "c1 = drop_out_chunks S [?ch] c" using e by (auto simp: enqueue_data_def split: if_splits)
  then show ?thesis using conn_inv_drop_outs [OF inv, of "[?ch]"] False by simp
next
  case True
  define st' where "st' = st\<lparr>send_terminal := send_terminal st \<or> fin\<rparr>"
  let ?c = "if fin then on_stream sid (\<lambda>st. st\<lparr>send_terminal := True\<rparr>) c1 else c1"
  let ?d = "if fin then on_stream sid (\<lambda>st. st\<lparr>send_terminal := True\<rparr>) c else c"
  let ?g = "\<lambda>q. q\<lparr>by_stream := AList.update sid (queue_of sid q @ [?ch]) (by_stream q),
               ready := (if queue_of sid q = [] then ready q @ [sid] else ready q)\<rparr>"
  have t: "\<not> send_terminal st" and c1: "c1 = on_queues ?g c"
    using e True obj by (auto simp: enqueue_data_def split: if_splits)
  have eq: "?c = on_queues ?g ?d" unfolding c1 by (simp add: on_stream_on_queues)
  have c0: "conn_inv free waiting out ?d"
    using inv conn_inv_on_stream [OF inv, of "\<lambda>st. st\<lparr>send_terminal := True\<rparr>" sid] by (simp add: harmless_def flags_ok_def)
  have "queues_inv ?c"
    by (rule queues_inv_enqueue [where c = c and st = st and st' = st' and sid = sid and chunk = ?ch])
      (use inv obj t c1 ok in \<open>auto simp: conn_inv_def out_chunk_ok_def queued_ok_def st'_def on_stream_def
        simp del: frame_bytes.simps\<close>)
  moreover have "streams_inv free ?c"
    unfolding eq by (rule streams_inv_on_queues) (use c0 in \<open>simp_all add: conn_inv_def\<close>)
  moreover have "inbound_inv free waiting out ?c" unfolding eq using c0 by (simp add: conn_inv_def)
  ultimately show ?thesis using True by (simp add: conn_inv_def)
qed

lemma conn_inv_queue_finish:
  assumes inv: "conn_inv free waiting out c" and ok: "queued_ok (limits c) sid payload fin" and obj: "objects c sid = Some st"
  shows "conn_inv free waiting out (snd (queue_finish S sid payload fin c))"
proof -
  let ?ch = "\<lparr>out_state = sid, frame_permit = 1, stream_frame_permit = 1, out_stream_id = VarInt sid, out_payload = payload,
      out_fin = fin, out_conn_permit = byte_permit payload, out_stream_permit = byte_permit payload\<rparr>"
  obtain r c1 where e: "enqueue_data S sid ?ch c = (r, c1)" by fastforce
  from conn_inv_enqueue_data [OF inv ok this obj] show ?thesis
    using inv e by (auto simp: queue_finish_def Let_def ensure_open_def intro!: conn_inv_queue split: if_splits)
qed

lemma conn_inv_queue_conn_bytes:
  assumes inv: "conn_inv free waiting out c" and ok: "queued_ok (limits c) sid payload fin" and obj: "objects c sid = Some st"
  shows "conn_inv free waiting out (snd (queue_conn_bytes S sid payload fin c))"
proof -
  have fin: "conn_inv free waiting out (snd (queue_finish S sid payload fin (c\<lparr>outbound_conn_bytes := s\<rparr>)))"
      "conn_inv free waiting out (snd (queue_finish S sid payload fin c))" for s
    by (rule conn_inv_queue_finish; use inv ok obj in simp)+
  show ?thesis
    using inv fin by (auto simp: queue_conn_bytes_def case_prod_beta Let_def intro!: conn_inv_queue split: sem_result.split)
qed

lemma conn_inv_queue_conn_frame:
  assumes inv: "conn_inv free waiting out c" and ok: "queued_ok (limits c) sid payload fin" and obj: "objects c sid = Some st"
  shows "conn_inv free waiting out (snd (queue_conn_frame S sid payload fin c))"
proof -
  have n: "conn_inv free waiting out (snd (queue_conn_bytes S sid payload fin (c\<lparr>outbound_frames := s\<rparr>)))" for s
    by (rule conn_inv_queue_conn_bytes; use inv ok obj in simp)
  show ?thesis
    using inv n by (auto simp: queue_conn_frame_def case_prod_beta intro!: conn_inv_queue split: sem_result.split)
qed

lemma conn_inv_queue_stream_bytes:
  assumes inv: "conn_inv free waiting out c" and ok: "queued_ok (limits c) sid payload fin" and obj: "objects c sid = Some st"
  shows "conn_inv free waiting out (snd (queue_stream_bytes S sid payload fin c))"
proof -
  have n: "conn_inv free waiting out (snd (queue_conn_frame S sid payload fin
      (on_stream sid (\<lambda>st. st\<lparr>outbound_stream_bytes := s\<rparr>) c)))" for s
    by (rule conn_inv_queue_conn_frame) (use inv ok obj in \<open>simp_all add: conn_inv_stream_sems\<close>)
  show ?thesis
    using inv n obj conn_inv_queue_conn_frame [OF inv ok obj]
    by (auto simp: queue_stream_bytes_def case_prod_beta intro!: conn_inv_queue split: sem_result.split)
qed

lemma conn_inv_queue_stream_frame:
  assumes inv: "conn_inv free waiting out c" and ok: "queued_ok (limits c) sid payload fin" and obj: "objects c sid = Some st"
  shows "conn_inv free waiting out (snd (queue_stream_frame S sid payload fin c))"
proof -
  have n: "conn_inv free waiting out (snd (queue_stream_bytes S sid payload fin
      (on_stream sid (\<lambda>st. st\<lparr>outbound_stream_frames := s\<rparr>) c)))" for s
    by (rule conn_inv_queue_stream_bytes) (use inv ok obj in \<open>simp_all add: conn_inv_stream_sems\<close>)
  show ?thesis
    using inv n obj by (auto simp: queue_stream_frame_def case_prod_beta intro!: conn_inv_queue split: sem_result.split)
qed

lemma conn_inv_queue_lock:
  assumes inv: "conn_inv free waiting out c"
  shows "conn_inv free waiting out (snd (queue_lock S sid payload fin c))"
proof (cases "objects c sid")
  case None
  then show ?thesis using inv by (simp add: queue_lock_def)
next
  case (Some st)
  have "max_frame_size (limits c) < 2 ^ 32" using inv queues_invD(12) by (auto simp: conn_inv_def)
  then have "conn_inv free waiting out (snd (queue_stream_frame S sid payload fin (set_send_locked sid True c)))"
    if "queue_checks sid payload fin st c = Inr True"
    using that queue_checks_ok(1) inv Some
    by (intro conn_inv_queue_stream_frame conn_inv_set_send_locked) (simp_all add: set_send_locked_def)
  then show ?thesis using Some inv by (auto simp: queue_lock_def split: sum.split bool.split)
qed

lemma conn_inv_poll_queue:
  assumes inv: "conn_inv free waiting out c" and ok: "pending_ok (limits c) sid payload fin stage" and obj: "objects c sid = Some st"
  shows "conn_inv free waiting out (snd (poll_queue S sid payload fin stage c))"
  using conn_inv_queue_lock [OF inv] conn_inv_queue_stream_frame [OF inv _ obj] conn_inv_queue_stream_bytes [OF inv _ obj]
    conn_inv_queue_conn_frame [OF inv _ obj] conn_inv_queue_conn_bytes [OF inv _ obj] ok inv
  by (cases stage) (simp_all add: pending_ok_def split: sum.split)

lemma conn_inv_drop_queue:
  "conn_inv free waiting out c \<Longrightarrow> conn_inv free waiting out (drop_queue S sid payload stage c)"
  by (cases stage) (simp_all add: conn_inv_queue)

lemma conn_inv_poll_send:
  assumes "conn_inv free waiting out c" "pending_ok (limits c) sid payload fin stage"
  shows "conn_inv free waiting out (snd (poll_send S sid payload fin stage c))"
  using assms conn_inv_poll_queue [OF assms] by (auto simp: poll_send_def conn_inv_drop_queue split: option.split)

end

text \<open>A pending future has passed the checks, or is still before them.\<close>

lemma queue_stages:
  "fst (queue_conn_bytes S sid payload fin c) = Inr g \<Longrightarrow> g = QConnBytes"
  "fst (queue_conn_frame S sid payload fin c) = Inr g \<Longrightarrow> g \<in> {QConnFrame, QConnBytes}"
  "fst (queue_stream_bytes S sid payload fin c) = Inr g \<Longrightarrow> g \<in> {QStreamBytes, QConnFrame, QConnBytes}"
  "fst (queue_stream_frame S sid payload fin c) = Inr g \<Longrightarrow> g \<notin> {QStart, QLock}"
proof -
  have 1: "fst (queue_conn_bytes S sid payload fin c) = Inr g \<Longrightarrow> g = QConnBytes" for c
    by (auto simp: queue_conn_bytes_def case_prod_beta Let_def split: sem_result.splits if_splits)
  have 2: "fst (queue_conn_frame S sid payload fin c) = Inr g \<Longrightarrow> g \<in> {QConnFrame, QConnBytes}" for c
    by (auto simp: queue_conn_frame_def case_prod_beta Let_def dest: 1 split: sem_result.splits if_splits)
  have 3: "fst (queue_stream_bytes S sid payload fin c) = Inr g \<Longrightarrow> g \<in> {QStreamBytes, QConnFrame, QConnBytes}" for c
    using 2 by (fastforce simp: queue_stream_bytes_def case_prod_beta Let_def split: sem_result.splits if_splits option.splits)
  have 4: "fst (queue_stream_frame S sid payload fin c) = Inr g \<Longrightarrow> g \<notin> {QStart, QLock}" for c
    using 3 by (fastforce simp: queue_stream_frame_def case_prod_beta Let_def split: sem_result.splits if_splits option.splits)
  show "fst (queue_conn_bytes S sid payload fin c) = Inr g \<Longrightarrow> g = QConnBytes"
    "fst (queue_conn_frame S sid payload fin c) = Inr g \<Longrightarrow> g \<in> {QConnFrame, QConnBytes}"
    "fst (queue_stream_bytes S sid payload fin c) = Inr g \<Longrightarrow> g \<in> {QStreamBytes, QConnFrame, QConnBytes}"
    "fst (queue_stream_frame S sid payload fin c) = Inr g \<Longrightarrow> g \<notin> {QStart, QLock}"
    by (fact 1 2 3 4)+
qed

lemma pending_ok_poll_send:
  assumes "pending_ok (limits c) sid payload fin stage" "poll_send S sid payload fin stage c = (Inr stage', c')"
    and "max_frame_size (limits c) < 2 ^ 32"
  shows "pending_ok (limits c) sid payload fin stage'"
proof -
  have l: "pending_ok (limits c) sid payload fin g" if "fst (queue_lock S sid payload fin c) = Inr g" for g
    using that queue_checks_ok(1) [OF _ assms(3)]
    by (auto simp: queue_lock_def pending_ok_def split: option.splits if_splits sum.splits bool.splits)
  have p: "fst (poll_queue S sid payload fin stage c) = Inr stage'"
    using assms(2) by (auto simp: poll_send_def split: option.splits if_splits)
  show ?thesis
    using assms(1) p l by (cases stage) (auto simp: pending_ok_def split: sum.splits dest: queue_stages)
qed

end
