(* ===== verification/Scheduling.thy ===== *)
theory Scheduling
  imports Writer
begin

text \<open>
  Properties of the writer: safety of every returned frame, order of the bytes, credit, fairness between
  control and data and between streams, and when the scheduler waits.
\<close>

section \<open>Where a data frame comes from\<close>

lemma next_pass_stream:
  assumes inv: "queues_inv c" and r: "next_pass order S c = (Return (Some (Stream i fin p)), c')"
  shows "data_pass S c = (Done (Some (Stream i fin p)), c')"
proof -
  have nc: "close_pass a \<noteq> (Return (Some (Stream i fin p)), c')" if "queues_inv a" for a
    using queues_close_frame [OF that] by blast
  obtain r1 c1 where c1: "(if control_turn (writer c) \<or> is_urgent (control (writer c)) then control_pass order c
      else (Done None, c)) = (r1, c1)" by (metis surj_pair)
  have "r1 \<noteq> Panic" "\<forall>f. r1 = Done (Some f) \<longrightarrow> is_control f" "r1 = Done None \<longrightarrow> c1 = c"
    using c1 control_pass_ok [OF inv, of order r1 c1] control_pass_idle(1) [of order c c1] by (auto split: if_splits)
  then have c: "r1 = Done None" "c1 = c"
    using r nc [OF inv] c1 by (auto simp: next_pass_def split: if_splits run.splits option.splits)
  obtain r2 c2 where c2: "data_pass S c = (r2, c2)" by (metis surj_pair)
  have "queues_inv c2" using data_pass_ok [OF inv c2] by simp
  then show ?thesis
    using r c c1 c2 nc inv by (auto simp: next_pass_def split: if_splits run.splits option.splits)
qed

lemma queues_inv_control_turn: "queues_inv c \<Longrightarrow> queues_inv (on_queues (\<lambda>q. q\<lparr>control_turn := b\<rparr>) c)"
  by (simp add: queues_inv_def ready_ok_def control_ok_def cong: option.case_cong)

lemma next_frame_stream:
  assumes inv: "queues_inv c" and r: "next_frame order S c = (Return (Some (Stream i fin p)), c')"
  obtains b where "data_pass S (on_queues (\<lambda>q. q\<lparr>control_turn := b\<rparr>) c) = (Done (Some (Stream i fin p)), c')"
proof -
  obtain p1 c1 where n: "next_pass order S c = (p1, c1)" by (metis surj_pair)
  show thesis
  proof (cases "p1 = Again")
    case True
    then have c1: "c1 = on_queues (\<lambda>q. q\<lparr>control_turn := True\<rparr>) c" using next_pass_idle(1) [OF inv _ n] by simp
    have "next_pass order S c1 = (Return (Some (Stream i fin p)), c')" using r n True by (simp add: next_frame_two [OF inv])
    then show thesis using next_pass_stream queues_inv_control_turn [OF inv] c1 that by blast
  next
    case False
    then have "next_pass order S c = (Return (Some (Stream i fin p)), c')"
      using r n by (cases p1) (auto simp: next_frame_two [OF inv])
    then have "data_pass S (on_queues (\<lambda>q. q\<lparr>control_turn := control_turn (writer c)\<rparr>) c) = (Done (Some (Stream i fin p)), c')"
      using next_pass_stream [OF inv] by (simp add: on_queues_def)
    then show thesis by (rule that)
  qed
qed

lemma can_send_control_turn [simp]: "can_send (on_queues (\<lambda>q. q\<lparr>control_turn := b\<rparr>) c) sid = can_send c sid"
  by (simp add: can_send_def queue_of_def split: option.splits list.splits)

section \<open>Round robin\<close>

lemma data_pass_round_robin:
  assumes inv: "queues_inv c" and r: "data_pass S c = (Done (Some (Stream i fin p)), c')"
    and x: "can_send c x" "x \<noteq> into_inner i" "ready (writer c) = us @ x # vs"
  obtains us' vs' where "ready (writer c') = us' @ x # vs'" "length us' < length us"
proof (cases rule: data_pass_cases [OF inv, of S])
  case 1
  then show ?thesis using r by simp
next
  case (2 as sid bs chunk rest st count)
  let ?d = "dispatch S sid chunk rest count (with_ready (bs @ as) c)"
  have ch: "out_stream_id chunk = VarInt sid"
    using queues_invD(3) [OF inv 2(4)] by (simp add: stream_queue_ok_def out_chunk_ok_def)
  have d: "fst ?d = Stream i fin p" "c' = snd ?d" using r 2(9) by (simp_all add: case_prod_beta)
  then have "sid = into_inner i" using ch by (simp add: dispatch_frame(1)) (metis varint.sel)
  moreover have "x \<in> set (as @ sid # bs)" using x(3) 2(1) by simp
  ultimately have "x \<in> set bs" using x(1,2) 2(2) by auto
  then obtain b1 b2 where bs: "bs = b1 @ x # b2" by (metis split_list)
  have "distinct (as @ sid # b1 @ x # b2)" using queues_invD(1) [OF inv] 2(1) bs by (simp add: ready_ok_def)
  then have "(as @ sid # b1) @ x # b2 = us @ x # vs \<longleftrightarrow> as @ sid # b1 = us \<and> b2 = vs"
    by (intro append_Cons_eq_iff) auto
  then have "us = as @ sid # b1" using x(3) 2(1) bs by simp
  moreover have "\<exists>vs'. ready (writer c') = b1 @ x # vs'"
    unfolding d(2) by (simp add: dispatch_writer Let_def bs)
  ultimately show ?thesis using that by auto
qed

section \<open>A state for the witnesses\<close>

text \<open>Two streams with one chunk each, after the peer's SETTINGS.\<close>

definition demo_stream :: "(nat \<times> bool) stream_state" where
  "demo_stream = stream_state_new counting_ops 1024 1024 1 4"

definition demo_chunk :: "u64 \<Rightarrow> bytes \<Rightarrow> outbound_chunk" where
  "demo_chunk sid payload = \<lparr> out_state = sid, frame_permit = 1, stream_frame_permit = 1, out_stream_id = VarInt sid,
     out_payload = payload, out_fin = False, out_conn_permit = Some (length payload),
     out_stream_permit = Some (length payload) \<rparr>"

definition demo_queues :: "frame list \<Rightarrow> bool \<Rightarrow> writer_queues" where
  "demo_queues ctl turn = queues_new\<lparr>by_stream := [(0, [demo_chunk 0 [1, 2, 3]]), (2, [demo_chunk 2 [7]])], ready := [0, 2],
     control := ctl, peer_settings := True, peer_max_frame := 64, peer_initial_stream_limit := 100, peer_limit := 100,
     control_turn := turn\<rparr>"

definition demo_conn :: "frame list \<Rightarrow> bool \<Rightarrow> (nat \<times> bool) connection" where
  "demo_conn ctl turn = \<lparr> limits = default_limits, local_parity = 0, next_local_stream_id = 4,
     next_remote_stream_id = 1, open_locked = False, objects = [0 \<mapsto> demo_stream, 2 \<mapsto> demo_stream], streams = {0, 2},
     incoming_streams = [], writer = demo_queues ctl turn, c_window = rw_new 1024, closed = False, terminated = False,
     joined = False, cleanup_started = False, open_streams = (8, False), inbound_conn_bytes = (1024, False),
     outbound_conn_bytes = (1020, False), outbound_frames = (2, False),
     stats = \<lparr> opened_streams = 2, frames_sent = 0, frames_received = 0, bytes_sent = 0, bytes_received = 0 \<rparr>,
     connection_handles = 1, peer_identity = None \<rparr>"

lemmas demo_defs = demo_conn_def demo_queues_def demo_chunk_def demo_stream_def stream_state_new_def queues_new_def

lemma demo_inv:
  assumes "list_all (\<lambda>f. is_control f \<and> wf_frame f) ctl" "length ctl \<le> 8"
  shows "queues_inv (demo_conn ctl turn)"
  unfolding queues_inv_def
proof (intro conjI allI impI)
  show "ready_ok (writer (demo_conn ctl turn))" by (simp add: ready_ok_def demo_defs) 
  show "control_ok (limits (demo_conn ctl turn)) (writer (demo_conn ctl turn))"
    using assms by (simp add: control_ok_def demo_defs default_limits_def)
  show "stream_queue_ok (limits (demo_conn ctl turn)) sid (objects (demo_conn ctl turn) sid) chs"
    if "map_of (by_stream (writer (demo_conn ctl turn))) sid = Some chs" for sid chs
    using that by (auto simp: stream_queue_ok_def out_chunk_ok_def demo_defs default_limits_def sized_bytes_def
        length_varint_bytes varint_encoded_len_def as_u64_def split: if_splits)
  fix sid st
  assume "objects (demo_conn ctl turn) sid = Some st"
  then have "sid = 0 \<or> sid = 2" "st = demo_stream" by (auto simp: demo_conn_def split: if_splits)
  then show "sid \<le> varint_MAX" "rw_inv (s_window st)"
      "stream_credit_ok (peer_initial_stream_limit (writer (demo_conn ctl turn))) st"
    using rw_inv_new [of 1024] by (auto simp: demo_defs varint_MAX_def stream_credit_ok_def)
next
  show "rw_inv (c_window (demo_conn ctl turn))" using rw_inv_new [of 1024] by (simp add: demo_defs)
qed (simp_all add: demo_defs default_limits_def)

lemma demo_inv0: "queues_inv (demo_conn [] turn)"
  by (rule demo_inv) simp_all

lemma demo_next:
  "next_frame order counting_ops (demo_conn [] False) =
    (Return (Some (Stream (VarInt 0) False [1, 2, 3])), snd (next_frame order counting_ops (demo_conn [] False)))"
  by (simp add: next_frame.simps next_pass_def data_pass_def demo_defs Let_def send_count_def saturating_sub_def
      varint_encoded_len_def from_u64_def varint_MAX_def as_u64_def dispatch_def)

section \<open>Properties\<close>

lemma frame_ok_encoded:
  assumes "frame_ok c f"
  shows "\<exists>n. frame_encoded_len f = Inr n \<and> n \<le> peer_max_frame (writer c) \<and> n \<le> max_frame_size (limits c)"
  using assms frame_encoded_len_exact by (auto simp: frame_ok_def)

text \<open>C13 (safety): from every consistent state \<^verbatim>\<open>next_frame\<close> ends without a panic (none of its \<open>expect\<close>s or
  \<open>usize\<close> subtractions can fail) and leaves a consistent state; a frame it returns can be encoded, and its
  encoding fits both the frame size the peer announced and the local one that the transport codec enforces.\<close>

theorem next_frame_safe:
  assumes "queues_inv c" "next_frame order S c = (p, c')"
  shows "queues_inv c' \<and> p \<noteq> Crash \<and> p \<noteq> Again \<and> (\<forall>f. p = Return (Some f) \<longrightarrow>
    (\<exists>n. frame_encoded_len f = Inr n \<and> n \<le> peer_max_frame (writer c) \<and> n \<le> max_frame_size (limits c)))"
  using next_frame_ok [OF assms] frame_ok_encoded by (auto simp: pass_ok_def)

theorem next_frame_safe_witness:
  "queues_inv (snd (next_frame sorted_list_of_set counting_ops (demo_conn [] False)))
   \<and> frame_encoded_len (Stream (VarInt 0) False [1, 2, 3]) = Inr 7"
  using next_frame_safe [OF demo_inv0 demo_next [of sorted_list_of_set]]
  by (simp add: length_varint_def u64_try_from_usize_def from_u64_def varint_MAX_def varint_encoded_len_def)

text \<open>C11 (functional): streams are byte streams. A data frame carries exactly the next bytes queued on its
  stream; the bytes of every other stream stay queued untouched, whatever the sizes of chunks and frames. FIN
  is on the frame that empties a queue that was closed, and only there.\<close>

theorem next_frame_in_order:
  assumes "queues_inv c" "next_frame order S c = (Return (Some (Stream i fin p)), c')"
  shows "queued_bytes c (into_inner i) = p @ queued_bytes c' (into_inner i)
    \<and> (\<forall>sid. sid \<noteq> into_inner i \<longrightarrow> queued_bytes c' sid = queued_bytes c sid)
    \<and> (fin \<longrightarrow> fin_queued c (into_inner i) \<and> queue_of (into_inner i) (writer c') = [])
    \<and> (\<not> fin \<longrightarrow> fin_queued c' (into_inner i) = fin_queued c (into_inner i))"
proof -
  have "emits c (Stream i fin p) c'" using next_frame_ok [OF assms] by (simp add: pass_ok_def)
  then have e: "queued_bytes c sid = payload_on (Stream i fin p) sid @ queued_bytes c' sid"
      "fin_queued c sid \<longleftrightarrow> fin_on (Stream i fin p) sid \<or> fin_queued c' sid"
      "fin_on (Stream i fin p) sid \<longrightarrow> queue_of sid (writer c') = []" for sid
    unfolding emits_def by blast+
  show ?thesis using e(1) e(2,3) [of "into_inner i"] by simp
qed

theorem next_frame_in_order_witness:
  "queued_bytes (demo_conn [] False) 0
     = [1, 2, 3] @ queued_bytes (snd (next_frame sorted_list_of_set counting_ops (demo_conn [] False))) 0"
  using next_frame_in_order [OF demo_inv0 demo_next [of sorted_list_of_set]] by simp

text \<open>C12 (invariant): the sender never exceeds the credit of the peer. A data frame is sent only after the
  peer's SETTINGS; its payload is added to the totals of the connection and of the stream, and both stay
  within the limits the peer has announced, without wrap-around of the 64-bit totals.\<close>

theorem credit_respected:
  assumes "queues_inv c" "next_frame order S c = (Return (Some (Stream i fin p)), c')"
  shows "peer_settings (writer c) \<and> unat (w_sent (writer c')) = unat (w_sent (writer c)) + length p
    \<and> unat (w_sent (writer c')) \<le> unat (peer_limit (writer c'))
    \<and> (\<exists>st st'. objects c (into_inner i) = Some st \<and> objects c' (into_inner i) = Some st'
         \<and> unat (s_sent st') = unat (s_sent st) + length p
         \<and> unat (s_sent st') \<le> unat (max (s_peer_limit st') (peer_initial_stream_limit (writer c'))))"
proof -
  obtain b where d: "data_pass S (on_queues (\<lambda>q. q\<lparr>control_turn := b\<rparr>) c) = (Done (Some (Stream i fin p)), c')"
    using next_frame_stream [OF assms] by blast
  have inv': "queues_inv c'" and e: "emits c (Stream i fin p) c'" using next_frame_ok [OF assms] by (auto simp: pass_ok_def)
  have ps: "peer_settings (writer c) \<and> (\<exists>st. objects c (into_inner i) = Some st)"
  proof (cases rule: data_pass_cases [OF queues_inv_control_turn [OF assms(1), of b], of S])
    case (2 as sid bs chunk rest st count)
    have e: "out_stream_id chunk = VarInt sid"
      using queues_invD(3) [OF queues_inv_control_turn [OF assms(1)] 2(4)] by (simp add: stream_queue_ok_def out_chunk_ok_def)
    have "i = out_stream_id chunk" using d 2(9) by (auto simp: case_prod_beta dispatch_frame(1))
    then show ?thesis using e 2(5,6) by simp
  qed (use d in simp)
  then obtain st where st: "objects c (into_inner i) = Some st" by blast
  then obtain st' where st': "objects c' (into_inner i) = Some st'" "unat (s_sent st') = unat (s_sent st) + length p"
    using e unfolding emits_def by fastforce
  have "s_sent st' \<le> max (s_peer_limit st') (peer_initial_stream_limit (writer c'))"
    using queues_invD(6) [OF inv' st'(1)] by (simp add: stream_credit_ok_def)
  then have "unat (s_sent st') \<le> unat (max (s_peer_limit st') (peer_initial_stream_limit (writer c')))"
    unfolding word_le_nat_alt .
  moreover have "unat (w_sent (writer c')) \<le> unat (peer_limit (writer c'))"
    using queues_invD(7) [OF inv'] unfolding word_le_nat_alt .
  moreover have "unat (w_sent (writer c')) = unat (w_sent (writer c)) + length p" using e by (simp add: emits_def)
  ultimately show ?thesis using ps st st' by blast
qed

theorem credit_respected_witness:
  "unat (w_sent (writer (snd (next_frame sorted_list_of_set counting_ops (demo_conn [] False))))) = 3"
  using credit_respected [OF demo_inv0 demo_next [of sorted_list_of_set]] by (simp add: demo_defs)

text \<open>C14 (liveness): no work is lost. While the connection is not closing, \<^verbatim>\<open>next_frame\<close> waits for a
  notification exactly when there is nothing it may send: no control frame queued, no credit to announce for
  the connection or for a live stream, and no stream with data and credit. In every other state it returns a
  frame. The hypothesis on \<open>order\<close> says that iterating over a hash map visits its keys.\<close>

theorem waits_iff_idle:
  assumes "queues_inv c" "\<not> closing (writer c)"
    and "set (order (receive_windows (writer c))) = receive_windows (writer c)"
  shows "(if idle c then fst (next_frame order S c) = Wait
          else (\<exists>f. fst (next_frame order S c) = Return (Some f)))"
proof -
  obtain p c' where n: "next_frame order S c = (p, c')" by (metis surj_pair)
  have "p \<noteq> Return None"
  proof
    assume "p = Return None"
    have np: "next_pass order S a \<noteq> (Return None, b)" if "\<not> closing (writer a)" "queues_inv a" for a b
      using that control_pass_idle(1) [of order a] data_pass_None(1) [of a S]
      by (auto simp: next_pass_def split: prod.splits run.splits option.splits if_splits)
    obtain p1 c1 where n1: "next_pass order S c = (p1, c1)" by (metis surj_pair)
    show False
    proof (cases "p1 = Again")
      case True
      then have "c1 = on_queues (\<lambda>q. q\<lparr>control_turn := True\<rparr>) c" using next_pass_idle(1) [OF assms(1) _ n1] by simp
      then show False using np [of c1 c'] True n n1 \<open>p = Return None\<close> assms
          queues_inv_control_turn [OF assms(1), of True] by (simp add: next_frame_two [OF assms(1)])
    next
      case False
      then show False using np [OF assms(2,1), of c'] n n1 \<open>p = Return None\<close>
        by (cases p1) (simp_all add: next_frame_two [OF assms(1)])
    qed
  qed
  then have "p = Wait \<or> (\<exists>f. p = Return (Some f))" using next_frame_ok [OF assms(1) n] by (cases p) (auto simp: pass_ok_def)
  then show ?thesis
    using idle_waits [where order = order, OF assms(1,3) _ assms(2), of S] next_frame_wait(1) [where order = order, OF assms(1,3), of S c'] n
    by auto
qed

theorem waits_iff_idle_witness:
  "\<exists>f. fst (next_frame sorted_list_of_set counting_ops (demo_conn [] True)) = Return (Some f)"
proof -
  have "can_send (demo_conn [] True) 2" by (simp add: demo_defs can_send_def queue_of_def)
  then have "\<not> idle (demo_conn [] True)" unfolding idle_def by blast
  moreover have "\<not> closing (writer (demo_conn [] True))" by (simp add: demo_defs)
  moreover have "set (sorted_list_of_set (receive_windows (writer (demo_conn [] True)))) = receive_windows (writer (demo_conn [] True))"
    by (simp add: demo_defs)
  ultimately show ?thesis
    using waits_iff_idle [where order = sorted_list_of_set and S = counting_ops, OF demo_inv0 [of True]] by simp
qed

text \<open>C15 (liveness): round robin. A stream that can send and is not the one served moves strictly towards the
  front of the ready queue with every data frame, so a queue of \<open>n\<close> ready streams serves it after at most
  \<open>n\<close> data frames.\<close>

theorem round_robin_progress:
  assumes "queues_inv c" "next_frame order S c = (Return (Some (Stream i fin p)), c')"
    and "can_send c x" "x \<noteq> into_inner i" "ready (writer c) = us @ x # vs"
  shows "\<exists>us' vs'. ready (writer c') = us' @ x # vs' \<and> length us' < length us"
proof -
  obtain b where d: "data_pass S (on_queues (\<lambda>q. q\<lparr>control_turn := b\<rparr>) c) = (Done (Some (Stream i fin p)), c')"
    using next_frame_stream [OF assms(1,2)] by blast
  obtain us' vs' where "ready (writer c') = us' @ x # vs'" "length us' < length us"
    by (rule data_pass_round_robin [OF queues_inv_control_turn [OF assms(1)] d, of x us vs]) (use assms(3-5) in auto)
  then show ?thesis by blast
qed

theorem round_robin_progress_witness:
  "\<exists>us' vs'. ready (writer (snd (next_frame sorted_list_of_set counting_ops (demo_conn [] False)))) = us' @ 2 # vs'
     \<and> length us' < 1"
proof -
  have "can_send (demo_conn [] False) 2" by (simp add: demo_defs can_send_def queue_of_def)
  then show ?thesis
    using round_robin_progress [OF demo_inv0 demo_next [of sorted_list_of_set], of 2 "[0]" "[]"] by (simp add: demo_defs)
qed





end
