(* ===== verification/Writer_Inv.thy ===== *)
theory Writer_Inv
  imports Sending Scheduling
begin

text \<open>
  The writer task of \<open>spawn_connection_tasks\<close> in \<^verbatim>\<open>muxtls/src/connection.rs\<close>, and that the scheduler and the
  work after a frame was sent keep the invariant of the connection.
\<close>

section \<open>Model\<close>

text \<open>The identifier of the stream whose sending side ends with a frame.\<close>

fun terminal_id :: "frame \<Rightarrow> u64 option" where
  "terminal_id (Stream stream_id fin payload) = (if fin then Some (into_inner stream_id) else None)"
| "terminal_id (ResetStream stream_id error_code) = Some (into_inner stream_id)"
| "terminal_id _ = None"

text \<open>What the writer does after a frame was handed to the transport.\<close>

definition frame_sent :: "'s sem_ops \<Rightarrow> frame \<Rightarrow> usize \<Rightarrow> 's connection \<Rightarrow> 's connection" where
  "frame_sent S frame encoded_len c =
     (let c = record_sent encoded_len c in
      case terminal_id frame of
        None \<Rightarrow> c
      | Some sid \<Rightarrow>
          try_retire_stream S sid
            (if sid \<in> streams c then on_stream sid (\<lambda>st. st\<lparr>send_complete := True\<rparr>) c else c))"

section \<open>The scheduler keeps the invariant\<close>

lemma rw_update_buffered:
  assumes "rw_inv w"
  shows "rw_inv (snd (rw_update w))" "window (snd (rw_update w)) = window w" "buffered (snd (rw_update w)) = buffered w"
proof -
  show "rw_inv (snd (rw_update w))" by (rule rw_inv_update [OF assms])
  show "window (snd (rw_update w)) = window w" "buffered (snd (rw_update w)) = buffered w"
    by (cases "needs_update w"; simp add: rw_update_None rw_update_Some buffered_def)+
qed

lemma conn_inv_c_window:
  assumes inv: "conn_inv free waiting out c"
    and w: "rw_inv w" "window w = window (c_window c)" "buffered (c_window c) \<le> buffered w"
  shows "conn_inv free waiting out (c\<lparr>c_window := w\<rparr>)"
proof -
  have "inbound_load out (c\<lparr>c_window := w\<rparr>) = inbound_load out c" by (simp add: inbound_load_def)
  then have "inbound_inv free waiting out (c\<lparr>c_window := w\<rparr>)"
    using inv w by (auto simp: conn_inv_def inbound_inv_def conn_account_def)
  then show ?thesis using inv w(1) by (simp add: conn_inv_def queues_inv_c_window)
qed

lemma conn_inv_credit_update:
  assumes "conn_inv free waiting out c"
  shows "conn_inv free waiting out (c\<lparr>c_window := snd (rw_update (c_window c))\<rparr>)"
proof -
  have "rw_inv (c_window c)" using assms queues_invD(8) by (auto simp: conn_inv_def)
  from rw_update_buffered [OF this] show ?thesis by (intro conn_inv_c_window [OF assms]) simp_all
qed

context semaphore
begin

lemma conn_inv_stream_update:
  assumes inv: "conn_inv free waiting out c" and st: "objects c sid = Some st"
  shows "conn_inv free waiting out (on_stream sid (\<lambda>st'. st'\<lparr>s_window := snd (rw_update (s_window st))\<rparr>) c)"
proof -
  have w: "rw_inv (c_window c)" "rw_inv (s_window st)" using inv queues_invD(5,8) [of c] st by (auto simp: conn_inv_def)
  from conn_inv_windows [OF inv st w(1) _ _ rw_update_buffered(1,2) [OF w(2)]] rw_update_buffered(3) [OF w(2)]
  show ?thesis by simp
qed

lemma conn_inv_find_update:
  "conn_inv free waiting out c \<Longrightarrow> conn_inv free waiting out (snd (find_update ids c))"
proof (induction ids c rule: find_update.induct)
  case (2 sid ids c)
  show ?case
  proof (cases "objects c sid")
    case None
    then show ?thesis using 2 by simp
  next
    case (Some st)
    have u: "conn_inv free waiting out (on_stream sid (\<lambda>st'. st'\<lparr>s_window := snd (rw_update (s_window st))\<rparr>) c)"
      by (rule conn_inv_stream_update [OF 2(4) Some])
    show ?thesis
    proof (cases "recv_terminal st \<or> recv_discarded st")
      case True
      then show ?thesis using 2 Some by simp
    next
      case False
      obtain r w where r: "rw_update (s_window st) = (r, w)" by fastforce
      show ?thesis
        using 2(3) [OF Some False, of r w] False r u Some by (auto split: run.split option.split sum.split)
    qed
  qed
qed simp

lemma conn_inv_control_done: "conn_inv free waiting out c \<Longrightarrow> conn_inv free waiting out (control_done c)"
  unfolding control_done_def conn_inv_def
  by (auto simp: queues_inv_def ready_ok_def control_ok_def intro: streams_inv_on_queues cong: option.case_cong)

lemma conn_inv_pop_control:
  assumes "conn_inv free waiting out c" "control (writer c) = f # fs"
  shows "conn_inv free waiting out (on_queues (\<lambda>q. q\<lparr>control := fs\<rparr>) c)"
  using assms unfolding conn_inv_def
  by (auto simp: queues_inv_def ready_ok_def control_ok_def intro: streams_inv_on_queues cong: option.case_cong)

lemma conn_inv_control_pass:
  assumes "conn_inv free waiting out c"
  shows "conn_inv free waiting out (snd (control_pass order c))"
proof (cases "control (writer c)")
  case (Cons f fs)
  then show ?thesis using conn_inv_pop_control [OF assms Cons] by (simp add: control_pass_def conn_inv_control_done)
next
  case Nil
  obtain r w where r: "rw_update (c_window c) = (r, w)" by fastforce
  have w: "conn_inv free waiting out (c\<lparr>c_window := w\<rparr>)" using conn_inv_credit_update [OF assms] r by simp
  note f = conn_inv_find_update [OF w, of "order (receive_windows (writer c))"]
  obtain r' c' where r': "find_update (order (receive_windows (writer c))) (c\<lparr>c_window := w\<rparr>) = (r', c')" by fastforce
  show ?thesis
    using w f r' by (auto simp: control_pass_def Nil r conn_inv_control_done split: run.split option.split)
qed

lemma conn_inv_close_pass:
  assumes "conn_inv free waiting out c"
  shows "conn_inv free waiting out (snd (close_pass c))"
proof -
  have "queues_inv (snd (close_pass c))"
    using assms close_pass_ok(1) [of c "fst (close_pass c)" "snd (close_pass c)"] by (simp add: conn_inv_def)
  moreover have "streams_inv free (snd (close_pass c))" "inbound_inv free waiting out (snd (close_pass c))"
    using assms by (auto simp: conn_inv_def close_pass_def take_close_frame_def split: option.split intro!: streams_inv_on_queues)
  ultimately show ?thesis by (simp add: conn_inv_def)
qed

lemma conn_inv_dispatch:
  assumes inv: "conn_inv free waiting out c" and r: "ready (writer c) = as @ sid # bs"
    and m: "map_of (by_stream (writer c)) sid = Some (chunk # rest)" and st: "objects c sid = Some st"
    and cnt: "send_count (credit_of c) (peer_initial_stream_limit (writer c)) (peer_max_frame (writer c)) chunk st = Done count"
  shows "conn_inv free waiting out (snd (dispatch S sid chunk rest count (with_ready (bs @ as) c)))"
    "terminal_id (fst (dispatch S sid chunk rest count (with_ready (bs @ as) c))) = Some i \<Longrightarrow> i = sid \<and> send_terminal st"
proof -
  let ?d = "dispatch S sid chunk rest count (with_ready (bs @ as) c)"
  let ?c = "snd ?d"
  have q: "queues_inv c" using inv by (simp add: conn_inv_def)
  have ok: "stream_queue_ok (limits c) sid (Some st) (chunk # rest)" using queues_invD(3) [OF q m] st by simp
  then have ch: "out_state chunk = sid" "out_stream_id chunk = VarInt sid" by (simp_all add: stream_queue_ok_def out_chunk_ok_def)
  have fin: "send_terminal st" if "out_fin chunk" using ok that by (cases rest) (auto simp: stream_queue_ok_def)
  show "i = sid \<and> send_terminal st" if "terminal_id (fst ?d) = Some i"
    using that fin ch by (auto simp: dispatch_frame split: if_splits)
  obtain f b where objs: "objects ?c = (objects c)(sid \<mapsto> st\<lparr>s_sent := s_sent st + as_u64 count,
       send_dispatched := send_dispatched st \<or> (out_fin chunk \<and> drop count (out_payload chunk) = []),
       outbound_stream_frames := f, outbound_stream_bytes := b\<rparr>)" (is "_ = _(sid \<mapsto> ?st)")
    using dispatch_objects [of "with_ready (bs @ as) c" chunk st S sid rest count] st ch by auto
  have rest: "local_parity ?c = local_parity c" "next_local_stream_id ?c = next_local_stream_id c"
      "next_remote_stream_id ?c = next_remote_stream_id c" "incoming_streams ?c = incoming_streams c"
      "open_streams ?c = open_streams c" "inbound_conn_bytes ?c = inbound_conn_bytes c"
    by (simp_all add: dispatch_def Let_def drop_out_chunk_def with_ready_def)
  have flags: "flags_ok st \<longrightarrow> flags_ok ?st" using fin by (auto simp: flags_ok_def)
  have "queues_inv ?c" by (rule dispatch_inv [OF q r m st cnt])
  moreover have "inbound_inv free waiting out ?c"
  proof (rule requeue_inv [where st = st and st' = ?st and out = out])
    show "inbound_inv free waiting out c" "list_all chunk_ok (chunks (inbound ?st))"
      using inv st inbound_invD(4) by (auto simp: conn_inv_def)
  qed (use st objs rest in \<open>simp_all add: dispatch_frame stream_load_def\<close>)
  moreover have "streams_inv free ?c"
  proof (rule streams_inv_same [where c = c and g = "\<lambda>i s. if i = sid \<and> s = st then ?st else s"])
    show "streams_inv free c" using inv by (simp add: conn_inv_def)
    show "objects ?c i = map_option (\<lambda>s. if i = sid \<and> s = st then ?st else s) (objects c i)" for i
      using st by (cases "objects c i") (auto simp: objs option.map_ident)
  qed (use rest flags in \<open>auto simp: dispatch_frame dispatch_writer Let_def with_ready_def\<close>)
  ultimately show "conn_inv free waiting out ?c" by (simp add: conn_inv_def)
qed

lemma conn_inv_data_pass:
  assumes "conn_inv free waiting out c"
  shows "conn_inv free waiting out (snd (data_pass S c))"
proof -
  have q: "queues_inv c" using assms by (simp add: conn_inv_def)
  show ?thesis
  proof (cases rule: data_pass_cases [OF q, of S])
    case 1
    then show ?thesis using assms by simp
  next
    case (2 as sid bs chunk rest st count)
    then show ?thesis using conn_inv_dispatch(1) [OF assms 2(1,4,5,8)] by (simp add: case_prod_beta)
  qed
qed

lemma conn_inv_control_turn:
  assumes "conn_inv free waiting out c"
  shows "conn_inv free waiting out (on_queues (\<lambda>q. q\<lparr>control_turn := b\<rparr>) c)"
  using assms unfolding conn_inv_def
  by (auto simp: queues_inv_def ready_ok_def control_ok_def intro: streams_inv_on_queues cong: option.case_cong)

lemma conn_inv_next_pass:
  assumes "conn_inv free waiting out c"
  shows "conn_inv free waiting out (snd (next_pass order S c))"
proof -
  obtain r1 c1 where c1: "(if control_turn (writer c) \<or> is_urgent (control (writer c)) then control_pass order c
      else (Done None, c)) = (r1, c1)"
    by (metis surj_pair)
  then have i1: "conn_inv free waiting out c1"
    using assms conn_inv_control_pass [OF assms, of order] by (auto split: if_splits)
  obtain r2 c2 where c2: "data_pass S c1 = (r2, c2)" by (metis surj_pair)
  then have i2: "conn_inv free waiting out c2" using conn_inv_data_pass [OF i1] by simp
  show ?thesis
    using conn_inv_close_pass [OF assms] conn_inv_close_pass [OF i2] i1 i2
    by (auto simp: next_pass_def c1 c2 conn_inv_control_turn split: run.split option.split)
qed

lemma conn_inv_next_frame:
  assumes "conn_inv free waiting out c"
  shows "conn_inv free waiting out (snd (next_frame order S c))"
proof -
  obtain p1 c1 where n: "next_pass order S c = (p1, c1)" by (metis surj_pair)
  have q: "queues_inv c" using assms by (simp add: conn_inv_def)
  have "conn_inv free waiting out c1" using conn_inv_next_pass [OF assms, of order] n by simp
  then show ?thesis using conn_inv_next_pass [of out c1 order] by (simp add: next_frame_two [OF q] n split: pass.split)
qed

end

section \<open>The end of a stream\<close>

text \<open>The sending side of a stream that was opened has been closed.\<close>

definition ended :: "u64 \<Rightarrow> 's connection \<Rightarrow> bool" where
  "ended sid c \<longleftrightarrow> sid < id_limit c sid \<and> (\<forall>st. objects c sid = Some st \<longrightarrow> send_terminal st)"

definition sent_ok :: "frame \<Rightarrow> 's connection \<Rightarrow> bool" where
  "sent_ok f c \<longleftrightarrow> (\<forall>sid. terminal_id f = Some sid \<longrightarrow> ended sid c)"

lemma find_update_credit: "find_update ids c = (Done (Some f), c') \<Longrightarrow> \<exists>v m. f = MaxStreamData v m"
  by (induction ids c rule: find_update.induct)
    (auto split: option.splits prod.splits run.splits sum.splits if_splits)

lemma control_pass_sent:
  assumes inv: "conn_inv free waiting out c" and r: "control_pass order c = (Done (Some f), c')"
  shows "sent_ok f c'"
proof (cases "control (writer c)")
  case (Cons g fs)
  then have c': "f = g" "c' = control_done (on_queues (\<lambda>q. q\<lparr>control := fs\<rparr>) c)" using r by (auto simp: control_pass_def)
  have "is_control g" using inv Cons by (auto simp: conn_inv_def queues_inv_def control_ok_def)
  then show ?thesis
    using inv Cons c'(1) unfolding c'(2) by (cases g) (auto simp: sent_ok_def ended_def control_done_def conn_inv_def streams_inv_def flags_inv_def)
next
  case Nil
  then show ?thesis
    using r by (auto simp: control_pass_def sent_ok_def split: prod.splits run.splits option.splits dest!: find_update_credit)
qed

context semaphore
begin

lemma data_pass_sent:
  assumes inv: "conn_inv free waiting out c" and r: "data_pass S c = (Done (Some f), c')"
  shows "sent_ok f c'"
proof -
  have q: "queues_inv c" using inv by (simp add: conn_inv_def)
  show ?thesis
  proof (cases rule: data_pass_cases [OF q, of S])
    case 1
    then show ?thesis using r by simp
  next
    case (2 as sid bs chunk rest st count)
    let ?d = "dispatch S sid chunk rest count (with_ready (bs @ as) c)"
    have fc: "f = fst ?d" "c' = snd ?d" using r 2(9) by (auto split: prod.splits)
    have ch: "out_state chunk = sid" using queues_invD(3) [OF q 2(4)] 2(5) by (simp add: stream_queue_ok_def out_chunk_ok_def)
    obtain st' where st': "objects c' sid = Some st'" "send_terminal st' = send_terminal st"
      using dispatch_objects [of "with_ready (bs @ as) c" chunk st S sid rest count] 2(5) ch unfolding fc by auto
    have "id_limit c' = id_limit c"
      by (simp add: fc id_limit_def fun_eq_iff dispatch_def Let_def drop_out_chunk_def with_ready_def)
    moreover have "sid < id_limit c sid" using inv 2(5) by (auto simp: conn_inv_def streams_inv_def ids_inv_def)
    ultimately show ?thesis
      using conn_inv_dispatch(2) [OF inv 2(1,4,5,8)] st' unfolding sent_ok_def ended_def fc(1) by auto
  qed
qed

lemma next_pass_sent:
  assumes inv: "conn_inv free waiting out c" and r: "next_pass order S c = (Return (Some f), c')"
  shows "sent_ok f c'"
proof -
  have close: "sent_ok f c'" if ci: "conn_inv free waiting out a" and cp: "close_pass a = (Return (Some f), c')" for a
  proof -
    obtain g where "close_frame (writer a) = Some g" "f = truncate_close (peer_max_frame (writer a)) g"
      using cp by (auto simp: close_pass_def take_close_frame_def split: option.splits)
    moreover have "control_ok (limits a) (writer a)" using ci queues_invD(2) by (auto simp: conn_inv_def)
    ultimately show ?thesis by (auto simp: sent_ok_def control_ok_def truncate_close_def Let_def split: if_splits)
  qed
  obtain r1 c1 where c1: "(if control_turn (writer c) \<or> is_urgent (control (writer c)) then control_pass order c
      else (Done None, c)) = (r1, c1)"
    by (metis surj_pair)
  then have i1: "conn_inv free waiting out c1" "r1 = Done (Some f) \<Longrightarrow> sent_ok f c1"
    using inv conn_inv_control_pass [OF inv, of order] control_pass_sent [OF inv, of order f c1] by (auto split: if_splits)
  obtain r2 c2 where c2: "data_pass S c1 = (r2, c2)" by (metis surj_pair)
  then have i2: "conn_inv free waiting out c2" "r2 = Done (Some f) \<Longrightarrow> sent_ok f c2"
    using conn_inv_data_pass [OF i1(1)] data_pass_sent [OF i1(1)] by auto
  show ?thesis
    using r c1 c2 close [OF inv] close [OF i2(1)] i1(2) i2(2)
    by (auto simp: next_pass_def split: run.splits option.splits if_splits)
qed

lemma next_frame_sent:
  assumes inv: "conn_inv free waiting out c" and r: "next_frame order S c = (Return (Some f), c')"
  shows "sent_ok f c'"
proof -
  obtain p1 c1 where n: "next_pass order S c = (p1, c1)" by (metis surj_pair)
  have q: "queues_inv c" using inv by (simp add: conn_inv_def)
  have i1: "conn_inv free waiting out c1" using conn_inv_next_pass [OF inv, of order] n by simp
  show ?thesis
    using r next_pass_sent [OF inv, of order f c'] next_pass_sent [OF i1, of order f c'] n
    by (auto simp: next_frame_two [OF q] split: pass.splits)
qed

lemma conn_inv_send_complete:
  assumes inv: "conn_inv free waiting out c" and e: "ended sid c"
  shows "conn_inv free waiting out (on_stream sid (\<lambda>st. st\<lparr>send_complete := True\<rparr>) c)"
proof -
  let ?f = "\<lambda>st. if send_terminal st then st\<lparr>send_complete := True\<rparr> else st"
  have "on_stream sid (\<lambda>st. st\<lparr>send_complete := True\<rparr>) c = on_stream sid ?f c"
    using e by (cases "objects c sid") (simp_all add: on_stream_def ended_def)
  then show ?thesis using conn_inv_on_stream [OF inv, of ?f sid] by (simp add: harmless_def flags_ok_def)
qed

lemma conn_inv_frame_sent:
  assumes inv: "conn_inv free waiting out c" and ok: "sent_ok f c"
  shows "conn_inv free waiting out (frame_sent S f n c)"
proof -
  have "ended sid (record_sent n c)" if "terminal_id f = Some sid" for sid
    using ok that by (auto simp: sent_ok_def ended_def record_sent_def id_limit_def split: if_splits)
  then show ?thesis
    using inv by (auto simp: frame_sent_def Let_def split: option.split intro!: conn_inv_try_retire conn_inv_send_complete)
qed

end

end
