(* ===== verification/Evolution.thy ===== *)
theory Evolution
  imports Writer_Inv
begin

text \<open>
  What never goes back: identifiers, closed flags and the ends of streams. \<open>evolves\<close> holds between the states
  before and after any operation; \<open>local_step\<close> moreover says that what the peer announced did not change, as is
  the case for every operation that does not process a frame of the peer.
\<close>

definition grows :: "'s stream_state \<Rightarrow> 's stream_state \<Rightarrow> bool" where
  "grows st st' \<longleftrightarrow> (send_terminal st \<longrightarrow> send_terminal st') \<and> (send_dispatched st \<longrightarrow> send_dispatched st')
     \<and> (send_complete st \<longrightarrow> send_complete st') \<and> (reset_queued st \<longrightarrow> reset_queued st')
     \<and> (recv_terminal st \<longrightarrow> recv_terminal st') \<and> (recv_discarded st \<longrightarrow> recv_discarded st')
     \<and> s_peer_limit st \<le> s_peer_limit st'"

text \<open>The connection is terminated and its writer shut down.\<close>

definition shut :: "'s connection \<Rightarrow> bool" where
  "shut c \<longleftrightarrow> closed c \<and> terminated c \<and> closing (writer c) \<and> \<not> graceful_close (writer c)"

definition evolves :: "'s connection \<Rightarrow> 's connection \<Rightarrow> bool" where
  "evolves c c' \<longleftrightarrow> limits c' = limits c \<and> local_parity c' = local_parity c
     \<and> next_local_stream_id c \<le> next_local_stream_id c' \<and> next_remote_stream_id c \<le> next_remote_stream_id c'
     \<and> (closed c \<longrightarrow> closed c') \<and> (terminated c \<longrightarrow> terminated c') \<and> (cleanup_started c \<longrightarrow> cleanup_started c')
     \<and> (closing (writer c) \<longrightarrow> closing (writer c')) \<and> (closed c \<and> graceful_close (writer c') \<longrightarrow> graceful_close (writer c))
     \<and> (cleanup_started c' \<longrightarrow> cleanup_started c \<or> shut c') \<and> (joined c \<longrightarrow> joined c') \<and> (peer_settings (writer c) \<longrightarrow> peer_settings (writer c'))
     \<and> dom (objects c) \<subseteq> dom (objects c')
     \<and> (\<forall>i st'. objects c' i = Some st' \<longrightarrow> i < id_limit c i \<longrightarrow> (\<exists>st. objects c i = Some st \<and> grows st st'))"

definition peer_same :: "'s connection \<Rightarrow> 's connection \<Rightarrow> bool" where
  "peer_same c c' \<longleftrightarrow> peer_settings (writer c') = peer_settings (writer c) \<and> peer_limit (writer c') = peer_limit (writer c)
     \<and> peer_initial_stream_limit (writer c') = peer_initial_stream_limit (writer c)
     \<and> peer_max_frame (writer c') = peer_max_frame (writer c)
     \<and> (\<forall>i st'. objects c' i = Some st' \<longrightarrow>
          s_peer_limit st' = (if i < id_limit c i then s_peer_limit (the (objects c i)) else 0))"

definition local_step :: "'s connection \<Rightarrow> 's connection \<Rightarrow> bool" where
  "local_step c c' \<longleftrightarrow> evolves c c' \<and> peer_same c c'"

lemma grows_refl [simp]: "grows st st"
  by (simp add: grows_def)

lemma grows_trans: "grows a b \<Longrightarrow> grows b c \<Longrightarrow> grows a c"
proof -
  assume ab: "grows a b" and bc: "grows b c"
  have "s_peer_limit a \<le> s_peer_limit c"
    by (rule order.trans [of _ "s_peer_limit b"]) (use ab bc in \<open>simp_all add: grows_def\<close>)
  then show ?thesis using ab bc by (simp add: grows_def)
qed

lemma id_limit_mono: "evolves c c' \<Longrightarrow> id_limit c i \<le> id_limit c' i"
  by (simp add: evolves_def id_limit_def)

lemma evolvesD:
  assumes "evolves c c'"
  shows "limits c' = limits c" "local_parity c' = local_parity c"
    "next_local_stream_id c \<le> next_local_stream_id c'" "next_remote_stream_id c \<le> next_remote_stream_id c'"
    "closed c \<Longrightarrow> closed c'" "terminated c \<Longrightarrow> terminated c'" "cleanup_started c \<Longrightarrow> cleanup_started c'"
    "closing (writer c) \<Longrightarrow> closing (writer c')" "peer_settings (writer c) \<Longrightarrow> peer_settings (writer c')"
    "objects c' i = Some st' \<Longrightarrow> i < id_limit c i \<Longrightarrow> \<exists>st. objects c i = Some st \<and> grows st st'"
    "dom (objects c) \<subseteq> dom (objects c')" "closed c \<Longrightarrow> graceful_close (writer c') \<Longrightarrow> graceful_close (writer c)"
    "cleanup_started c' \<Longrightarrow> cleanup_started c \<or> shut c'" "shut c \<Longrightarrow> shut c'" "joined c \<Longrightarrow> joined c'"
  using assms by (simp_all add: evolves_def) (auto simp: shut_def)

lemma evolves_refl [simp]: "evolves c c"
  by (simp add: evolves_def)

lemma evolves_trans [trans]:
  assumes ab: "evolves a b" and bc: "evolves b c"
  shows "evolves a c"
proof -
  have "\<exists>st. objects a i = Some st \<and> grows st st''" if o: "objects c i = Some st''" and l: "i < id_limit a i" for i st''
  proof -
    have "i < id_limit b i" using l id_limit_mono [OF ab, of i] by (rule order.strict_trans2)
    then obtain st' where st': "objects b i = Some st'" "grows st' st''" using evolvesD(10) [OF bc o] by blast
    moreover obtain st where "objects a i = Some st" "grows st st'" using evolvesD(10) [OF ab st'(1) l] by blast
    ultimately show ?thesis by (blast intro: grows_trans)
  qed
  moreover have "next_local_stream_id a \<le> next_local_stream_id c" "next_remote_stream_id a \<le> next_remote_stream_id c"
    using evolvesD(3,4) [OF ab] evolvesD(3,4) [OF bc] by (blast intro: order.trans)+
  moreover have "cleanup_started c \<longrightarrow> cleanup_started a \<or> shut c" using evolvesD(13) [OF ab] evolvesD(13,14) [OF bc] by blast
  ultimately show ?thesis
    using evolvesD(1,2,5-9,12,15) [OF ab] evolvesD(1,2,5-9,12,15) [OF bc] order.trans [OF evolvesD(11) [OF ab] evolvesD(11) [OF bc]]
    unfolding evolves_def by simp
qed

lemma local_step_trans [trans]:
  assumes ab: "local_step a b" and bc: "local_step b c"
  shows "local_step a c"
proof -
  have e: "evolves a b" "evolves b c" and p: "peer_same a b" "peer_same b c" using ab bc by (auto simp: local_step_def)
  have "s_peer_limit st' = (if i < id_limit a i then s_peer_limit (the (objects a i)) else 0)"
    if st': "objects c i = Some st'" for i st'
  proof (cases "i < id_limit b i")
    case True
    then obtain st where st: "objects b i = Some st" using evolvesD(10) [OF e(2) st'] by blast
    then have "s_peer_limit st' = s_peer_limit st" using p(2) st' True by (simp add: peer_same_def)
    then show ?thesis using p(1) st by (simp add: peer_same_def)
  next
    case False
    then have "\<not> i < id_limit a i" using id_limit_mono [OF e(1), of i] by (meson order.strict_trans2)
    then show ?thesis using p(2) st' False by (simp add: peer_same_def)
  qed
  then have "peer_same a c" using p by (simp add: peer_same_def)
  then show ?thesis using evolves_trans [OF e] by (simp add: local_step_def)
qed

text \<open>The sending side of a stream stays closed.\<close>

lemma ended_evolves: "ended sid c \<Longrightarrow> evolves c c' \<Longrightarrow> ended sid c'"
proof -
  assume e: "ended sid c" and v: "evolves c c'"
  have "sid < id_limit c' sid" using e id_limit_mono [OF v, of sid] unfolding ended_def by (meson order.strict_trans2)
  moreover have "send_terminal st'" if "objects c' sid = Some st'" for st'
    using e v that unfolding ended_def evolves_def grows_def by blast
  ultimately show ?thesis by (simp add: ended_def)
qed

lemma sent_ok_evolves: "sent_ok f c \<Longrightarrow> evolves c c' \<Longrightarrow> sent_ok f c'"
  by (auto simp: sent_ok_def intro: ended_evolves)

section \<open>Steps\<close>

text \<open>States in which only identifiers in use name objects.\<close>

definition used_ids :: "'s connection \<Rightarrow> bool" where
  "used_ids c \<longleftrightarrow> (\<forall>i \<in> dom (objects c). i < id_limit c i)"

lemma local_step_refl: "used_ids c \<Longrightarrow> local_step c c"
  by (auto simp: local_step_def peer_same_def used_ids_def)

lemma conn_inv_used_ids: "conn_inv free waiting out c \<Longrightarrow> used_ids c"
  by (simp add: conn_inv_def streams_inv_def ids_inv_def used_ids_def)

text \<open>The building blocks of the operations.\<close>

named_theorems steps

definition gentle :: "('s stream_state \<Rightarrow> 's stream_state) \<Rightarrow> bool" where
  "gentle f \<longleftrightarrow> (\<forall>st. grows st (f st) \<and> s_peer_limit (f st) = s_peer_limit st)"

lemma local_stepI:
  assumes "local_step c d"
    and "limits c' = limits d" "local_parity c' = local_parity d" "next_local_stream_id c' = next_local_stream_id d"
      "next_remote_stream_id c' = next_remote_stream_id d" "closed d \<longrightarrow> closed c'" "terminated d \<longrightarrow> terminated c'"
      "cleanup_started d \<longrightarrow> cleanup_started c'" "closing (writer d) \<longrightarrow> closing (writer c')"
      "peer_settings (writer c') = peer_settings (writer d)" "peer_limit (writer c') = peer_limit (writer d)"
      "peer_initial_stream_limit (writer c') = peer_initial_stream_limit (writer d)"
      "peer_max_frame (writer c') = peer_max_frame (writer d)"
    and objs: "\<And>i st'. objects c' i = Some st' \<Longrightarrow> \<exists>st. objects d i = Some st \<and> grows st st' \<and> s_peer_limit st' = s_peer_limit st"
    and dom: "\<And>i. objects c' i = None \<Longrightarrow> objects d i = None"
    and grace: "closed d \<Longrightarrow> graceful_close (writer c') \<Longrightarrow> graceful_close (writer d)"
    and cl: "cleanup_started c' \<Longrightarrow> cleanup_started d \<or> shut c'" and jn: "joined d \<Longrightarrow> joined c'"
  shows "local_step c c'"
proof -
  have e: "evolves c d" and p: "peer_same c d" using assms(1) by (auto simp: local_step_def)
  have "\<exists>st. objects c i = Some st \<and> grows st st'" if o: "objects c' i = Some st'" and l: "i < id_limit c i" for i st'
  proof -
    obtain s where s: "objects d i = Some s" "grows s st'" using objs [OF o] by blast
    obtain st where "objects c i = Some st" "grows st s" using evolvesD(10) [OF e s(1) l] by blast
    then show ?thesis using s(2) by (blast intro: grows_trans)
  qed
  moreover have "dom (objects d) \<subseteq> dom (objects c')" using dom by (metis domIff subsetI)
  then have "dom (objects c) \<subseteq> dom (objects c')" by (rule order.trans [OF evolvesD(11) [OF e]])
  moreover have "shut d \<Longrightarrow> shut c'" using assms(6,7,9) grace by (auto simp: shut_def)
  then have "cleanup_started c' \<longrightarrow> cleanup_started c \<or> shut c'" using cl evolvesD(13) [OF e] by blast
  ultimately have "evolves c c'" using evolvesD(1-9,12,15) [OF e] assms(2-10) grace jn unfolding evolves_def by simp
  moreover have "s_peer_limit st' = (if i < id_limit c i then s_peer_limit (the (objects c i)) else 0)"
    if "objects c' i = Some st'" for i st'
    using p objs [OF that] by (auto simp: peer_same_def)
  then have "peer_same c c'" using p assms(10-13) by (simp add: peer_same_def)
  ultimately show ?thesis by (simp add: local_step_def)
qed

lemma local_step_on_stream [steps]:
  "local_step c d \<Longrightarrow> gentle f \<Longrightarrow> local_step c (on_stream sid f d)"
  by (rule local_stepI) (auto simp: gentle_def split: if_splits)

lemma local_step_on_queues [steps]:
  "local_step c d \<Longrightarrow> (closing (writer d) \<longrightarrow> closing (g (writer d))) \<and> peer_settings (g (writer d)) = peer_settings (writer d)
     \<and> peer_limit (g (writer d)) = peer_limit (writer d)
     \<and> peer_initial_stream_limit (g (writer d)) = peer_initial_stream_limit (writer d)
     \<and> peer_max_frame (g (writer d)) = peer_max_frame (writer d)
     \<and> (closed d \<and> graceful_close (g (writer d)) \<longrightarrow> graceful_close (writer d)) \<Longrightarrow> local_step c (on_queues g d)"
  by (rule local_stepI) auto

lemma local_step_fields [steps]:
  assumes "local_step c d"
  shows "local_step c (d\<lparr>c_window := w\<rparr>)" "local_step c (d\<lparr>inbound_conn_bytes := s\<rparr>)"
    "local_step c (d\<lparr>outbound_conn_bytes := s\<rparr>)" "local_step c (d\<lparr>outbound_frames := s\<rparr>)"
    "local_step c (d\<lparr>open_streams := s\<rparr>)" "local_step c (d\<lparr>stats := t\<rparr>)" "local_step c (d\<lparr>open_locked := b\<rparr>)"
    "local_step c (d\<lparr>streams := ids\<rparr>)" "local_step c (d\<lparr>incoming_streams := xs\<rparr>)"
    "local_step c (d\<lparr>connection_handles := n\<rparr>)" "local_step c (d\<lparr>joined := True\<rparr>)"
    "local_step c (d\<lparr>closed := True\<rparr>)" "local_step c (d\<lparr>terminated := True\<rparr>)" "shut d \<Longrightarrow> local_step c (d\<lparr>cleanup_started := True\<rparr>)"
  by (rule local_stepI [OF assms]; simp add: shut_def)+

lemma local_step_credit [steps]:
  assumes "credit_frame d c'" "local_step c d"
  shows "local_step c c'"
  by (rule local_stepI [OF assms(2)]) (use assms(1) in \<open>auto simp: credit_frame_def grows_def\<close>)

lemma local_step_objects [steps]:
  assumes "local_step c d" "\<And>i. gentle (g i)"
  shows "local_step c (d\<lparr>objects := (\<lambda>i. if P i then map_option (g i) (objects d i) else objects d i)\<rparr>)"
  by (rule local_stepI [OF assms(1)]) (use assms(2) in \<open>auto simp: gentle_def split: if_splits\<close>)

lemma local_step_drop_out [steps]: "local_step c d \<Longrightarrow> local_step c (drop_out_chunks S chs d)"
proof (induction chs arbitrary: d)
  case (Cons ch chs)
  have "local_step c (drop_out_chunk S ch d)"
    unfolding drop_out_chunk_def by (intro local_step_on_stream local_step_fields Cons.prems) (simp add: gentle_def grows_def)
  then show ?case using Cons.IH by simp
qed simp

section \<open>The operations\<close>

lemmas gentle_simps = gentle_def grows_def

lemma drop_out_updates:
  "drop_out_chunks S chs (c\<lparr>closed := b\<rparr>) = (drop_out_chunks S chs c)\<lparr>closed := b\<rparr>"
  "drop_out_chunks S chs (c\<lparr>cleanup_started := b\<rparr>) = (drop_out_chunks S chs c)\<lparr>cleanup_started := b\<rparr>"
proof -
  have "drop_out_chunk S ch (c\<lparr>closed := b\<rparr>) = (drop_out_chunk S ch c)\<lparr>closed := b\<rparr>"
    "drop_out_chunk S ch (c\<lparr>cleanup_started := b\<rparr>) = (drop_out_chunk S ch c)\<lparr>cleanup_started := b\<rparr>" for ch and c :: "'a connection"
    by (simp_all add: drop_out_chunk_def on_stream_def)
  then show "drop_out_chunks S chs (c\<lparr>closed := b\<rparr>) = (drop_out_chunks S chs c)\<lparr>closed := b\<rparr>"
    "drop_out_chunks S chs (c\<lparr>cleanup_started := b\<rparr>) = (drop_out_chunks S chs c)\<lparr>cleanup_started := b\<rparr>"
    by (induction chs arbitrary: c) simp_all
qed

lemma on_queues_updates:
  "on_queues g (c\<lparr>closed := b\<rparr>) = (on_queues g c)\<lparr>closed := b\<rparr>"
  "on_queues g (c\<lparr>cleanup_started := b\<rparr>) = (on_queues g c)\<lparr>cleanup_started := b\<rparr>"
  by (simp_all add: on_queues_def)

lemma shut_writer_shutdown: "closed d \<Longrightarrow> terminated d \<Longrightarrow> shut (writer_shutdown S d)"
proof -
  have "closed (drop_out_chunks S chs e) = closed e \<and> terminated (drop_out_chunks S chs e) = terminated e
      \<and> writer (drop_out_chunks S chs e) = writer e" for chs and e :: "'a connection"
    by (induction chs arbitrary: e) (simp_all add: drop_out_chunk_def on_stream_def)
  then show "closed d \<Longrightarrow> terminated d \<Longrightarrow> shut (writer_shutdown S d)" by (simp add: shut_def writer_shutdown_def on_queues_def)
qed

lemma mark_closed_last:
  assumes "\<not> cleanup_started d"
  shows "mark_closed S d = (let c = (writer_shutdown S (d\<lparr>closed := True, terminated := True, open_streams := sem_close S (open_streams d),
        inbound_conn_bytes := sem_close S (inbound_conn_bytes d), outbound_conn_bytes := sem_close S (outbound_conn_bytes d),
        outbound_frames := sem_close S (outbound_frames d)\<rparr>))\<lparr>cleanup_started := True\<rparr>
      in c\<lparr>streams := {}, objects := (\<lambda>i. if i \<in> streams c then map_option (mark_connection_closed S) (objects c i) else objects c i)\<rparr>)"
proof -
  let ?e = "d\<lparr>closed := True, terminated := True, open_streams := sem_close S (open_streams d),
      inbound_conn_bytes := sem_close S (inbound_conn_bytes d), outbound_conn_bytes := sem_close S (outbound_conn_bytes d),
      outbound_frames := sem_close S (outbound_frames d)\<rparr>"
  let ?f = "d\<lparr>closed := True, terminated := True, cleanup_started := True, open_streams := sem_close S (open_streams d),
      inbound_conn_bytes := sem_close S (inbound_conn_bytes d), outbound_conn_bytes := sem_close S (outbound_conn_bytes d),
      outbound_frames := sem_close S (outbound_frames d)\<rparr>"
  have w: "writer_shutdown S (?e\<lparr>cleanup_started := True\<rparr>) = (writer_shutdown S ?e)\<lparr>cleanup_started := True\<rparr>"
    unfolding writer_shutdown_def on_queues_updates drop_out_updates by simp
  have f: "?f = ?e\<lparr>cleanup_started := True\<rparr>" by simp
  have "mark_closed S d = (let c = writer_shutdown S ?f
      in c\<lparr>streams := {}, objects := (\<lambda>i. if i \<in> streams c then map_option (mark_connection_closed S) (objects c i) else objects c i)\<rparr>)"
    using assms unfolding mark_closed_def Let_def by (simp cong: if_cong)
  then show ?thesis unfolding f w .
qed

lemma local_step_closing [steps]:
  assumes "local_step c d"
  shows "local_step c (mark_closed S d)" "local_step c (snd (initiate_close S code reason d))"
proof -
  have ws: "local_step c (writer_shutdown S d)" if "local_step c d" for d
    unfolding writer_shutdown_def using that by (intro local_step_drop_out local_step_on_queues) simp_all
  have objs: "local_step c (d\<lparr>streams := {}, objects := (\<lambda>i. if i \<in> streams d
      then map_option (mark_connection_closed S) (objects d i) else objects d i)\<rparr>)" if "local_step c d" for d
    by (rule local_stepI [OF that]) (auto simp: mark_connection_closed_def grows_def split: if_splits)
  show "local_step c (mark_closed S d)"
  proof (cases "cleanup_started d")
    case True
    then show ?thesis using assms by (simp add: mark_closed_def Let_def local_step_fields)
  next
    case False
    then show ?thesis
      unfolding mark_closed_last [OF False] Let_def by (intro objs ws local_step_fields assms shut_writer_shutdown) simp_all
  qed
  show "local_step c (snd (initiate_close S code reason d))"
    using assms unfolding initiate_close_def Let_def
    by (auto simp: drop_out_updates on_queues_updates split: sum.split intro!: local_step_fields local_step_on_queues local_step_drop_out)
qed

lemma local_step_stream_flags [steps]:
  assumes "local_step c d"
  shows "local_step c (add_handles sid d)" "local_step c (mark_recv_terminal sid d)" "local_step c (release_send sid d)"
    "local_step c (release_recv sid d)" "local_step c (set_send_locked sid b d)" "local_step c (release_outbound S sid m n j k d)"
    "local_step c (release_open_permit S sid d)"
  unfolding add_handles_def mark_recv_terminal_def release_send_def release_recv_def set_send_locked_def release_outbound_def
    release_open_permit_def
  using assms by (auto simp: gentle_simps Let_def case_prod_beta split: option.split intro!: local_step_on_stream local_step_fields)

lemma local_step_stats [steps]:
  assumes "local_step c d"
  shows "local_step c (count_opened d)" "local_step c (record_sent n d)" "local_step c (record_received n d)"
  unfolding count_opened_def record_sent_def record_received_def using assms by (simp_all add: local_step_fields)

lemma local_step_try_retire [steps]: "local_step c d \<Longrightarrow> local_step c (try_retire_stream S sid d)"
  unfolding try_retire_stream_def Let_def
  by (auto split: option.split intro!: local_step_on_queues local_step_fields local_step_stream_flags)

lemma local_step_inbound [steps]:
  assumes "local_step c d"
  shows "local_step c (on_inbound sid (\<lambda>i. i\<lparr>chunks := cs\<rparr>) d)" "local_step c (mark_reset S sid code d)"
    "local_step c (discard_inbound S sid d)" "local_step c (snd (read_chunk sid d))" "local_step c (snd (push_inbound S sid p d))"
proof -
  have ch: "local_step c (on_inbound sid (\<lambda>i. i\<lparr>chunks := cs\<rparr>) d)" for cs
    unfolding on_inbound_def using assms by (intro local_step_on_stream) (simp_all add: gentle_simps)
  then show "local_step c (on_inbound sid (\<lambda>i. i\<lparr>chunks := cs\<rparr>) d)" .
  show "local_step c (mark_reset S sid code d)" "local_step c (discard_inbound S sid d)" "local_step c (snd (read_chunk sid d))"
    unfolding mark_reset_def discard_inbound_def read_chunk_def on_inbound_def using assms
    by (auto simp: gentle_simps split: option.split list.split
        intro!: local_step_credit [OF credit_frame_drops] local_step_on_stream)
  show "local_step c (snd (push_inbound S sid p d))"
  proof (cases "objects d sid")
    case None
    then show ?thesis using assms by (simp add: push_inbound_def)
  next
    case (Some st)
    then show ?thesis using credit_frame_push [OF Some, of S p] ch by (blast intro: local_step_credit)
  qed
qed

lemma local_step_control [steps]:
  assumes "local_step c d"
  shows "local_step c (snd (enqueue_control f d))" "local_step c (remove_queue S sid d)" "local_step c (snd (reset_stream S sid code d))"
proof -
  show "local_step c (snd (enqueue_control f d))"
    unfolding enqueue_control_def using assms by (auto intro!: local_step_on_queues)
  have rq: "local_step c (remove_queue S sid d)" if "local_step c d" for d
    unfolding remove_queue_def using that by (intro local_step_drop_out local_step_on_queues) simp_all
  show "local_step c (remove_queue S sid d)" by (rule rq [OF assms])
  show "local_step c (snd (reset_stream S sid code d))"
    unfolding reset_stream_def Let_def using assms
    by (auto simp: gentle_simps split: sum.split option.split intro!: local_step_on_stream local_step_on_queues rq)
qed

lemma local_step_handles [steps]:
  assumes "local_step c d"
  shows "local_step c (handle_last_send_drop S sid d)" "local_step c (snd (handle_last_recv_drop S sid d))"
  unfolding handle_last_send_drop_def handle_last_recv_drop_def Let_def case_prod_beta using assms
  by (auto split: option.split sum.split intro!: local_step_try_retire local_step_control local_step_inbound local_step_closing)

lemma local_step_register [steps]:
  assumes "local_step c d" "id_limit d sid \<le> sid"
  shows "local_step c (register_stream S sid d)"
proof -
  have e: "evolves c d" and p: "peer_same c d" using assms(1) by (auto simp: local_step_def)
  have new: "\<not> sid < id_limit c sid" using id_limit_mono [OF e, of sid] assms(2) by (meson order.strict_trans1 order.strict_trans2 order.irrefl leD)
  have "shut (register_stream S sid d) = shut d" by (simp add: register_stream_def shut_def)
  then have "evolves c (register_stream S sid d)"
    unfolding evolves_def using evolvesD [OF e] new by (auto simp: register_stream_def)
  moreover have "peer_same c (register_stream S sid d)"
    using p new by (auto simp: peer_same_def register_stream_def stream_state_new_def)
  ultimately show ?thesis by (simp add: local_step_def)
qed

lemma local_step_next_ids:
  assumes "local_step c d"
  shows "next_local_stream_id d \<le> i \<Longrightarrow> local_step c (d\<lparr>next_local_stream_id := i\<rparr>)"
    "next_remote_stream_id d \<le> i \<Longrightarrow> local_step c (d\<lparr>next_remote_stream_id := i\<rparr>)"
proof -
  have e: "evolves c d" and p: "peer_same c d" using assms(1) by (auto simp: local_step_def)
  have "next_local_stream_id c \<le> i" if "next_local_stream_id d \<le> i" by (rule order.trans [OF evolvesD(3) [OF e] that])
  then show "next_local_stream_id d \<le> i \<Longrightarrow> local_step c (d\<lparr>next_local_stream_id := i\<rparr>)"
    using evolvesD [OF e] p by (simp add: local_step_def evolves_def peer_same_def shut_def)
  have "next_remote_stream_id c \<le> i" if "next_remote_stream_id d \<le> i" by (rule order.trans [OF evolvesD(4) [OF e] that])
  then show "next_remote_stream_id d \<le> i \<Longrightarrow> local_step c (d\<lparr>next_remote_stream_id := i\<rparr>)"
    using evolvesD [OF e] p by (simp add: local_step_def evolves_def peer_same_def shut_def)
qed

lemma register_frame [simp]:
  "next_local_stream_id (register_stream S sid d) = next_local_stream_id d"
  "next_remote_stream_id (register_stream S sid d) = next_remote_stream_id d"
  by (simp_all add: register_stream_def)

lemma register_next_local:
  "register_stream S sid (d\<lparr>next_local_stream_id := i\<rparr>) = (register_stream S sid d)\<lparr>next_local_stream_id := i\<rparr>"
  by (simp add: register_stream_def on_queues_def)

lemma local_step_opened:
  assumes s: "local_step c d" and ids: "ids_inv d" and sid: "sid \<le> varint_MAX"
  shows "sid = next_local_stream_id d \<Longrightarrow> local_step c (register_stream S sid (d\<lparr>next_local_stream_id := sid + 2\<rparr>))"
    "sid = next_remote_stream_id d \<Longrightarrow> local_step c ((register_stream S sid d)\<lparr>next_remote_stream_id := sid + 2\<rparr>)"
  using local_step_register [OF s, of sid S] next_ids_fresh [OF ids] next_id(4) [OF sid]
  by (auto simp: register_next_local intro!: local_step_next_ids)

lemma local_step_accept_bi: "local_step c d \<Longrightarrow> local_step c (snd (accept_bi d))"
  unfolding accept_bi_def by (auto split: sum.split list.split intro!: local_step_stream_flags local_step_fields)

lemma local_step_receive_both: "local_step c d \<Longrightarrow> local_step c (snd (receive_both sid n d))"
  unfolding receive_both_def Let_def case_prod_beta
  by (auto simp: gentle_simps split: sum.split option.split intro!: local_step_on_stream local_step_fields)

lemma local_step_on_remote_stream_frame:
  assumes "local_step c d"
  shows "local_step c (snd (on_remote_stream_frame S sid payload fin d))" "local_step c (snd (on_remote_reset S sid code d))"
proof -
  obtain r d1 where r: "receive_both sid (length payload) d = (r, d1)" by fastforce
  have d1: "local_step c d1" using local_step_receive_both [OF assms, of sid "length payload"] r by simp
  obtain r2 d2 where r2: "(if payload \<noteq> [] then push_inbound S sid payload else ok ()) d1 = (r2, d2)" by fastforce
  have d2: "local_step c d2"
    using d1 local_step_inbound(5) [OF d1, of S sid payload] r2 by (auto simp: ok_def split: if_splits)
  show "local_step c (snd (on_remote_stream_frame S sid payload fin d))"
    using assms d1 d2 unfolding on_remote_stream_frame_def and_then_def r r2 prod.case
    by (auto simp: r2 split: option.split sum.split intro!: local_step_try_retire local_step_stream_flags)
  show "local_step c (snd (on_remote_reset S sid code d))"
    using assms unfolding on_remote_reset_def
    by (auto split: option.split sum.split intro!: local_step_try_retire local_step_stream_flags local_step_inbound)
qed

lemma local_step_sends:
  assumes "local_step c d"
  shows "local_step c (snd (poll_send S sid payload fin stage d))" "local_step c (drop_queue S sid payload stage d)"
proof -
  have enq: "local_step c (snd (enqueue_data S sid ch d))" if "local_step c d" for ch d
    unfolding enqueue_data_def using that local_step_drop_out [OF that, of S "[ch]"] by (auto intro!: local_step_on_queues)
  have fin: "local_step c (snd (queue_finish S sid payload fin d))" if "local_step c d" for payload d
    unfolding queue_finish_def Let_def case_prod_beta using that
    by (auto simp: gentle_simps split: sum.split intro!: local_step_stream_flags local_step_on_stream enq)
  have cb: "local_step c (snd (queue_conn_bytes S sid payload fin d))" if "local_step c d" for payload d
    unfolding queue_conn_bytes_def Let_def case_prod_beta using that
    by (auto split: sem_result.split intro!: local_step_stream_flags local_step_fields fin)
  have cf: "local_step c (snd (queue_conn_frame S sid payload fin d))" if "local_step c d" for payload d
    unfolding queue_conn_frame_def Let_def case_prod_beta using that
    by (auto split: sem_result.split intro!: local_step_stream_flags local_step_fields cb)
  have sb: "local_step c (snd (queue_stream_bytes S sid payload fin d))" if "local_step c d" for payload d
    unfolding queue_stream_bytes_def Let_def case_prod_beta using that
    by (auto simp: gentle_simps split: sem_result.split option.split intro!: local_step_stream_flags local_step_on_stream cf)
  have sf: "local_step c (snd (queue_stream_frame S sid payload fin d))" if "local_step c d" for payload d
    unfolding queue_stream_frame_def Let_def case_prod_beta using that
    by (auto simp: gentle_simps split: sem_result.split option.split intro!: local_step_stream_flags local_step_on_stream sb)
  have ql: "local_step c (snd (queue_lock S sid payload fin d))"
    unfolding queue_lock_def using assms
    by (auto split: sum.split bool.split option.split intro!: local_step_stream_flags sf)
  show dq: "local_step c (drop_queue S sid payload stage d)"
    using assms by (cases stage) (auto intro!: local_step_stream_flags)
  have "local_step c (snd (poll_queue S sid payload fin stage d))"
    using assms ql sf sb cf cb by (cases stage) (auto split: sum.split)
  then show "local_step c (snd (poll_send S sid payload fin stage d))"
    unfolding poll_send_def using assms dq by (auto split: option.split)
qed

lemma local_step_find_update: "local_step c d \<Longrightarrow> local_step c (snd (find_update ids d))"
proof (induction ids d rule: find_update.induct)
  case (2 sid ids d)
  have "local_step c (on_stream sid (\<lambda>st. st\<lparr>s_window := w\<rparr>) d)" for w
    by (rule local_step_on_stream [OF 2(4)]) (simp add: gentle_simps)
  then show ?case using 2 by (auto split: option.split prod.split run.split sum.split)
qed simp

lemma local_step_control_pass: "local_step c d \<Longrightarrow> local_step c (snd (control_pass order d))"
  unfolding control_pass_def control_done_def
  using local_step_find_update [OF local_step_fields(1), of c d]
  by (auto split: list.split prod.split run.split option.split intro!: local_step_on_queues local_step_fields
      dest!: arg_cong [of "find_update _ _" _ snd])

lemma local_step_dispatch: "local_step c d \<Longrightarrow> local_step c (snd (dispatch S sid ch rest n d))"
proof -
  assume s: "local_step c d"
  let ?ch = "ch\<lparr>out_payload := drop n (out_payload ch)\<rparr>"
  let ?d = "on_stream (out_state ch) (\<lambda>st. st\<lparr>s_sent := s_sent st + as_u64 n,
     send_dispatched := send_dispatched st \<or> (out_fin ch \<and> out_payload ?ch = [])\<rparr>) d"
  have d: "local_step c ?d" by (rule local_step_on_stream [OF s]) (simp add: gentle_simps)
  have "local_step c (drop_out_chunk S ?ch ?d)" using local_step_drop_out [OF d, of S "[?ch]"] by (simp only: drop_out_chunks.simps)
  with d have e: "local_step c (if out_payload ?ch = [] then drop_out_chunk S ?ch ?d else ?d)" by (split if_split) blast
  have "local_step c (on_queues (\<lambda>q. q\<lparr>w_sent := w_sent q + as_u64 n, control_turn := True\<rparr>)
      (on_queues (\<lambda>q. if Q then q\<lparr>by_stream := f q\<rparr> else q\<lparr>by_stream := g q, ready := ready q @ [sid]\<rparr>) e))"
    if "local_step c e" for Q f g e
    using that by (cases Q) (simp_all add: local_step_on_queues)
  from this [OF e] show ?thesis unfolding dispatch_def Let_def snd_conv .
qed

lemma local_step_data_pass: "local_step c d \<Longrightarrow> local_step c (snd (data_pass S d))"
proof -
  have "local_step c d \<Longrightarrow> local_step c (snd (scan_ready S n cc ini mf set d))" for n cc ini mf set
  proof (induction n arbitrary: d)
    case (Suc n)
    have q: "local_step c (on_queues (\<lambda>q. q\<lparr>ready := ids\<rparr>) d)" for ids by (rule local_step_on_queues [OF Suc.prems]) simp
    have "local_step c (on_queues (\<lambda>q. q\<lparr>ready := ready q @ [i]\<rparr>) (on_queues (\<lambda>q. q\<lparr>ready := ids\<rparr>) d))" for i ids
      by (rule local_step_on_queues [OF q]) simp
    then show ?case
      using Suc q local_step_dispatch [OF q, of S]
      by (auto simp: Let_def case_prod_beta split: list.split option.split run.split)
  qed simp
  then show "local_step c d \<Longrightarrow> local_step c (snd (data_pass S d))" by (simp add: data_pass_def Let_def)
qed

lemma local_step_close_pass: "local_step c d \<Longrightarrow> local_step c (snd (close_pass d))"
  unfolding close_pass_def take_close_frame_def Let_def
  by (auto split: option.split intro!: local_step_on_queues)

lemma local_step_next_pass: "local_step c d \<Longrightarrow> local_step c (snd (next_pass order S d))"
proof -
  assume s: "local_step c d"
  obtain r1 c1 where c1: "(if control_turn (writer d) \<or> is_urgent (control (writer d)) then control_pass order d
      else (Done None, d)) = (r1, c1)"
    by (metis surj_pair)
  then have i1: "local_step c c1" using s local_step_control_pass [OF s, of order] by (auto split: if_splits)
  obtain r2 c2 where c2: "data_pass S c1 = (r2, c2)" by (metis surj_pair)
  then have i2: "local_step c c2" using local_step_data_pass [OF i1, of S] by simp
  show ?thesis
    using i1 i2 local_step_close_pass [OF s] local_step_close_pass [OF i2]
    by (auto simp: next_pass_def c1 c2 split: run.split option.split intro!: local_step_on_queues)
qed

lemma local_step_next_frame:
  assumes "queues_inv d" "local_step c d"
  shows "local_step c (snd (next_frame order S d))"
proof -
  obtain p1 c1 where n: "next_pass order S d = (p1, c1)" by (metis surj_pair)
  have "local_step c c1" using local_step_next_pass [OF assms(2), of order S] n by simp
  then show ?thesis using local_step_next_pass [of c c1 order S] by (simp add: next_frame_two [OF assms(1)] n split: pass.split)
qed

lemma local_step_frame_sent: "local_step c d \<Longrightarrow> local_step c (frame_sent S f n d)"
  unfolding frame_sent_def Let_def
  by (auto simp: gentle_simps split: option.split intro!: local_step_try_retire local_step_on_stream local_step_stats)

context semaphore
begin

lemma local_step_poll_open_bi:
  assumes inv: "conn_inv free waiting out c"
  shows "local_step c (snd (poll_open_bi S stage c))"
proof -
  have refl: "local_step c c" by (rule local_step_refl [OF conn_inv_used_ids [OF inv]])
  have fin: "local_step c (snd (open_finish S d))" if s: "local_step c d" and o: "opening_inv free waiting out d" for d
    using o prod.collapse [of "open_finish S d", symmetric]
  proof (cases rule: open_finish_cases)
    case refused
    then show ?thesis using s by (simp add: local_step_fields)
  next
    case full
    then show ?thesis using s by (simp add: local_step_fields local_step_closing)
  next
    case exhausted
    then show ?thesis using s by (simp add: local_step_fields)
  next
    case (opened sid)
    have "ids_inv d" using o by (simp add: opening_inv_def streams_inv_def)
    from local_step_opened(1) [OF s this opened(3,2), of S] show ?thesis
      unfolding opened(7) by (intro local_step_stream_flags local_step_stats local_step_on_queues) simp_all
  qed
  have ps: "local_step c (snd (open_permit_stage S d))" if s: "local_step c d" and i: "conn_inv free waiting out d" for d
  proof -
    obtain r x where p: "sem_poll_acquire S 1 (open_streams d) = (r, x)" by fastforce
    have "opening_inv free waiting out (d\<lparr>open_streams := x\<rparr>)" if "r = Granted"
      using poll_free [of 1 "open_streams d"] p that by (intro opening_inv_taken [OF i]) simp
    then show ?thesis
      using s p fin [of "d\<lparr>open_streams := x\<rparr>"]
      by (auto simp: open_permit_stage_def case_prod_beta Let_def split: sem_result.split intro!: local_step_fields)
  qed
  have "local_step c (snd (open_lock_stage S c))"
    unfolding open_lock_stage_def using refl ps [of "c\<lparr>open_locked := True\<rparr>"] inv
    by (auto split: sum.split intro: local_step_fields)
  then show ?thesis using refl ps [OF refl inv] by (cases stage) (auto split: sum.split)
qed

lemma local_step_on_remote_open:
  assumes inv: "conn_inv free waiting out c" and sid: "sid \<le> varint_MAX"
  shows "local_step c (snd (on_remote_open S sid c))"
proof -
  have refl: "local_step c c" by (rule local_step_refl [OF conn_inv_used_ids [OF inv]])
  obtain r x where p: "sem_try_acquire S 1 (open_streams c) = (r, x)" by fastforce
  let ?d = "c\<lparr>open_streams := x\<rparr>"
  have "ids_inv ?d"
  proof -
    have [simp]: "id_limit ?d = id_limit c" by (simp add: id_limit_def fun_eq_iff)
    show ?thesis using inv by (simp add: conn_inv_def streams_inv_def ids_inv_def)
  qed
  then have "local_step c ((register_stream S sid ?d)\<lparr>next_remote_stream_id := sid + 2\<rparr>)"
    if "sid = next_remote_stream_id c"
    by (rule local_step_opened(2) [OF local_step_fields(5) [OF refl] _ sid]) (use that in simp)
  then show ?thesis
    using refl p by (auto simp: on_remote_open_def Let_def split: sem_result.split intro!: local_step_stats local_step_fields)
qed

end

end
