(* ===== verification/Incoming.thy ===== *)
theory Incoming
  imports Evolution
begin

text \<open>
  \<open>handle_incoming_frame\<close> of \<^verbatim>\<open>muxtls/src/connection.rs\<close>: what each frame of the peer does to the connection,
  and what the reader task does with the result.
\<close>

section \<open>Model\<close>

definition on_settings :: "varint \<Rightarrow> varint \<Rightarrow> varint \<Rightarrow> ('s connection, fault, unit) action" where
  "on_settings max_data max_stream_data max_frame c =
     (if peer_settings (writer c) \<or> into_inner max_frame < as_u64 MIN_FRAME_SIZE \<or> into_inner max_frame > as_u64 u32_max
      then (Inl (Fail (Protocol ''invalid or repeated SETTINGS'')), c)
      else (Inr (), on_queues (\<lambda>q. q\<lparr>peer_settings := True, peer_limit := into_inner max_data,
               peer_initial_stream_limit := into_inner max_stream_data, peer_max_frame := unat (into_inner max_frame)\<rparr>) c))"

definition on_max_data :: "varint \<Rightarrow> 's connection \<Rightarrow> 's connection" where
  "on_max_data maximum c = on_queues (\<lambda>q. q\<lparr>peer_limit := max (peer_limit q) (into_inner maximum)\<rparr>) c"

text \<open>Credit for a stream that is not in the table is ignored if the stream was opened once.\<close>

definition on_max_stream_data :: "u64 \<Rightarrow> varint \<Rightarrow> ('s connection, fault, unit) action" where
  "on_max_stream_data sid maximum c =
     (if sid \<in> streams c
      then (Inr (), on_stream sid (\<lambda>st. st\<lparr>s_peer_limit := max (s_peer_limit st) (into_inner maximum)\<rparr>) c)
      else if sid \<ge> id_limit c sid then (Inl (Fail (Protocol ''credit for unopened stream'')), c)
      else (Inr (), c))"

definition on_stop_sending :: "'s sem_ops \<Rightarrow> u64 \<Rightarrow> ('s connection, fault, unit) action" where
  "on_stop_sending S sid c =
     (if sid \<in> streams c then reset_stream S sid 0 c
      else if sid \<ge> id_limit c sid then (Inl (Fail (Protocol ''STOP_SENDING for unopened stream'')), c)
      else (Inr (), c))"

fun is_settings :: "frame \<Rightarrow> bool" where
  "is_settings (Settings _ _ _) = True"
| "is_settings _ = False"

text \<open>The \<open>match\<close> on the frame; the result is whether the reader continues.\<close>

fun handle_frame :: "'s sem_ops \<Rightarrow> frame \<Rightarrow> ('s connection, fault, bool) action" where
  "handle_frame S (Settings max_data max_stream_data max_frame) = and_then (on_settings max_data max_stream_data max_frame) (\<lambda>_. ok True)"
| "handle_frame S (MaxData maximum) = (\<lambda>c. (Inr True, on_max_data maximum c))"
| "handle_frame S (MaxStreamData stream_id maximum) = and_then (on_max_stream_data (into_inner stream_id) maximum) (\<lambda>_. ok True)"
| "handle_frame S (Stream stream_id fin payload) =
     and_then (on_remote_stream_frame S (into_inner stream_id) payload fin) (\<lambda>_. ok True)"
| "handle_frame S (ResetStream stream_id error_code) =
     and_then (on_remote_reset S (into_inner stream_id) (error_code_into_inner error_code)) (\<lambda>_. ok True)"
| "handle_frame S (OpenStream stream_id) = and_then (on_remote_open S (into_inner stream_id)) (\<lambda>_. ok True)"
| "handle_frame S (StopSending stream_id) = and_then (on_stop_sending S (into_inner stream_id)) (\<lambda>_. ok True)"
| "handle_frame S Ping = ok True"
| "handle_frame S (ConnectionClose error_code reason) = (\<lambda>c. (Inr False, mark_closed S c))"

definition accept_frame :: "'s sem_ops \<Rightarrow> frame \<Rightarrow> ('s connection, fault, bool) action" where
  "accept_frame S frame c =
     (if \<not> is_settings frame \<and> \<not> peer_settings (writer c)
      then (Inl (Fail (Protocol ''SETTINGS must be the first frame'')), c)
      else handle_frame S frame c)"

definition handle_incoming_frame :: "'b buf_ops \<Rightarrow> 's sem_ops \<Rightarrow> 'b \<Rightarrow> ('s connection, fault, bool) action" where
  "handle_incoming_frame B S bytes c =
     (case frame_decode B bytes of
        (Inl e, _) \<Rightarrow> (Inl (Fail (Wire e)), c)
      | (Inr frame, _) \<Rightarrow> accept_frame S frame c)"

text \<open>What the reader does with one item of the transport: the frame is counted and handled; an error is sent
  to the peer as the reason of a close frame; then the loop ends and the connection is marked closed.\<close>

definition reader_frame :: "'b buf_ops \<Rightarrow> 's sem_ops \<Rightarrow> 'b \<Rightarrow> usize \<Rightarrow> 's connection \<Rightarrow> bool run \<times> 's connection" where
  "reader_frame B S bytes len c =
     (case handle_incoming_frame B S bytes (record_received len c) of
        (Inr True, c) \<Rightarrow> (Done True, c)
      | (Inr False, c) \<Rightarrow> (Done False, mark_closed S c)
      | (Inl (Fail e), c) \<Rightarrow>
          (Done False, mark_closed S (snd (initiate_close S 1 (str_bytes (''protocol/runtime error: '' @ error_display e)) c)))
      | (Inl Panicked, c) \<Rightarrow> (Panic, c))"

text \<open>The end of the transport or a failure to read from it, and the idle timeout.\<close>

definition reader_eof :: "'s sem_ops \<Rightarrow> 's connection \<Rightarrow> 's connection" where
  "reader_eof S c = mark_closed S c"

definition reader_idle :: "'s sem_ops \<Rightarrow> 's connection \<Rightarrow> 's connection" where
  "reader_idle S c = mark_closed S (snd (initiate_close S 1 (str_bytes ''connection idle timeout elapsed'') c))"

section \<open>The invariant\<close>

text \<open>Before the peer's SETTINGS arrived there is no credit.\<close>

definition settings_inv :: "'s connection \<Rightarrow> bool" where
  "settings_inv c \<longleftrightarrow> peer_settings (writer c) \<or> peer_limit (writer c) = 0 \<and> peer_initial_stream_limit (writer c) = 0
     \<and> (\<forall>i st. objects c i = Some st \<longrightarrow> s_peer_limit st = 0)"

lemma settings_inv_step:
  assumes "settings_inv c" "used_ids c" "local_step c c'"
  shows "settings_inv c'"
proof (cases "peer_settings (writer c)")
  case True
  then show ?thesis using assms(3) by (simp add: settings_inv_def local_step_def peer_same_def)
next
  case False
  have "s_peer_limit st' = 0" if "objects c' i = Some st'" for i st'
  proof (cases "i < id_limit c i")
    case True
    moreover have "evolves c c'" using assms(3) by (simp add: local_step_def)
    ultimately have "\<exists>st. objects c i = Some st" using evolvesD(10) that by blast
    then show ?thesis using assms that True False by (auto simp: local_step_def peer_same_def settings_inv_def)
  next
    case False
    then show ?thesis using assms(3) that by (simp add: local_step_def peer_same_def)
  qed
  then show ?thesis using assms False by (simp add: settings_inv_def local_step_def peer_same_def)
qed

lemma settings_inv_new: "connection_new S m l is_client certs = Inr c \<Longrightarrow> settings_inv c"
  using connection_new_valid [of S m l is_client certs c] by (simp add: settings_inv_def queues_new_def)

lemma conn_inv_on_settings:
  assumes inv: "conn_inv free waiting out c" and s: "settings_inv c"
  shows "conn_inv free waiting out (snd (on_settings d sd mf c))" "settings_inv (snd (on_settings d sd mf c))"
    "evolves c (snd (on_settings d sd mf c))"
proof -
  let ?c = "on_queues (\<lambda>q. q\<lparr>peer_settings := True, peer_limit := into_inner d,
               peer_initial_stream_limit := into_inner sd, peer_max_frame := unat (into_inner mf)\<rparr>) c"
  have "conn_inv free waiting out ?c" if ns: "\<not> peer_settings (writer c)"
    and f: "\<not> into_inner mf < as_u64 MIN_FRAME_SIZE" "\<not> into_inner mf > as_u64 u32_max"
  proof -
    have q: "queues_inv c" using inv by (simp add: conn_inv_def)
    have z: "peer_limit (writer c) = 0" "peer_initial_stream_limit (writer c) = 0"
        "\<And>i st. objects c i = Some st \<Longrightarrow> s_peer_limit st = 0"
      using s ns by (auto simp: settings_inv_def)
    have "w_sent (writer c) = 0" using queues_invD(7) [OF q] z(1) by simp
    moreover have "s_sent st = 0" if "objects c i = Some st" for i st
      using queues_invD(6) [OF q that] z(2) z(3) [OF that] by (simp add: stream_credit_ok_def)
    then have "stream_credit_ok (into_inner sd) st" if "objects c i = Some st" for i st
      using that by (simp add: stream_credit_ok_def)
    moreover have "25 \<le> unat (into_inner mf)" "unat (into_inner mf) < 2 ^ 32"
      using f by (simp_all add: MIN_FRAME_SIZE_def u32_max_def not_less word_le_nat_alt unat_as_u64)
    ultimately have "queues_inv ?c"
      using q by (simp add: queues_inv_def ready_ok_def control_ok_def cong: option.case_cong)
    then show ?thesis using inv by (simp add: conn_inv_def streams_inv_on_queues)
  qed
  then show "conn_inv free waiting out (snd (on_settings d sd mf c))"
    using inv by (auto simp: on_settings_def)
  show "settings_inv (snd (on_settings d sd mf c))" "evolves c (snd (on_settings d sd mf c))"
    using s by (auto simp: on_settings_def settings_inv_def evolves_def)
qed

lemma conn_inv_on_max_data:
  assumes inv: "conn_inv free waiting out c" and p: "peer_settings (writer c)"
  shows "conn_inv free waiting out (on_max_data m c)" "settings_inv (on_max_data m c)" "evolves c (on_max_data m c)"
proof -
  have "queues_inv c" using inv by (simp add: conn_inv_def)
  then have "queues_inv (on_max_data m c)"
    by (simp add: on_max_data_def queues_inv_def ready_ok_def control_ok_def le_max_iff_disj cong: option.case_cong)
  then show "conn_inv free waiting out (on_max_data m c)"
    using inv by (simp add: conn_inv_def on_max_data_def streams_inv_on_queues)
  show "settings_inv (on_max_data m c)" "evolves c (on_max_data m c)"
    using p by (simp_all add: on_max_data_def settings_inv_def evolves_def)
qed

lemma conn_inv_peer_limit:
  assumes inv: "conn_inv free waiting out c" and st: "objects c sid = Some st" and p: "peer_settings (writer c)"
    and c': "c' = on_stream sid (\<lambda>st. st\<lparr>s_peer_limit := max (s_peer_limit st) m\<rparr>) c"
  shows "conn_inv free waiting out c'" "settings_inv c'" "evolves c c'"
proof -
  let ?f = "\<lambda>st. st\<lparr>s_peer_limit := max (s_peer_limit st) m\<rparr>"
  have q: "queues_inv c" "streams_inv free c" "inbound_inv free waiting out c" using inv by (simp_all add: conn_inv_def)
  have queues: "stream_queue_ok (limits c) i (objects c' i) chs" if "map_of (by_stream (writer c)) i = Some chs" for i chs
    using queues_invD(3) [OF q(1) that] st by (auto simp: c' stream_queue_ok_def)
  have objs: "i \<le> varint_MAX \<and> rw_inv (s_window s) \<and> stream_credit_ok (peer_initial_stream_limit (writer c)) s"
    if "objects c' i = Some s" for i s
    using that queues_invD(4-6) [OF q(1), of i] by (auto simp: c' stream_credit_ok_def max.assoc le_max_iff_disj split: if_splits)
  have "queues_inv c'" using q(1) queues objs by (simp add: queues_inv_def c')
  moreover have "streams_inv free c'" unfolding c' by (rule streams_inv_on_stream [OF q(2)]) (simp add: flags_ok_def)
  moreover have "inbound_inv free waiting out c'"
  proof -
    have o: "objects c' = (objects c)(sid \<mapsto> ?f st)" using st by (simp add: c' on_stream_def)
    have acc: "stream_account free waiting (out sid) (max_inbound_stream_bytes (limits c)) st"
      and conn: "conn_account free waiting (inbound_load out c) c" using inbound_invD [OF q(3)] st by auto
    show ?thesis
      by (rule inbound_inv_update [OF q(3) st o])
        (use acc conn in \<open>auto simp: c' stream_account_def conn_account_def stream_load_def\<close>)
  qed
  ultimately show "conn_inv free waiting out c'" by (simp add: conn_inv_def)
  show "settings_inv c'" "evolves c c'"
    using p by (auto simp: c' settings_inv_def evolves_def grows_def)
qed

lemma and_then_ok:
  "snd (and_then f (\<lambda>_. ok b) c) = snd (f c)"
  "fst (and_then f (\<lambda>_. ok b) c) = Inl e \<longleftrightarrow> fst (f c) = Inl e"
  by (auto simp: and_then_def ok_def case_prod_beta split: sum.split)

text \<open>Every frame, whether it is accepted or not, leaves a good state, and handling it cannot panic.\<close>

definition frame_safe ::
  "('s \<Rightarrow> nat) \<Rightarrow> ('s \<Rightarrow> bool) \<Rightarrow> (u64 \<Rightarrow> nat) \<Rightarrow> 's connection \<Rightarrow> (fault + 'a) \<times> 's connection \<Rightarrow> bool" where
  "frame_safe free waiting out c r \<longleftrightarrow> conn_inv free waiting out (snd r) \<and> settings_inv (snd r) \<and> evolves c (snd r) \<and> fst r \<noteq> Inl Panicked"

context semaphore
begin

lemma frame_safe_local:
  assumes "conn_inv free waiting out c" "settings_inv c" "conn_inv free waiting out (snd r)" "local_step c (snd r)" "fst r \<noteq> Inl Panicked"
  shows "frame_safe free waiting out c r"
  using assms settings_inv_step [OF assms(2) conn_inv_used_ids [OF assms(1)] assms(4)]
  by (auto simp: frame_safe_def local_step_def)

lemma frame_safe_accept_frame:
  assumes inv: "conn_inv free waiting out c" and s: "settings_inv c" and wf: "wf_frame f" and n: "data_len f < 2 ^ 32"
  shows "frame_safe free waiting out c (accept_frame S f c)"
proof -
  have here: "local_step c c" by (rule local_step_refl [OF conn_inv_used_ids [OF inv]])
  have same: "frame_safe free waiting out c (Inl (Fail e), c)" "frame_safe free waiting out c (Inr x, c)" for e and x :: 'b
    using inv s by (simp_all add: frame_safe_def)
  have lift: "frame_safe free waiting out c (and_then g (\<lambda>_. ok b) c)" if "frame_safe free waiting out c (g c)" for g :: "('s connection, fault, unit) action" and b
    using that by (auto simp: frame_safe_def and_then_ok)
  have "frame_safe free waiting out c (handle_frame S f c)" if "is_settings f \<or> peer_settings (writer c)"
    using that
  proof (cases f)
    case (Stream v fin payload)
    show ?thesis unfolding Stream handle_frame.simps
      by (rule lift, rule frame_safe_local [OF inv s])
        (use n Stream conn_inv_on_remote_stream_frame [OF inv] local_step_on_remote_stream_frame [OF here] in simp_all)
  next
    case (ResetStream v e)
    have "fst (on_remote_reset S (into_inner v) (error_code_into_inner e) c) \<noteq> Inl Panicked"
      by (simp add: on_remote_reset_def split: option.split sum.split)
    then show ?thesis unfolding ResetStream handle_frame.simps
      by (intro lift frame_safe_local [OF inv s] conn_inv_on_remote_reset [OF inv] local_step_on_remote_stream_frame [OF here])
  next
    case (OpenStream v)
    have "into_inner v \<le> varint_MAX" using wf OpenStream by (simp add: wf_varint_def)
    moreover have "fst (on_remote_open S (into_inner v) c) \<noteq> Inl Panicked"
      by (simp add: on_remote_open_def Let_def split: prod.split sem_result.split)
    ultimately show ?thesis unfolding OpenStream handle_frame.simps
      by (intro lift frame_safe_local [OF inv s] conn_inv_on_remote_open [OF inv] local_step_on_remote_open [OF inv])
  next
    case (Settings a b m)
    then show ?thesis using conn_inv_on_settings [OF inv s, of a b m]
      by (auto simp: frame_safe_def and_then_ok on_settings_def)
  next
    case (MaxData m)
    then show ?thesis using conn_inv_on_max_data [OF inv, of m] that by (simp add: frame_safe_def)
  next
    case (MaxStreamData v m)
    have p: "peer_settings (writer c)" using that MaxStreamData by simp
    have "frame_safe free waiting out c (on_max_stream_data (into_inner v) m c)"
    proof (cases "into_inner v \<in> streams c")
      case True
      then obtain st where "objects c (into_inner v) = Some st"
        using inv by (auto simp: conn_inv_def streams_inv_def ids_inv_def)
      from conn_inv_peer_limit [OF inv this p refl] True show ?thesis
        by (simp add: frame_safe_def on_max_stream_data_def)
    qed (use inv s in \<open>simp add: frame_safe_def on_max_stream_data_def\<close>)
    then show ?thesis unfolding MaxStreamData handle_frame.simps by (rule lift)
  next
    case (StopSending v)
    have "frame_safe free waiting out c (on_stop_sending S (into_inner v) c)"
    proof (cases "into_inner v \<in> streams c")
      case True
      then have "objects c (into_inner v) \<noteq> None"
        using inv by (auto simp: conn_inv_def streams_inv_def ids_inv_def)
      then have "fst (reset_stream S (into_inner v) 0 c) \<noteq> Inl Panicked"
        by (auto simp: reset_stream_def Let_def split: sum.splits if_splits)
      then show ?thesis using True frame_safe_local [OF inv s conn_inv_reset_stream [OF inv] local_step_control(3) [OF here]]
        by (simp add: on_stop_sending_def)
    qed (use inv s in \<open>simp add: frame_safe_def on_stop_sending_def\<close>)
    then show ?thesis unfolding StopSending handle_frame.simps by (rule lift)
  next
    case Ping
    then show ?thesis using inv s by (simp add: frame_safe_def ok_def)
  next
    case (ConnectionClose e r)
    show ?thesis unfolding ConnectionClose handle_frame.simps
      by (rule frame_safe_local [OF inv s]) (simp_all add: conn_inv_mark_closed [OF inv] local_step_closing(1) [OF here])
  qed
  then show ?thesis using inv s by (auto simp: accept_frame_def frame_safe_def)
qed

end

section \<open>Errors as close reasons\<close>

text \<open>The messages of the errors are ASCII, so they are valid reasons of a close frame.\<close>

definition ascii :: "string \<Rightarrow> bool" where
  "ascii s = list_all (\<lambda>ch. of_char ch < (0x80 :: nat)) s"

lemma ascii_simps [simp]:
  "ascii (s @ t) = (ascii s \<and> ascii t)"
  "ascii (ch # s) = (of_char ch < (0x80 :: nat) \<and> ascii s)"
  "ascii []"
  by (simp_all add: ascii_def)

lemma ascii_show_nat [simp]: "ascii (show_nat n)"
proof (induction n rule: show_nat.induct)
  case (1 n)
  have "n mod 10 < 10" by simp
  then have "48 + n mod 10 < 0x80" by linarith
  then show ?case
    using 1 by (subst show_nat.simps) (simp add: take_bit_nat_eq_self)
qed

lemma ascii_show_u64 [simp]: "ascii (show_u64 w)"
  by (simp add: show_u64_def)

lemma utf8_valid_str_bytes:
  assumes "ascii s"
  shows "utf8_valid (str_bytes s)"
proof (rule utf8_valid_ascii)
  have "(of_char ch :: byte) < 0x80" if "of_char ch < (0x80 :: nat)" for ch
  proof -
    have "(of_char ch :: byte) = of_nat (of_char ch)" by (rule of_nat_of_char [symmetric])
    then have "unat (of_char ch :: byte) = of_char ch" using that by (simp only: unat_of_nat) (simp add: take_bit_nat_eq_self)
    then show ?thesis using that by (simp add: word_less_nat_alt)
  qed
  then show "list_all (\<lambda>b. b < 0x80) (str_bytes s)"
    using assms by (auto simp: ascii_def str_bytes_def list_all_iff)
qed

lemma ascii_hex [simp]: "ascii (show_hex b)"
proof -
  have d: "of_char (hex_digit n) < (0x80 :: nat)" if "n < 16" for n
    using that by (simp add: hex_digit_def take_bit_nat_eq_self)
  have "unat b div 16 < 16" using unsigned_less [of b] by (simp add: div_less_iff_less_mult)
  then show ?thesis using d [of "unat b"] d [of "unat b div 16"] d [of "unat b mod 16"] by (simp add: show_hex_def)
qed

lemma ascii_proto_error [simp]: "ascii (varint_error_display e)" "ascii (proto_error_display p)"
proof -
  show v: "ascii (varint_error_display e)" for e by (cases e) simp_all
  show "ascii (proto_error_display p)" by (cases p) (simp_all add: v)
qed

text \<open>An action whose errors have ASCII messages.\<close>

definition ascii_errors :: "('s, fault, 'a) action \<Rightarrow> bool" where
  "ascii_errors a \<longleftrightarrow> (\<forall>c e. fst (a c) = Inl (Fail e) \<longrightarrow> ascii (error_display e))"

lemma ascii_errors_and_then: "ascii_errors a \<Longrightarrow> (\<And>x. ascii_errors (f x)) \<Longrightarrow> ascii_errors (and_then a f)"
  by (auto simp: ascii_errors_def and_then_def case_prod_beta split: sum.splits)

lemma ascii_errors_ok [simp]: "ascii_errors (ok x)"
  by (simp add: ascii_errors_def ok_def)

lemma rw_receive_error: "fst (rw_receive n w) = Inl e \<Longrightarrow> e = Protocol ''peer exceeded advertised receive credit''"
  by (auto simp: rw_receive_def split: option.splits if_splits)

lemma ascii_receive_both: "ascii_errors (receive_both sid n)"
  by (auto simp: ascii_errors_def receive_both_def Let_def case_prod_beta split: sum.splits option.splits dest!: rw_receive_error)

lemma ascii_push_inbound: "ascii_errors (push_inbound S sid p)"
proof -
  have ai: "ascii_errors (acquire_inbound S sid n)" for n
    by (auto simp: ascii_errors_def acquire_inbound_def Let_def case_prod_beta split: sem_result.splits option.splits if_splits)
  have si: "ascii_errors (store_inbound S sid p cp sp)" for cp sp
    by (auto simp: ascii_errors_def store_inbound_def Let_def split: option.splits if_splits)
  have "ascii_errors (and_then (acquire_inbound S sid (length p)) (\<lambda>(cp, sp). store_inbound S sid p cp sp))"
    by (rule ascii_errors_and_then [OF ai]) (simp add: si case_prod_beta)
  then show ?thesis by (auto simp: ascii_errors_def push_inbound_def split: option.splits if_splits)
qed

lemma ascii_on_remote_stream_frame: "ascii_errors (on_remote_stream_frame S sid p fin)"
proof -
  define g where "g = and_then (receive_both sid (length p)) (\<lambda>_. and_then (if p \<noteq> [] then push_inbound S sid p else ok ()) (\<lambda>_ c.
                 (Inr (), if fin then try_retire_stream S sid (mark_recv_terminal sid c) else c)))"
  have "ascii_errors g"
    unfolding g_def by (intro ascii_errors_and_then ascii_receive_both) (simp_all add: ascii_push_inbound, simp add: ascii_errors_def)
  then have f: "fst (g c) = Inl (Fail e) \<Longrightarrow> ascii (error_display e)" for c e unfolding ascii_errors_def by blast
  show ?thesis
    unfolding ascii_errors_def on_remote_stream_frame_def g_def [symmetric]
    by (auto simp: ensure_peer_send_open_def split: option.splits if_splits dest: f)
qed

lemma ascii_on_remote:
  "ascii_errors (on_remote_reset S sid code)" "ascii_errors (on_remote_open S sid)" "ascii_errors (reset_stream S sid code)"
  "ascii_errors (on_settings a b d)" "ascii_errors (on_max_stream_data sid m)" "ascii_errors (on_stop_sending S sid)"
proof -
  show "ascii_errors (on_remote_reset S sid code)"
    by (auto simp: ascii_errors_def on_remote_reset_def ensure_peer_send_open_def split: option.splits if_splits)
  show "ascii_errors (on_remote_open S sid)"
    by (auto simp: ascii_errors_def on_remote_open_def Let_def case_prod_beta split: sem_result.splits if_splits)
  have rs: "ascii_errors (reset_stream S sid code)" for code
    by (auto simp: ascii_errors_def reset_stream_def Let_def ensure_open_def split: option.splits sum.splits if_splits)
  then show "ascii_errors (reset_stream S sid code)" .
  show "ascii_errors (on_settings a b d)" "ascii_errors (on_max_stream_data sid m)"
    by (auto simp: ascii_errors_def on_settings_def on_max_stream_data_def split: if_splits)
  show "ascii_errors (on_stop_sending S sid)"
    using rs [of 0] by (auto simp: ascii_errors_def on_stop_sending_def split: if_splits)
qed

lemmas ascii_errors_ops = ascii_receive_both ascii_push_inbound ascii_on_remote_stream_frame ascii_on_remote

lemma ascii_errors_accept_frame: "ascii_errors (accept_frame S f)"
proof -
  have "ascii_errors (handle_frame S f)"
    by (cases f) (simp_all add: ascii_errors_and_then ascii_errors_ops, simp_all add: ascii_errors_def)
  then show ?thesis by (auto simp: ascii_errors_def accept_frame_def split: if_splits)
qed

context semaphore
begin

lemma reader_frame_safe:
  assumes b: "buf B unread" and inv: "conn_inv free waiting out c" and s: "settings_inv c" and len: "length (unread bytes) < 2 ^ 32"
  shows "\<exists>b. fst (reader_frame B S bytes n c) = Done b" "conn_inv free waiting out (snd (reader_frame B S bytes n c))"
    "settings_inv (snd (reader_frame B S bytes n c))" "evolves c (snd (reader_frame B S bytes n c))"
proof -
  let ?c = "record_received n c"
  have here: "local_step c c" by (rule local_step_refl [OF conn_inv_used_ids [OF inv]])
  have i: "conn_inv free waiting out ?c" "settings_inv ?c" "evolves c ?c"
    using inv s by (simp_all add: record_received_def settings_inv_def evolves_def)
  obtain r c1 where r: "handle_incoming_frame B S bytes ?c = (r, c1)" by fastforce
  have safe: "frame_safe free waiting out ?c (r, c1) \<and> (\<forall>e. r = Inl (Fail e) \<longrightarrow> ascii (error_display e))"
  proof (cases "frame_decode B bytes" rule: action_cases)
    case (failed e b')
    then show ?thesis using r i by (auto simp: handle_incoming_frame_def frame_safe_def)
  next
    case (returned f b')
    have wf: "wf_frame f" "length (frame_bytes f) < 2 ^ 32" using buf.frame_decode_consumes [OF b returned] len by auto
    have "data_len f \<le> length (frame_bytes f)" by (cases f) (simp_all add: sized_bytes_def)
    then have "frame_safe free waiting out ?c (accept_frame S f ?c)"
      using wf by (intro frame_safe_accept_frame [OF i(1,2)]) simp_all
    then show ?thesis
      using r returned ascii_errors_accept_frame [of S f, unfolded ascii_errors_def, rule_format, of ?c]
      by (auto simp: handle_incoming_frame_def)
  qed
  then have c1: "conn_inv free waiting out c1" "settings_inv c1" "evolves c c1" "r \<noteq> Inl Panicked"
    using evolves_trans [OF i(3)] by (auto simp: frame_safe_def)
  have step: "conn_inv free waiting out d \<and> settings_inv d \<and> evolves c d" if "conn_inv free waiting out d" "local_step c1 d" for d
    using that c1 settings_inv_step [OF c1(2) conn_inv_used_ids [OF c1(1)] that(2)] evolves_trans [OF c1(3)] by (auto simp: local_step_def)
  have l1: "local_step c1 c1" by (rule local_step_refl [OF conn_inv_used_ids [OF c1(1)]])
  have mc: "conn_inv free waiting out (mark_closed S c1)" "local_step c1 (mark_closed S c1)"
    by (simp_all add: conn_inv_mark_closed c1 local_step_closing l1)
  have ic: "conn_inv free waiting out (mark_closed S (snd (initiate_close S 1 m c1)))"
      "local_step c1 (mark_closed S (snd (initiate_close S 1 m c1)))" if "utf8_valid m" for m
    using that by (auto simp: varint_MAX_def intro!: conn_inv_mark_closed conn_inv_initiate_close c1 local_step_closing l1)
  have "(\<exists>b. fst (reader_frame B S bytes n c) = Done b) \<and> conn_inv free waiting out (snd (reader_frame B S bytes n c))
    \<and> settings_inv (snd (reader_frame B S bytes n c)) \<and> evolves c (snd (reader_frame B S bytes n c))"
  proof (cases r)
    case (Inr b)
    then show ?thesis using r c1 step [OF mc] by (cases b) (auto simp: reader_frame_def)
  next
    case (Inl f)
    then obtain e where e: "f = Fail e" "ascii (error_display e)" using c1(4) safe by (cases f) auto
    then have "utf8_valid (str_bytes (''protocol/runtime error: '' @ error_display e))" by (intro utf8_valid_str_bytes) simp
    then show ?thesis using r Inl e step [OF ic] by (auto simp: reader_frame_def)
  qed
  then show "\<exists>b. fst (reader_frame B S bytes n c) = Done b" "conn_inv free waiting out (snd (reader_frame B S bytes n c))"
    "settings_inv (snd (reader_frame B S bytes n c))" "evolves c (snd (reader_frame B S bytes n c))" by blast+
qed

end

end
