(* ===== verification/Stream_Api.thy ===== *)
theory Stream_Api
  imports Incoming
begin

text \<open>
  \<^verbatim>\<open>muxtls/src/stream.rs\<close>: the two halves of a stream that the application holds, their chunk operations, and
  \<open>AsyncWrite\<close>/\<open>AsyncRead\<close> on top of them. A boxed future is the stage at which it resumes.
\<close>

section \<open>Model\<close>

text \<open>\<open>io::Error\<close> with its kind, and the panics of the operations below.\<close>

datatype io_error = BrokenPipe string | InvalidInput string | OtherIo string

datatype io_fault = IoFail io_error | IoPanicked

definition to_io_error :: "error \<Rightarrow> io_error" where
  "to_io_error e = OtherIo (error_display e)"

fun to_io_fault :: "fault \<Rightarrow> io_fault" where
  "to_io_fault (Fail e) = IoFail (to_io_error e)"
| "to_io_fault Panicked = IoPanicked"

text \<open>\<open>compare_exchange(0, requested)\<close> on the mode of a direction.\<close>

definition select_mode :: "usize \<Rightarrow> usize \<Rightarrow> (error + unit) \<times> usize" where
  "select_mode mode requested =
     (if mode = 0 then (Inr (), requested)
      else if mode = requested then (Inr (), mode)
      else (Inl (Protocol ''cannot mix chunk and AsyncRead/AsyncWrite APIs on a stream direction''), mode))"

definition select_send_mode :: "u64 \<Rightarrow> usize \<Rightarrow> ('s connection, fault, unit) action" where
  "select_send_mode sid requested c =
     (case objects c sid of
        None \<Rightarrow> (Inl Panicked, c)
      | Some st \<Rightarrow>
          (case select_mode (send_mode st) requested of
             (Inl e, _) \<Rightarrow> (Inl (Fail e), c)
           | (Inr _, mode) \<Rightarrow> (Inr (), on_stream sid (\<lambda>st. st\<lparr>send_mode := mode\<rparr>) c)))"

definition select_recv_mode :: "u64 \<Rightarrow> usize \<Rightarrow> ('s connection, fault, unit) action" where
  "select_recv_mode sid requested c =
     (case objects c sid of
        None \<Rightarrow> (Inl Panicked, c)
      | Some st \<Rightarrow>
          (case select_mode (recv_mode st) requested of
             (Inl e, _) \<Rightarrow> (Inl (Fail e), c)
           | (Inr _, mode) \<Rightarrow> (Inr (), on_stream sid (\<lambda>st. st\<lparr>recv_mode := mode\<rparr>) c)))"

record send_stream =
  ss_id :: u64
  write_fut :: "(bytes \<times> queue_stage) option"
  shutdown_fut :: "queue_stage option"
  shutdown_complete :: bool

record recv_stream =
  rs_id :: u64
  read_fut :: bool
  read_buf :: "inbound_chunk option"
  read_pos :: usize
  eof :: bool

definition send_stream_new :: "u64 \<Rightarrow> send_stream" where
  "send_stream_new sid = \<lparr> ss_id = sid, write_fut = None, shutdown_fut = None, shutdown_complete = False \<rparr>"

definition recv_stream_new :: "u64 \<Rightarrow> recv_stream" where
  "recv_stream_new sid = \<lparr> rs_id = sid, read_fut = False, read_buf = None, read_pos = 0, eof = False \<rparr>"

subsection \<open>Chunk operations\<close>

text \<open>\<open>write_chunk\<close> and \<open>finish\<close>: the mode is selected at the first poll.\<close>

datatype call_stage = CallStart | CallSend queue_stage

definition continue_call :: "((fault + unit) + queue_stage) \<times> 's connection \<Rightarrow> ((fault + unit) + call_stage) \<times> 's connection" where
  "continue_call r = (map_sum id CallSend (fst r), snd r)"

fun poll_call ::
  "'s sem_ops \<Rightarrow> u64 \<Rightarrow> bytes \<Rightarrow> bool \<Rightarrow> call_stage \<Rightarrow> 's connection \<Rightarrow> ((fault + unit) + call_stage) \<times> 's connection" where
  "poll_call S sid payload fin CallStart c =
     (case select_send_mode sid 1 c of
        (Inl e, c) \<Rightarrow> (Inl (Inl e), c)
      | (Inr _, c) \<Rightarrow> continue_call (poll_send S sid payload fin QStart c))"
| "poll_call S sid payload fin (CallSend stage) c = continue_call (poll_send S sid payload fin stage c)"

definition write_chunk :: "'s sem_ops \<Rightarrow> send_stream \<Rightarrow> bytes \<Rightarrow> call_stage \<Rightarrow> 's connection \<Rightarrow> ((fault + unit) + call_stage) \<times> 's connection" where
  "write_chunk S h chunk stage c = poll_call S (ss_id h) chunk False stage c"

definition finish :: "'s sem_ops \<Rightarrow> send_stream \<Rightarrow> call_stage \<Rightarrow> 's connection \<Rightarrow> ((fault + unit) + call_stage) \<times> 's connection" where
  "finish S h stage c = poll_call S (ss_id h) [] True stage c"

fun drop_call :: "'s sem_ops \<Rightarrow> u64 \<Rightarrow> bytes \<Rightarrow> call_stage \<Rightarrow> 's connection \<Rightarrow> 's connection" where
  "drop_call S sid payload CallStart c = c"
| "drop_call S sid payload (CallSend stage) c = drop_queue S sid payload stage c"

definition reset_send :: "'s sem_ops \<Rightarrow> send_stream \<Rightarrow> u64 \<Rightarrow> ('s connection, fault, unit) action" where
  "reset_send S h error_code c = reset_stream S (ss_id h) error_code c"

text \<open>One poll of \<open>RecvStream::read_chunk\<close>.\<close>

definition recv_read_chunk ::
  "'s sem_ops \<Rightarrow> recv_stream \<Rightarrow> 's connection \<Rightarrow> (fault + bytes option) poll \<times> 's connection" where
  "recv_read_chunk S h c =
     (case select_recv_mode (rs_id h) 1 c of
        (Inl e, c) \<Rightarrow> (Ready (Inl e), c)
      | (Inr _, c) \<Rightarrow>
          (case read_chunk (rs_id h) c of
             (Pending, c) \<Rightarrow> (Pending, c)
           | (Ready (Inl e), c) \<Rightarrow> (Ready (Inl e), c)
           | (Ready (Inr None), c) \<Rightarrow> (Ready (Inr None), c)
           | (Ready (Inr (Some ch)), c) \<Rightarrow>
               (let (bs, c) = chunk_into_bytes S (rs_id h) ch c in (Ready (Inr (Some bs)), c))))"

subsection \<open>\<open>AsyncWrite\<close>\<close>

text \<open>Polling the stored write future.\<close>

definition poll_pending_write ::
  "'s sem_ops \<Rightarrow> send_stream \<Rightarrow> 's connection \<Rightarrow> (io_fault + unit) poll \<times> send_stream \<times> 's connection" where
  "poll_pending_write S h c =
     (case write_fut h of
        None \<Rightarrow> (Ready (Inr ()), h, c)
      | Some (payload, stage) \<Rightarrow>
          (case poll_send S (ss_id h) payload False stage c of
             (Inl (Inr _), c) \<Rightarrow> (Ready (Inr ()), h\<lparr>write_fut := None\<rparr>, c)
           | (Inl (Inl e), c) \<Rightarrow> (Ready (Inl (to_io_fault e)), h\<lparr>write_fut := None\<rparr>, c)
           | (Inr stage, c) \<Rightarrow> (Pending, h\<lparr>write_fut := Some (payload, stage)\<rparr>, c)))"

definition poll_flush ::
  "'s sem_ops \<Rightarrow> send_stream \<Rightarrow> 's connection \<Rightarrow> (io_fault + unit) poll \<times> send_stream \<times> 's connection" where
  "poll_flush S h c =
     (case select_send_mode (ss_id h) 2 c of
        (Inl e, c) \<Rightarrow> (Ready (Inl (to_io_fault e)), h, c)
      | (Inr _, c) \<Rightarrow> poll_pending_write S h c)"

definition poll_write ::
  "'s sem_ops \<Rightarrow> send_stream \<Rightarrow> bytes \<Rightarrow> 's connection \<Rightarrow> (io_fault + usize) poll \<times> send_stream \<times> 's connection" where
  "poll_write S h src c =
     (case select_send_mode (ss_id h) 2 c of
        (Inl e, c) \<Rightarrow> (Ready (Inl (to_io_fault e)), h, c)
      | (Inr _, c) \<Rightarrow>
          if src = [] then (Ready (Inr 0), h, c)
          else if closed c \<or> (case objects c (ss_id h) of None \<Rightarrow> False | Some st \<Rightarrow> send_terminal st)
            \<or> shutdown_fut h \<noteq> None \<or> shutdown_complete h
          then (Ready (Inl (IoFail (BrokenPipe ''stream already shut down''))), h, c)
          else case poll_flush S h c of
            (Pending, h, c) \<Rightarrow> (Pending, h, c)
          | (Ready (Inl e), h, c) \<Rightarrow> (Ready (Inl e), h, c)
          | (Ready (Inr _), h, c) \<Rightarrow>
              (let max_payload = max_stream_payload (limits c) (ss_id h) in
               if max_payload = 0
               then (Ready (Inl (IoFail (InvalidInput ''max frame size cannot encode stream data''))), h, c)
               else let chunk = take (min (length src) max_payload) src
                 in (Ready (Inr (length chunk)), h\<lparr>write_fut := Some (chunk, QStart)\<rparr>, c)))"

definition poll_shutdown ::
  "'s sem_ops \<Rightarrow> send_stream \<Rightarrow> 's connection \<Rightarrow> (io_fault + unit) poll \<times> send_stream \<times> 's connection" where
  "poll_shutdown S h c =
     (case select_send_mode (ss_id h) 2 c of
        (Inl e, c) \<Rightarrow> (Ready (Inl (to_io_fault e)), h, c)
      | (Inr _, c) \<Rightarrow>
          if shutdown_complete h then (Ready (Inr ()), h, c)
          else case poll_pending_write S h c of
            (Pending, h, c) \<Rightarrow> (Pending, h, c)
          | (Ready (Inl e), h, c) \<Rightarrow> (Ready (Inl e), h, c)
          | (Ready (Inr _), h, c) \<Rightarrow>
              (let stage = (case shutdown_fut h of None \<Rightarrow> QStart | Some stage \<Rightarrow> stage) in
               case poll_send S (ss_id h) [] True stage c of
                 (Inl (Inr _), c) \<Rightarrow> (Ready (Inr ()), h\<lparr>shutdown_fut := None, shutdown_complete := True\<rparr>, c)
               | (Inl (Inl e), c) \<Rightarrow> (Ready (Inl (to_io_fault e)), h\<lparr>shutdown_fut := None\<rparr>, c)
               | (Inr stage, c) \<Rightarrow> (Pending, h\<lparr>shutdown_fut := Some stage\<rparr>, c)))"

text \<open>\<open>Drop for SendStream\<close>, then the drop of its futures.\<close>

definition drop_send_stream :: "'s sem_ops \<Rightarrow> send_stream \<Rightarrow> 's connection \<Rightarrow> 's connection" where
  "drop_send_stream S h c =
     (let c = release_send (ss_id h) c;
          c = (case write_fut h of None \<Rightarrow> c | Some (payload, stage) \<Rightarrow> drop_queue S (ss_id h) payload stage c)
      in case shutdown_fut h of None \<Rightarrow> c | Some stage \<Rightarrow> drop_queue S (ss_id h) [] stage c)"

subsection \<open>\<open>AsyncRead\<close>\<close>

text \<open>Copying from the chunk at hand into a buffer with room for \<open>room\<close> bytes, the room not being zero.\<close>

definition read_from ::
  "'s sem_ops \<Rightarrow> u64 \<Rightarrow> inbound_chunk \<Rightarrow> usize \<Rightarrow> 's connection \<Rightarrow> (bytes \<times> inbound_chunk option) run \<times> 's connection" where
  "read_from S sid ch room c =
     (let count = min (length (rb_deref (data ch))) room;
          bs = take count (rb_deref (data ch)) in
      case rb_advance count (data ch) of
        Panic \<Rightarrow> (Panic, c)
      | Done rest \<Rightarrow>
          (let (ch, c) = chunk_consume S sid count (ch\<lparr>data := rest\<rparr>) c in
           if rb_deref (data ch) = [] then (Done (bs, None), drop_chunk S sid ch c) else (Done (bs, Some ch), c)))"

text \<open>The loop of \<open>poll_read\<close>. It ends because every turn but the last drops a chunk or takes one from the queue.\<close>

definition queued_chunks :: "u64 \<Rightarrow> 's connection \<Rightarrow> nat" where
  "queued_chunks sid c = (case objects c sid of None \<Rightarrow> 0 | Some st \<Rightarrow> length (chunks (inbound st)))"

lemma queued_chunks_credit: "credit_frame c c' \<Longrightarrow> queued_chunks sid c' = queued_chunks sid c"
  by (auto simp: credit_frame_def queued_chunks_def split: option.splits)

lemma queued_chunks_read: "read_chunk sid c = (Ready (Inr (Some ch)), c') \<Longrightarrow> queued_chunks sid c = Suc (queued_chunks sid c')"
  by (auto simp: read_chunk_def queued_chunks_def on_inbound_def split: option.splits list.splits if_splits)

function read_loop ::
  "'s sem_ops \<Rightarrow> usize \<Rightarrow> recv_stream \<Rightarrow> 's connection \<Rightarrow> (io_fault + bytes) poll \<times> recv_stream \<times> 's connection" where
  "read_loop S room h c =
     (case read_buf h of
        Some ch \<Rightarrow>
          if min (length (rb_deref (data ch))) room = 0
          then read_loop S room (h\<lparr>read_buf := None\<rparr>) (drop_chunk S (rs_id h) ch c)
          else (case read_from S (rs_id h) ch room c of
                  (Done (bs, rest), c) \<Rightarrow> (Ready (Inr bs), h\<lparr>read_buf := rest\<rparr>, c)
                | (Panic, c) \<Rightarrow> (Ready (Inl IoPanicked), h, c))
      | None \<Rightarrow>
          if eof h then (Ready (Inr []), h, c)
          else case read_chunk (rs_id h) c of
            (Ready (Inr (Some ch)), c') \<Rightarrow> read_loop S room (h\<lparr>read_fut := False, read_buf := Some ch, read_pos := 0\<rparr>) c'
          | (Ready (Inr None), c') \<Rightarrow> (Ready (Inr []), h\<lparr>read_fut := False, eof := True\<rparr>, c')
          | (Ready (Inl e), c') \<Rightarrow> (Ready (Inl (to_io_fault e)), h\<lparr>read_fut := False\<rparr>, c')
          | (Pending, c') \<Rightarrow> (Pending, h\<lparr>read_fut := True\<rparr>, c'))"
  by pat_completeness auto
termination
  by (relation "measure (\<lambda>(S, room, h, c). 2 * queued_chunks (rs_id h) c + (if read_buf h = None then 0 else 1))")
    (auto simp: queued_chunks_credit [OF credit_frame_drop] dest: queued_chunks_read [OF sym])

declare read_loop.simps [simp del]

definition poll_read ::
  "'s sem_ops \<Rightarrow> usize \<Rightarrow> recv_stream \<Rightarrow> 's connection \<Rightarrow> (io_fault + bytes) poll \<times> recv_stream \<times> 's connection" where
  "poll_read S room h c =
     (case select_recv_mode (rs_id h) 2 c of
        (Inl e, c) \<Rightarrow> (Ready (Inl (to_io_fault e)), h, c)
      | (Inr _, c) \<Rightarrow> if room = 0 then (Ready (Inr []), h, c) else read_loop S room h c)"

text \<open>\<open>Drop for RecvStream\<close>, then the drop of the remainder.\<close>

definition drop_recv_stream :: "'s sem_ops \<Rightarrow> recv_stream \<Rightarrow> 's connection \<Rightarrow> 's connection" where
  "drop_recv_stream S h c =
     (let c = release_recv (rs_id h) c
      in case read_buf h of None \<Rightarrow> c | Some ch \<Rightarrow> drop_chunk S (rs_id h) ch c)"

end
