(* ===== verification/Api_Inv.thy ===== *)
theory Api_Inv
  imports Stream_Api
begin

text \<open>The operations of the application's handles keep the invariant of the connection and of the handles.\<close>

section \<open>Handles\<close>

text \<open>The bytes of stream \<open>sid\<close> in the remainder that a reader holds.\<close>

definition hold :: "recv_stream \<Rightarrow> u64 \<Rightarrow> nat" where
  "hold h sid = (if rs_id h = sid then (case read_buf h of None \<Rightarrow> 0 | Some ch \<Rightarrow> length (rb_deref (data ch))) else 0)"

lemma hold_none [simp]: "read_buf h = None \<Longrightarrow> hold h sid = 0"
  by (simp add: hold_def)

definition send_ok :: "'s connection \<Rightarrow> send_stream \<Rightarrow> bool" where
  "send_ok c h \<longleftrightarrow> ss_id h \<in> dom (objects c)
     \<and> (\<forall>p g. write_fut h = Some (p, g) \<longrightarrow> pending_ok (limits c) (ss_id h) p False g)
     \<and> (\<forall>g. shutdown_fut h = Some g \<longrightarrow> pending_ok (limits c) (ss_id h) [] True g)"

definition recv_ok :: "'s connection \<Rightarrow> recv_stream \<Rightarrow> bool" where
  "recv_ok c h \<longleftrightarrow> rs_id h \<in> dom (objects c) \<and> (\<forall>ch. read_buf h = Some ch \<longrightarrow> chunk_ok ch)"

lemma send_ok_evolves: "send_ok c h \<Longrightarrow> evolves c c' \<Longrightarrow> send_ok c' h"
  using evolvesD(1,11) [of c c'] by (auto simp: send_ok_def subset_iff)

lemma recv_ok_evolves: "recv_ok c h \<Longrightarrow> evolves c c' \<Longrightarrow> recv_ok c' h"
  using evolvesD(11) [of c c'] by (auto simp: recv_ok_def subset_iff)

lemma conn_inv_frame_size: "conn_inv free waiting out c \<Longrightarrow> max_frame_size (limits c) < 2 ^ 32"
  using queues_invD(12) by (auto simp: conn_inv_def)

text \<open>The bytes that the reader of a stream has still to deliver: its remainder, then the queue.\<close>

definition undelivered :: "recv_stream \<Rightarrow> 's connection \<Rightarrow> bytes" where
  "undelivered h c = (case read_buf h of None \<Rightarrow> [] | Some ch \<Rightarrow> rb_deref (data ch))
     @ (case objects c (rs_id h) of None \<Rightarrow> [] | Some st \<Rightarrow> chunk_bytes (chunks (inbound st)))"

lemma undelivered_credit: "credit_frame c c' \<Longrightarrow> read_buf h' = read_buf h \<Longrightarrow> rs_id h' = rs_id h \<Longrightarrow> undelivered h' c' = undelivered h c"
  by (auto simp: credit_frame_def undelivered_def split: option.splits)

lemma undelivered_read_chunk:
  "read_chunk (rs_id h) c = (Ready (Inr (Some ch)), c') \<Longrightarrow> read_buf h = None
    \<Longrightarrow> undelivered (h\<lparr>read_fut := a, read_buf := Some ch, read_pos := b\<rparr>) c' = undelivered h c"
  "read_chunk (rs_id h) c = (Ready (Inr None), c') \<Longrightarrow> read_buf h = None \<Longrightarrow> undelivered h c = [] \<and> undelivered (h\<lparr>read_fut := a, eof := e\<rparr>) c' = []"
  by (auto simp: read_chunk_def undelivered_def on_inbound_def split: option.splits list.splits if_splits)

section \<open>Sending\<close>

lemma select_send_mode_step:
  "local_step c d \<Longrightarrow> local_step c (snd (select_send_mode sid m d))"
  "local_step c d \<Longrightarrow> local_step c (snd (select_recv_mode sid m d))"
  unfolding select_send_mode_def select_recv_mode_def
  by (auto simp: gentle_simps split: option.split prod.split sum.split intro!: local_step_on_stream)

lemma poll_send_pending:
  assumes "conn_inv free waiting out c" "pending_ok (limits c) sid p fin g" "poll_send S sid p fin g c = (Inr g', c')" "local_step c c'"
  shows "pending_ok (limits c') sid p fin g'"
proof -
  have "limits c' = limits c" using assms(4) evolvesD(1) [of c c'] by (simp add: local_step_def)
  then show ?thesis using pending_ok_poll_send [OF assms(2,3) conn_inv_frame_size [OF assms(1)]] by simp
qed

lemma poll_send_no_panic:
  assumes "objects c sid \<noteq> None"
  shows "fst (poll_send S sid p fin g c) \<noteq> Inl (Inl Panicked)"
proof -
  have 1: "fst (queue_finish S sid p fin c) \<noteq> Inl Panicked" for c
    by (auto simp: queue_finish_def Let_def case_prod_beta split: sum.splits)
  have 2: "fst (queue_conn_bytes S sid p fin c) \<noteq> Inl (Inl Panicked)" for c
    using 1 by (auto simp: queue_conn_bytes_def Let_def case_prod_beta split: sem_result.splits)
  have 3: "fst (queue_conn_frame S sid p fin c) \<noteq> Inl (Inl Panicked)" for c
    using 2 by (auto simp: queue_conn_frame_def case_prod_beta split: sem_result.splits)
  have 4: "fst (queue_stream_bytes S sid p fin c) \<noteq> Inl (Inl Panicked)" if "objects c sid \<noteq> None" for c
    using 3 that by (auto simp: queue_stream_bytes_def case_prod_beta split: sem_result.splits)
  have 5: "fst (queue_stream_frame S sid p fin c) \<noteq> Inl (Inl Panicked)" if "objects c sid \<noteq> None" for c
    using 4 that by (auto simp: queue_stream_frame_def case_prod_beta split: sem_result.splits)
  have 6: "fst (queue_lock S sid p fin c) \<noteq> Inl (Inl Panicked)" if "objects c sid \<noteq> None" for c
  proof -
    have "objects (set_send_locked sid True c) sid \<noteq> None" using that by (simp add: set_send_locked_def)
    then show ?thesis using 5 that by (auto simp: queue_lock_def split: sum.splits bool.splits if_splits)
  qed
  have "fst (poll_queue S sid p fin g c) \<noteq> Inl (Inl Panicked)"
    using 2 3 4 [OF assms] 5 [OF assms] 6 [OF assms] by (cases g) (auto split: sum.splits)
  then show ?thesis using assms by (auto simp: poll_send_def split: if_splits)
qed

text \<open>What a step on a sending half promises: a good state, a good handle, no panic.\<close>

definition send_step_ok ::
  "('s \<Rightarrow> nat) \<Rightarrow> ('s \<Rightarrow> bool) \<Rightarrow> (u64 \<Rightarrow> nat) \<Rightarrow> 's connection \<Rightarrow> send_stream
    \<Rightarrow> (io_fault + 'a) poll \<times> send_stream \<times> 's connection \<Rightarrow> bool" where
  "send_step_ok free waiting out c h r \<longleftrightarrow> conn_inv free waiting out (snd (snd r)) \<and> local_step c (snd (snd r))
     \<and> send_ok (snd (snd r)) (fst (snd r)) \<and> ss_id (fst (snd r)) = ss_id h \<and> fst r \<noteq> Ready (Inl IoPanicked)"

text \<open>What a step on a receiving half promises; \<open>rest\<close> are the bytes that the other readers hold.\<close>

definition recv_step_ok ::
  "('s \<Rightarrow> nat) \<Rightarrow> ('s \<Rightarrow> bool) \<Rightarrow> (u64 \<Rightarrow> nat) \<Rightarrow> 's connection \<Rightarrow> recv_stream
    \<Rightarrow> (io_fault + bytes) poll \<times> recv_stream \<times> 's connection \<Rightarrow> bool" where
  "recv_step_ok free waiting rest c h r \<longleftrightarrow> conn_inv free waiting (\<lambda>i. rest i + hold (fst (snd r)) i) (snd (snd r)) \<and> local_step c (snd (snd r))
     \<and> recv_ok (snd (snd r)) (fst (snd r)) \<and> rs_id (fst (snd r)) = rs_id h \<and> fst r \<noteq> Ready (Inl IoPanicked)"

lemma to_io_fault_panic: "to_io_fault e = IoPanicked \<longleftrightarrow> e = Panicked"
  by (cases e) auto

lemma select_mode_cases:
  assumes "objects c sid \<noteq> None"
  shows "fst (select_send_mode sid m c) \<noteq> Inl Panicked" "fst (select_recv_mode sid m c) \<noteq> Inl Panicked"
  using assms by (auto simp: select_send_mode_def select_recv_mode_def split: prod.splits sum.splits)

context semaphore
begin

lemma conn_inv_select_mode:
  assumes "conn_inv free waiting out c"
  shows "conn_inv free waiting out (snd (select_send_mode sid m c))" "conn_inv free waiting out (snd (select_recv_mode sid m c))"
  unfolding select_send_mode_def select_recv_mode_def using assms
  by (auto simp: harmless_def flags_ok_def split: option.split prod.split sum.split intro!: conn_inv_on_stream)

lemma poll_send_step:
  assumes inv: "conn_inv free waiting out d" and s: "local_step c d" and ok: "pending_ok (limits d) sid p fin g"
    and obj: "objects d sid \<noteq> None" and r: "poll_send S sid p fin g d = (r, d')"
  shows "conn_inv free waiting out d'" "local_step c d'" "r \<noteq> Inl (Inl Panicked)" "objects d' sid \<noteq> None"
    "limits d' = limits d" "r = Inr g' \<Longrightarrow> pending_ok (limits d') sid p fin g'"
proof -
  show "conn_inv free waiting out d'" using conn_inv_poll_send [OF inv ok] r by simp
  show "local_step c d'" using local_step_sends(1) [OF s, of S sid p fin g] r by simp
  show "r \<noteq> Inl (Inl Panicked)" using poll_send_no_panic [OF obj, of S p fin g] r by simp
  have l: "local_step d d'"
    using local_step_sends(1) [OF local_step_refl [OF conn_inv_used_ids [OF inv]], of S sid p fin g] r by simp
  then show "limits d' = limits d" "objects d' sid \<noteq> None"
    using evolvesD(1,11) [of d d'] obj by (auto simp: local_step_def)
  show "r = Inr g' \<Longrightarrow> pending_ok (limits d') sid p fin g'" using poll_send_pending [OF inv ok _ l] r by simp
qed

lemma poll_pending_write_ok:
  assumes inv: "conn_inv free waiting out d" and s: "local_step c d" and h: "send_ok d h"
  shows "send_step_ok free waiting out c h (poll_pending_write S h d)"
    "fst (poll_pending_write S h d) = Ready (Inr ()) \<Longrightarrow> write_fut (fst (snd (poll_pending_write S h d))) = None"
    "shutdown_fut (fst (snd (poll_pending_write S h d))) = shutdown_fut h"
proof -
  have "send_step_ok free waiting out c h (poll_pending_write S h d)
    \<and> (fst (poll_pending_write S h d) = Ready (Inr ()) \<longrightarrow> write_fut (fst (snd (poll_pending_write S h d))) = None)
    \<and> shutdown_fut (fst (snd (poll_pending_write S h d))) = shutdown_fut h"
  proof (cases "write_fut h")
    case None
    then show ?thesis using assms by (simp add: poll_pending_write_def send_step_ok_def)
  next
    case (Some pg)
    then obtain p g where pg: "write_fut h = Some (p, g)" by (cases pg) auto
    obtain r d' where r: "poll_send S (ss_id h) p False g d = (r, d')" by fastforce
    have obj: "objects d (ss_id h) \<noteq> None" "pending_ok (limits d) (ss_id h) p False g" using h pg by (auto simp: send_ok_def)
    note st = poll_send_step [OF inv s obj(2,1) r]
    have h': "send_ok d' (h\<lparr>write_fut := w\<rparr>)" if "\<forall>p g. w = Some (p, g) \<longrightarrow> pending_ok (limits d') (ss_id h) p False g" for w
      using h st(4,5) that by (auto simp: send_ok_def)
    show ?thesis
    proof (cases r)
      case (Inl x)
      then show ?thesis using pg r st h' [of None]
        by (cases x) (auto simp: poll_pending_write_def send_step_ok_def to_io_fault_panic)
    next
      case (Inr g')
      then show ?thesis using pg r st h' [of "Some (p, g')"]
        by (auto simp: poll_pending_write_def send_step_ok_def)
    qed
  qed
  then show "send_step_ok free waiting out c h (poll_pending_write S h d)"
    "fst (poll_pending_write S h d) = Ready (Inr ()) \<Longrightarrow> write_fut (fst (snd (poll_pending_write S h d))) = None"
    "shutdown_fut (fst (snd (poll_pending_write S h d))) = shutdown_fut h" by blast+
qed

lemma select_send_ok:
  assumes inv: "conn_inv free waiting out d" and s: "local_step c d" and h: "send_ok d h"
    and r: "select_send_mode (ss_id h) m d = (r, d')"
  shows "conn_inv free waiting out d'" "local_step c d'" "send_ok d' h" "r \<noteq> Inl Panicked"
proof -
  show "conn_inv free waiting out d'" using conn_inv_select_mode(1) [OF inv, of "ss_id h" m] r by simp
  show "local_step c d'" using select_send_mode_step(1) [OF s, of "ss_id h" m] r by simp
  have "local_step d d'" using select_send_mode_step(1) [OF local_step_refl [OF conn_inv_used_ids [OF inv]], of "ss_id h" m] r by simp
  then show "send_ok d' h" using send_ok_evolves [OF h] by (simp add: local_step_def)
  show "r \<noteq> Inl Panicked" using select_mode_cases(1) [of d "ss_id h" m] h r by (auto simp: send_ok_def)
qed

lemma poll_flush_ok:
  assumes inv: "conn_inv free waiting out d" and s: "local_step c d" and h: "send_ok d h"
  shows "send_step_ok free waiting out c h (poll_flush S h d)"
    "fst (poll_flush S h d) = Ready (Inr ()) \<Longrightarrow> write_fut (fst (snd (poll_flush S h d))) = None"
proof -
  obtain r d1 where r: "select_send_mode (ss_id h) 2 d = (r, d1)" by fastforce
  note m = select_send_ok [OF inv s h r]
  show "send_step_ok free waiting out c h (poll_flush S h d)"
    using m poll_pending_write_ok(1) [OF m(1-3)] r by (cases r) (auto simp: poll_flush_def send_step_ok_def to_io_fault_panic)
  show "fst (poll_flush S h d) = Ready (Inr ()) \<Longrightarrow> write_fut (fst (snd (poll_flush S h d))) = None"
    using poll_pending_write_ok(2) [OF m(1-3)] r by (cases r) (auto simp: poll_flush_def)
qed

lemma poll_write_ok:
  assumes inv: "conn_inv free waiting out d" and s: "local_step c d" and h: "send_ok d h"
  shows "send_step_ok free waiting out c h (poll_write S h src d)"
proof -
  obtain r d1 where r: "select_send_mode (ss_id h) 2 d = (r, d1)" by fastforce
  note m = select_send_ok [OF inv s h r]
  obtain x h' d2 where f: "poll_flush S h d1 = (x, h', d2)" by (metis surj_pair)
  have ok: "send_step_ok free waiting out c h (x, h', d2)" using poll_flush_ok(1) [OF m(1-3)] f by simp
  then have "send_ok d2 (h'\<lparr>write_fut := Some (p, QStart)\<rparr>)" for p
    by (auto simp: send_step_ok_def send_ok_def pending_ok_def)
  then show ?thesis
    using r m f ok
    by (cases r; auto simp: poll_write_def send_step_ok_def to_io_fault_panic Let_def split: poll.splits sum.splits option.splits)
qed

lemma poll_shutdown_ok:
  assumes inv: "conn_inv free waiting out d" and s: "local_step c d" and h: "send_ok d h"
  shows "send_step_ok free waiting out c h (poll_shutdown S h d)"
proof -
  obtain r d1 where r: "select_send_mode (ss_id h) 2 d = (r, d1)" by fastforce
  note m = select_send_ok [OF inv s h r]
  obtain x h' d2 where f: "poll_pending_write S h d1 = (x, h', d2)" by (metis surj_pair)
  have ok: "send_step_ok free waiting out c h (x, h', d2)" and sh: "shutdown_fut h' = shutdown_fut h"
    using poll_pending_write_ok(1,3) [OF m(1-3)] f by simp_all
  define g where "g = (case shutdown_fut h' of None \<Rightarrow> QStart | Some stage \<Rightarrow> stage)"
  obtain y d3 where y: "poll_send S (ss_id h') [] True g d2 = (y, d3)" by fastforce
  have i2: "conn_inv free waiting out d2" "local_step c d2" "send_ok d2 h'" using ok by (simp_all add: send_step_ok_def)
  have p: "pending_ok (limits d2) (ss_id h') [] True g" "objects d2 (ss_id h') \<noteq> None"
    using i2(3) by (auto simp: g_def send_ok_def pending_ok_def split: option.splits)
  note st = poll_send_step [OF i2(1,2) p y]
  have h': "send_ok d3 (h'\<lparr>shutdown_fut := w, shutdown_complete := b\<rparr>)" "send_ok d3 (h'\<lparr>shutdown_fut := w\<rparr>)"
    if "\<forall>g. w = Some g \<longrightarrow> pending_ok (limits d3) (ss_id h') [] True g" for w b
    using i2(3) st(4,5) that by (auto simp: send_ok_def)
  have "send_step_ok free waiting out c h
    (case (y, d3) of (Inl (Inr _), c) \<Rightarrow> (Ready (Inr ()), h'\<lparr>shutdown_fut := None, shutdown_complete := True\<rparr>, c)
     | (Inl (Inl e), c) \<Rightarrow> (Ready (Inl (to_io_fault e)), h'\<lparr>shutdown_fut := None\<rparr>, c)
     | (Inr stage, c) \<Rightarrow> (Pending, h'\<lparr>shutdown_fut := Some stage\<rparr>, c))"
    using st h' ok by (auto simp: send_step_ok_def to_io_fault_panic split: sum.split)
  then show ?thesis
    using r m f ok y unfolding g_def
    by (cases r; auto simp: poll_shutdown_def send_step_ok_def to_io_fault_panic Let_def split: poll.splits sum.splits)
qed

lemma drop_send_stream_ok:
  assumes inv: "conn_inv free waiting out c"
  shows "conn_inv free waiting out (drop_send_stream S h c)" "local_step c (drop_send_stream S h c)"
proof -
  have here: "local_step c c" by (rule local_step_refl [OF conn_inv_used_ids [OF inv]])
  show "conn_inv free waiting out (drop_send_stream S h c)"
    using inv by (auto simp: drop_send_stream_def Let_def split: option.split intro!: conn_inv_drop_queue conn_inv_release_send)
  show "local_step c (drop_send_stream S h c)"
    using here by (auto simp: drop_send_stream_def Let_def split: option.split intro!: local_step_sends(2) local_step_stream_flags)
qed

lemma poll_call_ok:
  assumes inv: "conn_inv free waiting out c" and obj: "objects c sid \<noteq> None"
    and ok: "\<And>g. stage = CallSend g \<Longrightarrow> pending_ok (limits c) sid p fin g"
    and r: "poll_call S sid p fin stage c = (r, c')"
  shows "conn_inv free waiting out c'" "local_step c c'" "r \<noteq> Inl (Inl Panicked)"
    "r = Inr (CallSend g) \<Longrightarrow> pending_ok (limits c') sid p fin g"
proof -
  have here: "local_step c c" by (rule local_step_refl [OF conn_inv_used_ids [OF inv]])
  have "conn_inv free waiting out c' \<and> local_step c c' \<and> r \<noteq> Inl (Inl Panicked)
    \<and> (\<forall>g. r = Inr (CallSend g) \<longrightarrow> pending_ok (limits c') sid p fin g)"
  proof (cases stage)
    case CallStart
    obtain m d where m: "select_send_mode sid 1 c = (m, d)" by fastforce
    let ?h = "send_stream_new sid"
    have h: "send_ok c ?h" using obj by (auto simp: send_ok_def send_stream_new_def)
    have "select_send_mode (ss_id ?h) 1 c = (m, d)" using m by (simp add: send_stream_new_def)
    note mo = select_send_ok [OF inv here h this]
    have d: "objects d sid \<noteq> None" using mo(3) by (auto simp: send_ok_def send_stream_new_def)
    obtain x d2 where x: "poll_send S sid p fin QStart d = (x, d2)" by fastforce
    note st = poll_send_step [OF mo(1,2) _ d x]
    show ?thesis
      using r CallStart m mo st x by (cases m; cases x) (auto simp: continue_call_def pending_ok_def)
  next
    case (CallSend g)
    obtain x d2 where x: "poll_send S sid p fin g c = (x, d2)" by fastforce
    note st = poll_send_step [OF inv here ok [OF CallSend] obj x]
    show ?thesis using r CallSend st x by (cases x) (auto simp: continue_call_def)
  qed
  then show "conn_inv free waiting out c'" "local_step c c'" "r \<noteq> Inl (Inl Panicked)"
    "r = Inr (CallSend g) \<Longrightarrow> pending_ok (limits c') sid p fin g" by blast+
qed

lemma conn_inv_drop_chunk:
  assumes inv: "conn_inv free waiting out c" and st: "objects c sid = Some st" and ch: "chunk_ok ch"
    and n: "length (rb_deref (data ch)) \<le> out sid"
  shows "conn_inv free waiting (out(sid := out sid - length (rb_deref (data ch)))) (drop_chunk S sid ch c)"
  by (rule conn_inv_credit_only [OF inv credit_frame_drop drop_chunk_inv [where out = out, OF _ st ch n] st])
    (use inv in \<open>simp add: conn_inv_def\<close>)

lemma conn_inv_read_chunk:
  assumes inv: "conn_inv free waiting out c" and obj: "objects c sid \<noteq> None" and r: "read_chunk sid c = (r, c')"
  shows "r = Ready (Inr (Some ch)) \<Longrightarrow> conn_inv free waiting (out(sid := out sid + length (rb_deref (data ch)))) c' \<and> chunk_ok ch"
    "(\<And>ch. r \<noteq> Ready (Inr (Some ch))) \<Longrightarrow> conn_inv free waiting out c'" "r \<noteq> Ready (Inl Panicked)"
proof -
  have i: "inbound_inv free waiting out c" using inv by (simp add: conn_inv_def)
  obtain st where st: "objects c sid = Some st" using obj by blast
  show "conn_inv free waiting (out(sid := out sid + length (rb_deref (data ch)))) c' \<and> chunk_ok ch"
    if "r = Ready (Inr (Some ch))"
  proof -
    have e: "read_chunk sid c = (Ready (Inr (Some ch)), c')" using r that by simp
    then obtain chs where "c' = on_inbound sid (\<lambda>i. i\<lparr>chunks := chs\<rparr>) c"
      using st by (auto simp: read_chunk_def split: option.splits list.splits if_splits)
    then show ?thesis using conn_inv_credit [OF inv, of sid chs c'] read_chunk_inv [OF i e] by simp
  qed
  have "on_inbound sid (\<lambda>i. i\<lparr>fin_received := True\<rparr>) c = c" if "fin_received (inbound st) \<or> recv_terminal st"
  proof -
    have "fin_received (inbound st)" using that inv st by (auto simp: conn_inv_def streams_inv_def flags_inv_def flags_ok_def)
    then have "st\<lparr>inbound := (inbound st)\<lparr>fin_received := True\<rparr>\<rparr> = st" by simp
    then show ?thesis using st by (simp add: on_inbound_def on_stream_def fun_upd_idem)
  qed
  then show "conn_inv free waiting out c'" if "\<And>ch. r \<noteq> Ready (Inr (Some ch))"
    using r that st inv by (auto simp: read_chunk_def split: option.splits list.splits if_splits)
  show "r \<noteq> Ready (Inl Panicked)"
    using r st by (auto simp: read_chunk_def split: option.splits list.splits if_splits)
qed

text \<open>Copying out of a chunk consumes its credit and permits byte by byte, and the rest keeps its own.\<close>

lemma read_from_ok:
  assumes inv: "conn_inv free waiting out c" and st: "objects c sid = Some st" and ch: "chunk_ok ch"
    and n: "length (rb_deref (data ch)) \<le> out sid"
  obtains bs rest c' where "read_from S sid ch room c = (Done (bs, rest), c')" "credit_frame c c'"
    "rb_deref (data ch) = bs @ (case rest of None \<Rightarrow> [] | Some ch' \<Rightarrow> rb_deref (data ch'))" "length bs = min (length (rb_deref (data ch))) room"
    "conn_inv free waiting (out(sid := out sid - length bs)) c'" "\<And>ch'. rest = Some ch' \<Longrightarrow> chunk_ok ch'"
proof -
  let ?n = "min (length (rb_deref (data ch))) room"
  obtain rest where adv: "rb_advance ?n (data ch) = Done rest" "rb_deref rest = drop ?n (rb_deref (data ch))"
    by (cases "data ch") auto
  let ?ch = "ch\<lparr>data := rest\<rparr>"
  have p: "in_conn_permit ?ch = Some (length (rb_deref (data ch)))" "in_stream_permit ?ch = Some (length (rb_deref (data ch)))"
    using ch by (simp_all add: chunk_ok_def)
  obtain ch1 c1 where r: "chunk_consume S sid ?n ?ch c = (ch1, c1)" by fastforce
  have f: "credit_frame c c1" using credit_frame_consume [of c S sid ?n ?ch] r by simp
  have i0: "inbound_inv free waiting out c" using inv by (simp add: conn_inv_def)
  have i: "inbound_inv free waiting (out(sid := out sid - ?n)) c1"
    using chunk_consume_inv [OF i0 st p, of ?n] r n by simp
  have inv1: "conn_inv free waiting (out(sid := out sid - ?n)) c1" by (rule conn_inv_credit_only [OF inv f i st])
  have ch1: "data ch1 = rest" "chunk_ok ch1"
    using chunk_consume_eq [OF st p, of ?n] r adv(2) by (auto simp: chunk_ok_def)
  obtain st1 where st1: "objects c1 sid = Some st1" using credit_frame_object [OF f st] by blast
  show thesis
  proof (cases "rb_deref rest = []")
    case True
    have d: "conn_inv free waiting (out(sid := out sid - ?n)) (drop_chunk S sid ch1 c1)"
      using conn_inv_drop_chunk [OF inv1 st1 ch1(2)] True ch1(1) by (simp add: fun_upd_idem)
    show thesis
      by (rule that [of "take ?n (rb_deref (data ch))" None "drop_chunk S sid ch1 c1"])
        (use adv r True ch1 d credit_frame_trans [OF f credit_frame_drop] in \<open>auto simp: read_from_def Let_def\<close>)
  next
    case False
    show thesis
      by (rule that [of "take ?n (rb_deref (data ch))" "Some ch1" c1])
        (use adv r False ch1 inv1 f in \<open>auto simp: read_from_def Let_def\<close>)
  qed
qed

text \<open>The three moves of a reader: drop the remainder, copy from it, take the next chunk.\<close>

lemma recv_drop_ok:
  assumes inv: "conn_inv free waiting (\<lambda>i. rest i + hold h i) d" and ok: "recv_ok d h" and b: "read_buf h = Some ch"
  shows "conn_inv free waiting (\<lambda>i. rest i + hold (h\<lparr>read_buf := None\<rparr>) i) (drop_chunk S (rs_id h) ch d)"
    "recv_ok (drop_chunk S (rs_id h) ch d) (h\<lparr>read_buf := None\<rparr>)"
proof -
  let ?n = "length (rb_deref (data ch))"
  obtain st where st: "objects d (rs_id h) = Some st" using ok by (auto simp: recv_ok_def)
  have ch: "chunk_ok ch" "?n \<le> rest (rs_id h) + hold h (rs_id h)" using ok b by (auto simp: recv_ok_def hold_def)
  have "(\<lambda>i. rest i + hold h i)(rs_id h := rest (rs_id h) + hold h (rs_id h) - ?n) = (\<lambda>i. rest i + hold (h\<lparr>read_buf := None\<rparr>) i)"
    using b by (auto simp: hold_def fun_eq_iff)
  then show "conn_inv free waiting (\<lambda>i. rest i + hold (h\<lparr>read_buf := None\<rparr>) i) (drop_chunk S (rs_id h) ch d)"
    using conn_inv_drop_chunk [OF inv st ch] by simp
  show "recv_ok (drop_chunk S (rs_id h) ch d) (h\<lparr>read_buf := None\<rparr>)"
    using credit_frame_object [OF credit_frame_drop st, of S "rs_id h" ch] by (auto simp: recv_ok_def)
qed

lemma recv_copy_ok:
  assumes inv: "conn_inv free waiting (\<lambda>i. rest i + hold h i) d" and ok: "recv_ok d h" and b: "read_buf h = Some ch"
  obtains bs r d' where "read_from S (rs_id h) ch room d = (Done (bs, r), d')" "credit_frame d d'"
    "conn_inv free waiting (\<lambda>i. rest i + hold (h\<lparr>read_buf := r\<rparr>) i) d'" "recv_ok d' (h\<lparr>read_buf := r\<rparr>)"
proof -
  obtain st where st: "objects d (rs_id h) = Some st" using ok by (auto simp: recv_ok_def)
  have ch: "chunk_ok ch" "length (rb_deref (data ch)) \<le> rest (rs_id h) + hold h (rs_id h)"
    using ok b by (auto simp: recv_ok_def hold_def)
  obtain bs r d' where rf: "read_from S (rs_id h) ch room d = (Done (bs, r), d')" "credit_frame d d'"
    and bytes: "rb_deref (data ch) = bs @ (case r of None \<Rightarrow> [] | Some ch' \<Rightarrow> rb_deref (data ch'))"
      "length bs = min (length (rb_deref (data ch))) room"
    and i: "conn_inv free waiting ((\<lambda>i. rest i + hold h i)(rs_id h := rest (rs_id h) + hold h (rs_id h) - length bs)) d'"
    and r: "\<And>ch'. r = Some ch' \<Longrightarrow> chunk_ok ch'"
    by (rule read_from_ok [where room = room, OF inv st ch]) (rule that)
  have "(\<lambda>i. rest i + hold h i)(rs_id h := rest (rs_id h) + hold h (rs_id h) - length bs) = (\<lambda>i. rest i + hold (h\<lparr>read_buf := r\<rparr>) i)"
    using b bytes(1) by (auto simp: hold_def fun_eq_iff split: option.splits)
  moreover have "recv_ok d' (h\<lparr>read_buf := r\<rparr>)"
    using credit_frame_object [OF rf(2) st] r by (auto simp: recv_ok_def)
  ultimately show thesis using that [OF rf] i by simp
qed

lemma recv_take_ok:
  assumes inv: "conn_inv free waiting (\<lambda>i. rest i + hold h i) d" and ok: "recv_ok d h" and b: "read_buf h = None"
    and r: "read_chunk (rs_id h) d = (r, d')"
  shows "r = Ready (Inr (Some ch)) \<Longrightarrow> conn_inv free waiting (\<lambda>i. rest i + hold (h\<lparr>read_fut := a, read_buf := Some ch, read_pos := n\<rparr>) i) d'
      \<and> recv_ok d' (h\<lparr>read_fut := a, read_buf := Some ch, read_pos := n\<rparr>)"
    "(\<And>ch. r \<noteq> Ready (Inr (Some ch))) \<Longrightarrow> conn_inv free waiting (\<lambda>i. rest i + hold h i) d'"
    "recv_ok d' h" "r \<noteq> Ready (Inl Panicked)"
proof -
  have obj: "objects d (rs_id h) \<noteq> None" using ok by (auto simp: recv_ok_def)
  note rc = conn_inv_read_chunk [OF inv obj r]
  have "local_step d d'"
    using local_step_inbound(4) [OF local_step_refl [OF conn_inv_used_ids [OF inv]], of "rs_id h"] r by simp
  then show ok': "recv_ok d' h" using recv_ok_evolves [OF ok] by (simp add: local_step_def)
  show "conn_inv free waiting (\<lambda>i. rest i + hold (h\<lparr>read_fut := a, read_buf := Some ch, read_pos := n\<rparr>) i) d'
      \<and> recv_ok d' (h\<lparr>read_fut := a, read_buf := Some ch, read_pos := n\<rparr>)" if ch: "r = Ready (Inr (Some ch))"
  proof -
    let ?h = "h\<lparr>read_fut := a, read_buf := Some ch, read_pos := n\<rparr>"
    have "(\<lambda>i. rest i + hold h i)(rs_id h := rest (rs_id h) + hold h (rs_id h) + length (rb_deref (data ch))) = (\<lambda>i. rest i + hold ?h i)"
      using b by (auto simp: hold_def fun_eq_iff)
    then show ?thesis using rc(1) [OF ch] ok' by (simp add: recv_ok_def)
  qed
qed (use conn_inv_read_chunk [OF inv _ r] ok in \<open>auto simp: recv_ok_def\<close>)

lemma read_loop_ok:
  assumes "S' = S" "conn_inv free waiting (\<lambda>i. rest i + hold h i) d" "local_step c d" "recv_ok d h" "0 < room"
  shows "recv_step_ok free waiting rest c h (read_loop S' room h d)"
  using assms
proof (induction S' room h d rule: read_loop.induct)
  case (1 S' room h d)
  note inv = 1(4) and s = 1(5) and ok = 1(6) and room = 1(7) and S = 1(3)
  note unfold = read_loop.simps [of S _ h] recv_step_ok_def
  show ?case
  proof (cases "read_buf h")
    case (Some ch)
    show ?thesis
    proof (cases "min (length (rb_deref (data ch))) room = 0")
      case True
      have "recv_step_ok free waiting rest c (h\<lparr>read_buf := None\<rparr>) (read_loop S' room (h\<lparr>read_buf := None\<rparr>) (drop_chunk S' (rs_id h) ch d))"
        using recv_drop_ok [OF inv ok Some] local_step_credit [OF credit_frame_drop s] room S by (intro 1(2) [OF Some True]) simp_all
      then show ?thesis using Some True S by (simp add: unfold)
    next
      case False
      obtain bs r d' where rf: "read_from S (rs_id h) ch room d = (Done (bs, r), d')" "credit_frame d d'"
          "conn_inv free waiting (\<lambda>i. rest i + hold (h\<lparr>read_buf := r\<rparr>) i) d'" "recv_ok d' (h\<lparr>read_buf := r\<rparr>)"
        by (rule recv_copy_ok [OF inv ok Some])
      then show ?thesis using local_step_credit [OF rf(2) s] Some False S by (simp add: unfold min_def split: if_splits)
    qed
  next
    case None
    obtain r d' where r: "read_chunk (rs_id h) d = (r, d')" by fastforce
    note rc = recv_take_ok [OF inv ok None r]
    have s': "local_step c d'" using local_step_inbound(4) [OF s, of "rs_id h"] r by simp
    have same: "hold (h\<lparr>read_fut := a, eof := e\<rparr>) i = hold h i" "hold (h\<lparr>read_fut := a\<rparr>) i = hold h i" for a e i
      by (simp_all add: hold_def)
    consider "eof h" | ch where "\<not> eof h" "r = Ready (Inr (Some ch))" | "\<not> eof h" "\<And>ch. r \<noteq> Ready (Inr (Some ch))" by blast
    then show ?thesis
    proof cases
      case 2
      then show ?thesis using 1(1) [OF None 2(1) r [symmetric] 2(2)] rc(1) [OF 2(2)] s' None r room S by (simp add: unfold)
    next
      case 3
      then show ?thesis using rc(2) [OF 3(2)] rc(3,4) r s' None S
        by (auto simp: unfold same to_io_fault_panic recv_ok_def split: poll.splits sum.splits option.splits)
    qed (use inv s ok None S in \<open>simp add: unfold\<close>)
  qed
qed

lemma select_recv_ok:
  assumes inv: "conn_inv free waiting out d" and s: "local_step c d" and h: "recv_ok d h"
    and r: "select_recv_mode (rs_id h) m d = (r, d')"
  shows "conn_inv free waiting out d'" "local_step c d'" "recv_ok d' h" "r \<noteq> Inl Panicked"
proof -
  show "conn_inv free waiting out d'" using conn_inv_select_mode(2) [OF inv, of "rs_id h" m] r by simp
  show "local_step c d'" using select_send_mode_step(2) [OF s, of "rs_id h" m] r by simp
  have "local_step d d'" using select_send_mode_step(2) [OF local_step_refl [OF conn_inv_used_ids [OF inv]], of "rs_id h" m] r by simp
  then show "recv_ok d' h" using recv_ok_evolves [OF h] by (simp add: local_step_def)
  show "r \<noteq> Inl Panicked" using select_mode_cases(2) [of d "rs_id h" m] h r by (auto simp: recv_ok_def)
qed

lemma poll_read_ok:
  assumes inv: "conn_inv free waiting (\<lambda>i. rest i + hold h i) d" and s: "local_step c d" and h: "recv_ok d h"
  shows "recv_step_ok free waiting rest c h (poll_read S room h d)"
proof -
  obtain r d1 where r: "select_recv_mode (rs_id h) 2 d = (r, d1)" by fastforce
  note m = select_recv_ok [OF inv s h r]
  show ?thesis using m r read_loop_ok [OF HOL.refl m(1-3), of room]
    by (cases r) (auto simp: poll_read_def recv_step_ok_def to_io_fault_panic)
qed

lemma conn_inv_chunk_into_bytes:
  assumes inv: "conn_inv free waiting out c" and st: "objects c sid = Some st" and ch: "chunk_ok ch"
    and n: "length (rb_deref (data ch)) \<le> out sid"
  shows "conn_inv free waiting (out(sid := out sid - length (rb_deref (data ch)))) (snd (chunk_into_bytes S sid ch c))"
    "credit_frame c (snd (chunk_into_bytes S sid ch c))"
proof -
  let ?n = "length (rb_deref (data ch))"
  obtain ch1 c1 where r: "chunk_consume S sid ?n ch c = (ch1, c1)" by fastforce
  have p: "in_conn_permit ch = Some ?n" "in_stream_permit ch = Some ?n" using ch by (simp_all add: chunk_ok_def)
  have f: "credit_frame c c1" using credit_frame_consume [of c S sid ?n ch] r by simp
  have i0: "inbound_inv free waiting out c" using inv by (simp add: conn_inv_def)
  have i: "inbound_inv free waiting (out(sid := out sid - ?n)) c1" using chunk_consume_inv [OF i0 st p order.refl n] r by simp
  have inv1: "conn_inv free waiting (out(sid := out sid - ?n)) c1" by (rule conn_inv_credit_only [OF inv f i st])
  obtain st1 where st1: "objects c1 sid = Some st1" using credit_frame_object [OF f st] by blast
  have ch1: "chunk_ok (ch1\<lparr>data := rb_default\<rparr>)" using chunk_consume_eq [OF st p order.refl] r by (auto simp: chunk_ok_def rb_default_def)
  have "conn_inv free waiting (out(sid := out sid - ?n)) (drop_chunk S sid (ch1\<lparr>data := rb_default\<rparr>) c1)"
    using conn_inv_drop_chunk [OF inv1 st1 ch1] by (simp add: rb_default_def)
  then show "conn_inv free waiting (out(sid := out sid - ?n)) (snd (chunk_into_bytes S sid ch c))"
    by (simp add: chunk_into_bytes_def r)
  show "credit_frame c (snd (chunk_into_bytes S sid ch c))"
    using credit_frame_trans [OF f credit_frame_drop] by (simp add: chunk_into_bytes_def r)
qed

lemma recv_read_chunk_ok:
  assumes inv: "conn_inv free waiting out d" and s: "local_step c d" and h: "recv_ok d h" and r: "recv_read_chunk S h d = (r, d')"
  shows "conn_inv free waiting out d'" "local_step c d'" "r \<noteq> Ready (Inl Panicked)"
proof -
  obtain x d1 where x: "select_recv_mode (rs_id h) 1 d = (x, d1)" by fastforce
  note m = select_recv_ok [OF inv s h x]
  obtain y d2 where y: "read_chunk (rs_id h) d1 = (y, d2)" by fastforce
  have obj: "objects d1 (rs_id h) \<noteq> None" using m(3) by (auto simp: recv_ok_def)
  note rc = conn_inv_read_chunk [OF m(1) obj y]
  have s2: "local_step c d2" using local_step_inbound(4) [OF m(2), of "rs_id h"] y by simp
  have some: "conn_inv free waiting out (snd (chunk_into_bytes S (rs_id h) ch d2)) \<and> local_step c (snd (chunk_into_bytes S (rs_id h) ch d2))"
    if ch: "y = Ready (Inr (Some ch))" for ch
  proof -
    obtain st where st: "objects d2 (rs_id h) = Some st"
      using y ch obj by (auto simp: read_chunk_def on_inbound_def split: option.splits list.splits if_splits)
    show ?thesis
      using conn_inv_chunk_into_bytes [OF _ st, of _ ch] rc(1) [OF ch] local_step_credit [OF _ s2] by fastforce
  qed
  show "conn_inv free waiting out d'" "local_step c d'" "r \<noteq> Ready (Inl Panicked)"
    using r x m y rc some s2 by (auto simp: recv_read_chunk_def case_prod_beta Let_def split: sum.splits poll.splits option.splits)
qed

lemma drop_recv_stream_ok:
  assumes inv: "conn_inv free waiting (\<lambda>i. rest i + hold h i) c" and h: "recv_ok c h"
  shows "conn_inv free waiting rest (drop_recv_stream S h c)" "local_step c (drop_recv_stream S h c)"
proof -
  let ?c = "release_recv (rs_id h) c"
  have here: "local_step c c" by (rule local_step_refl [OF conn_inv_used_ids [OF inv]])
  have i: "conn_inv free waiting (\<lambda>i. rest i + hold h i) ?c" by (rule conn_inv_release_recv [OF inv])
  have s: "local_step c ?c" by (rule local_step_stream_flags [OF here])
  have ok: "recv_ok ?c h" using recv_ok_evolves [OF h] s by (simp add: local_step_def)
  show "conn_inv free waiting rest (drop_recv_stream S h c)"
    using i recv_drop_ok(1) [OF i ok] by (cases "read_buf h") (auto simp: drop_recv_stream_def)
  show "local_step c (drop_recv_stream S h c)"
    using s local_step_credit [OF credit_frame_drop s] by (cases "read_buf h") (auto simp: drop_recv_stream_def)
qed

end

section \<open>Delivery\<close>

lemma read_from_bytes:
  assumes "read_from S sid ch room c = (Done (bs, rest), c')"
  shows "rb_deref (data ch) = bs @ (case rest of None \<Rightarrow> [] | Some ch' \<Rightarrow> rb_deref (data ch'))"
    "length bs = min (length (rb_deref (data ch))) room" "credit_frame c c'"
proof -
  let ?n = "min (length (rb_deref (data ch))) room"
  obtain d where adv: "rb_advance ?n (data ch) = Done d" "rb_deref d = drop ?n (rb_deref (data ch))" by (cases "data ch") auto
  obtain ch1 c1 where r: "chunk_consume S sid ?n (ch\<lparr>data := d\<rparr>) c = (ch1, c1)" by fastforce
  have f: "credit_frame c c1" using credit_frame_consume [of c S sid ?n "ch\<lparr>data := d\<rparr>"] r by simp
  have d: "data ch1 = d" using r by (auto simp: chunk_consume_def Let_def case_prod_beta)
  have eq: "rb_deref (data ch) = take ?n (rb_deref (data ch)) @ rb_deref d" using adv(2) by simp
  have cases: "bs = take ?n (rb_deref (data ch))" "(rest = None \<and> rb_deref d = [] \<and> c' = drop_chunk S sid ch1 c1) \<or> (rest = Some ch1 \<and> c' = c1)"
    using assms adv(1) r d by (auto simp: read_from_def Let_def split: if_splits)
  show "rb_deref (data ch) = bs @ (case rest of None \<Rightarrow> [] | Some ch' \<Rightarrow> rb_deref (data ch'))"
    using cases d eq by auto
  show "length bs = ?n" using cases(1) by simp
  show "credit_frame c c'" using cases(2) f credit_frame_trans [OF f credit_frame_drop] by auto
qed

lemma read_loop_delivers:
  assumes "0 < room" "read_loop S room h c = (Ready (Inr bs), h', c')"
  shows "undelivered h c = bs @ undelivered h' c' \<and> length bs \<le> room \<and> (bs = [] \<longrightarrow> eof h' \<and> (eof h \<or> undelivered h c = []))"
  using assms
proof (induction S room h c rule: read_loop.induct)
  case (1 S room h c)
  note loop = 1(4) and room = 1(3)
  show ?case
  proof (cases "read_buf h")
    case (Some ch)
    show ?thesis
    proof (cases "min (length (rb_deref (data ch))) room = 0")
      case True
      then have e: "rb_deref (data ch) = []" using room by (simp add: min_def split: if_splits)
      have u: "undelivered (h\<lparr>read_buf := None\<rparr>) (drop_chunk S (rs_id h) ch c) = undelivered h c"
        using undelivered_credit [OF credit_frame_drop [of c S "rs_id h" ch], of "h\<lparr>read_buf := None\<rparr>" "h\<lparr>read_buf := None\<rparr>"] Some e
        by (simp add: undelivered_def)
      show ?thesis using 1(2) [OF Some True room] loop Some e u by (auto simp: read_loop.simps [of S room h])
    next
      case False
      then obtain r where r: "read_from S (rs_id h) ch room c = (Done (bs, r), c')" "h' = h\<lparr>read_buf := r\<rparr>"
        using loop Some by (auto simp: read_loop.simps [of S room h] min_def split: prod.splits run.splits if_splits)
      note b = read_from_bytes [OF r(1)]
      have "undelivered h' c' = undelivered h' c" using b(3) by (rule undelivered_credit) simp_all
      then have "undelivered h c = bs @ undelivered h' c'" using b(1) r(2) Some by (auto simp: undelivered_def split: option.splits)
      then show ?thesis using b(2) False by (auto simp: min_def split: if_splits)
    qed
  next
    case None
    obtain r d where r: "read_chunk (rs_id h) c = (r, d)" by fastforce
    consider "eof h" | ch where "\<not> eof h" "r = Ready (Inr (Some ch))" | "\<not> eof h" "\<And>ch. r \<noteq> Ready (Inr (Some ch))" by blast
    then show ?thesis
    proof cases
      case 2
      have "read_loop S room (h\<lparr>read_fut := False, read_buf := Some ch, read_pos := 0\<rparr>) d = (Ready (Inr bs), h', c')"
        using loop None 2 r by (simp add: read_loop.simps [of S room h])
      then show ?thesis
        using 1(1) [OF None 2(1) r [symmetric] 2(2)] room undelivered_read_chunk(1) [where h = h and c = c and c' = d and ch = ch and a = False and b = 0] r 2 None by auto
    next
      case 3
      then show ?thesis
        using loop None r undelivered_read_chunk(2) [where h = h and a = False and e = True]
        by (auto simp: read_loop.simps [of S room h] split: poll.splits sum.splits option.splits)
    qed (use loop None in \<open>auto simp: read_loop.simps [of S room h]\<close>)
  qed
qed

end
