(* ===== verification/Tasks.thy ===== *)
theory Tasks
  imports Api_Inv
begin

text \<open>
  The tasks of \<open>spawn_connection_tasks\<close> in \<^verbatim>\<open>muxtls/src/connection.rs\<close> beside the reader of \<open>Incoming\<close>: the worker
  that follows up dropped handles, the keepalive timer, the writer and the supervisor; one definition per turn of
  their loops. Each keeps the invariant of the connection.
\<close>

section \<open>Model\<close>

text \<open>The cleanup worker, for one stream of its snapshot of the table.\<close>

definition cleanup_send :: "'s sem_ops \<Rightarrow> u64 \<Rightarrow> ('s connection, fault, unit) action" where
  "cleanup_send S sid c =
     (case objects c sid of
        None \<Rightarrow> (Inl Panicked, c)
      | Some st \<Rightarrow>
          (let c = on_stream sid (\<lambda>st. st\<lparr>send_dropped := False\<rparr>) c
           in (Inr (), if send_dropped st then handle_last_send_drop S sid c else c)))"

definition cleanup_recv :: "'s sem_ops \<Rightarrow> u64 \<Rightarrow> ('s connection, fault, unit) action" where
  "cleanup_recv S sid c =
     (case objects c sid of
        None \<Rightarrow> (Inl Panicked, c)
      | Some st \<Rightarrow>
          (let c = on_stream sid (\<lambda>st. st\<lparr>recv_dropped := False\<rparr>) c
           in if recv_dropped st then handle_last_recv_drop S sid c else (Inr (), c)))"

definition cleanup_stream :: "'s sem_ops \<Rightarrow> u64 \<Rightarrow> ('s connection, fault, unit) action" where
  "cleanup_stream S sid = and_then (cleanup_send S sid) (\<lambda>_. cleanup_recv S sid)"

text \<open>One tick of the keepalive timer; the result is whether the timer goes on.\<close>

definition keepalive_tick :: "'s sem_ops \<Rightarrow> 's connection \<Rightarrow> bool \<times> 's connection" where
  "keepalive_tick S c =
     (if closed c then (False, c)
      else let (queued, c) = enqueue_control Ping c in
        if queued then (True, c) else (False, if \<not> closed c then mark_closed S c else c))"

text \<open>The buffer type of the writer, \<open>BytesMut\<close> of the \<open>bytes\<close> crate: its \<open>BufMut\<close> operations, the empty buffer and
  the length.\<close>

record 'o writer_buf =
  wb_ops :: "'o buf_mut_ops"
  wb_new :: 'o
  wb_len :: "'o \<Rightarrow> usize"

text \<open>Where the writer task is: at the top of its loop, handing a frame to the transport, shutting the transport
  down, or finished.\<close>

datatype 'o writer_task = WIdle | WSending frame 'o | WClosing | WDone

definition writer_take ::
  "'o writer_buf \<Rightarrow> (u64 set \<Rightarrow> u64 list) \<Rightarrow> 's sem_ops \<Rightarrow> 's connection \<Rightarrow> 'o writer_task run \<times> 's connection" where
  "writer_take W order S c =
     (case next_frame order S c of
        (Return None, c) \<Rightarrow> (Done WClosing, c)
      | (Return (Some frame), c) \<Rightarrow>
          (case frame_encode (wb_ops W) frame (wb_new W) of
             (Inr _, encoded) \<Rightarrow> (Done (WSending frame encoded), c)
           | (Inl _, _) \<Rightarrow> (Done WClosing, c))
      | (Crash, c) \<Rightarrow> (Panic, c)
      | (_, c) \<Rightarrow> (Done WIdle, c))"

fun is_close :: "frame \<Rightarrow> bool" where
  "is_close (ConnectionClose _ _) = True"
| "is_close _ = False"

text \<open>The transport took the frame, or failed to.\<close>

definition writer_sent ::
  "'o writer_buf \<Rightarrow> 's sem_ops \<Rightarrow> frame \<Rightarrow> 'o \<Rightarrow> bool \<Rightarrow> 's connection \<Rightarrow> 'o writer_task \<times> 's connection" where
  "writer_sent W S frame encoded sent c =
     (if terminated c \<or> \<not> sent then (WClosing, c)
      else (if is_close frame then WClosing else WIdle, frame_sent S frame (wb_len W encoded) c))"

definition writer_exit :: "'s sem_ops \<Rightarrow> 's connection \<Rightarrow> 's connection" where
  "writer_exit S c = mark_closed S c"

text \<open>The supervisor: the close after the last handle was dropped, the end of the time to drain, and the end.\<close>

definition supervisor_check :: "'s sem_ops \<Rightarrow> 's connection \<Rightarrow> 's connection" where
  "supervisor_check S c =
     (if closed c then c
      else if connection_handles c = 0 then snd (initiate_close S 0 (str_bytes ''last connection handle dropped'') c)
      else c)"

definition supervisor_deadline :: "'s sem_ops \<Rightarrow> 's connection \<Rightarrow> 's connection" where
  "supervisor_deadline S c = mark_closed S c"

definition supervisor_finish :: "'s sem_ops \<Rightarrow> 's connection \<Rightarrow> 's connection" where
  "supervisor_finish S c = (mark_closed S c)\<lparr>incoming_streams := [], joined := True\<rparr>"

text \<open>The drop of the last pointer to a \<open>StreamState\<close>: its fields are dropped, the chunks and the permit among them.\<close>

definition drop_state :: "'s sem_ops \<Rightarrow> u64 \<Rightarrow> 's connection \<Rightarrow> 's connection" where
  "drop_state S sid c =
     (case objects c sid of
        None \<Rightarrow> c
      | Some st \<Rightarrow>
          (let c = drop_chunks S sid (chunks (inbound st)) (on_inbound sid (\<lambda>i. i\<lparr>chunks := []\<rparr>) c);
               c = release_open_permit S sid c
           in c\<lparr>objects := (objects c)(sid := None)\<rparr>))"

section \<open>The contract of the writer's buffer\<close>

locale writer_buffer = buf_mut "wb_ops W" written
  for W :: "'o writer_buf" and written :: "'o \<Rightarrow> bytes" +
  assumes new_written: "written (wb_new W) = []"
    and len_written: "wb_len W b = length (written b)"
begin

lemma encode_new:
  assumes "wf_frame f" "frame_encode (wb_ops W) f (wb_new W) = (r, b)"
  shows "r = Inr ()" "written b = frame_bytes f" "wb_len W b = length (frame_bytes f)"
  using frame_encode_written [OF assms(1), of "wb_new W"] assms(2) by (simp_all add: new_written len_written)

end

definition bytes_writer :: "bytes writer_buf" where
  "bytes_writer = \<lparr> wb_ops = bytes_mut_ops, wb_new = [], wb_len = length \<rparr>"

interpretation bw: writer_buffer bytes_writer "\<lambda>b. b"
  unfolding writer_buffer_def writer_buffer_axioms_def
  using bytes_sink.buf_mut_axioms by (simp add: bytes_writer_def)

section \<open>The tasks keep the invariant\<close>

text \<open>A task keeps the invariant and takes a step that concerns only this side.\<close>

definition task_ok :: "('s \<Rightarrow> nat) \<Rightarrow> ('s \<Rightarrow> bool) \<Rightarrow> (u64 \<Rightarrow> nat) \<Rightarrow> 's connection \<Rightarrow> 's connection \<Rightarrow> bool" where
  "task_ok free waiting out c c' \<longleftrightarrow> conn_inv free waiting out c' \<and> local_step c c'"

lemma task_okD:
  assumes "task_ok free waiting out c c'"
  shows "conn_inv free waiting out c'" "local_step c c'" "evolves c c'"
  using assms by (simp_all add: task_ok_def local_step_def)

lemma task_ok_refl: "conn_inv free waiting out c \<Longrightarrow> task_ok free waiting out c c"
  by (simp add: task_ok_def local_step_refl [OF conn_inv_used_ids])

lemma task_ok_trans: "task_ok free waiting out a b \<Longrightarrow> task_ok free waiting out b c \<Longrightarrow> task_ok free waiting out a c"
  by (auto simp: task_ok_def intro: local_step_trans)

lemma task_ok_settings: "task_ok free waiting out c c' \<Longrightarrow> conn_inv free waiting out c \<Longrightarrow> settings_inv c \<Longrightarrow> settings_inv c'"
  by (auto simp: task_ok_def intro: settings_inv_step conn_inv_used_ids)

text \<open>The frame the writer is sending: its encoding, within the frame size, and the end of a stream only if it is closed.\<close>

definition sending_ok :: "('o \<Rightarrow> bytes) \<Rightarrow> 's connection \<Rightarrow> 'o writer_task \<Rightarrow> bool" where
  "sending_ok written c t \<longleftrightarrow> (\<forall>f b. t = WSending f b \<longrightarrow> wf_frame f \<and> written b = frame_bytes f
     \<and> length (frame_bytes f) \<le> max_frame_size (limits c) \<and> sent_ok f c)"

lemma sending_ok_simps [simp]:
  "sending_ok written c (WSending f b) \<longleftrightarrow> wf_frame f \<and> written b = frame_bytes f
     \<and> length (frame_bytes f) \<le> max_frame_size (limits c) \<and> sent_ok f c"
  "sending_ok written c WIdle" "sending_ok written c WClosing" "sending_ok written c WDone"
  by (simp_all add: sending_ok_def)

lemma sending_ok_evolves: "sending_ok written c t \<Longrightarrow> evolves c c' \<Longrightarrow> sending_ok written c' t"
  using sent_ok_evolves evolvesD(1) by (fastforce simp: sending_ok_def)

context semaphore
begin

lemma task_ok_mark_closed: "task_ok free waiting out c d \<Longrightarrow> task_ok free waiting out c (mark_closed S d)"
  by (simp add: task_ok_def conn_inv_mark_closed local_step_closing)

lemma task_ok_initiate_close:
  "task_ok free waiting out c d \<Longrightarrow> code \<le> varint_MAX \<Longrightarrow> utf8_valid reason \<Longrightarrow> task_ok free waiting out c (snd (initiate_close S code reason d))"
  by (simp add: task_ok_def conn_inv_initiate_close local_step_closing)

lemma handle_last_recv_drop_returns:
  assumes inv: "conn_inv free waiting out c" and st: "objects c sid = Some st"
  shows "fst (handle_last_recv_drop S sid c) = Inr ()"
proof -
  have i: "conn_inv free waiting out (discard_inbound S sid c)" by (rule conn_inv_discard_inbound [OF inv])
  have "local_step c (discard_inbound S sid c)" by (rule local_step_inbound [OF local_step_refl [OF conn_inv_used_ids [OF inv]]])
  then obtain st' where st': "objects (discard_inbound S sid c) sid = Some st'"
    using st evolvesD(11) [of c "discard_inbound S sid c"] by (auto simp: local_step_def)
  have "sid \<le> varint_MAX" using inv st queues_invD(4) by (auto simp: conn_inv_def)
  then have "\<exists>v. from_u64 sid = Inr v" by (simp add: from_u64_def)
  then show ?thesis using st' by (auto simp: handle_last_recv_drop_def Let_def case_prod_beta)
qed

lemma cleanup_stream_ok:
  assumes inv: "conn_inv free waiting out c" and obj: "objects c sid \<noteq> None"
  shows "task_ok free waiting out c (snd (cleanup_stream S sid c))" "fst (cleanup_stream S sid c) = Inr ()"
proof -
  let ?c1 = "on_stream sid (\<lambda>st. st\<lparr>send_dropped := False\<rparr>) c"
  let ?d = "snd (cleanup_send S sid c)"
  obtain st where st: "objects c sid = Some st" using obj by blast
  have 1: "task_ok free waiting out c ?c1"
    using inv local_step_refl [OF conn_inv_used_ids [OF inv]]
    by (auto simp: task_ok_def harmless_def flags_ok_def gentle_simps intro!: conn_inv_on_stream local_step_on_stream)
  have r1: "fst (cleanup_send S sid c) = Inr ()" using st by (simp add: cleanup_send_def Let_def)
  have 2: "task_ok free waiting out c ?d"
    using 1 st by (auto simp: cleanup_send_def Let_def task_ok_def intro: conn_inv_handle_last_send_drop local_step_handles)
  have "objects ?d sid \<noteq> None" using st evolvesD(11) [OF task_okD(3) [OF 2]] by auto
  then obtain st' where st': "objects ?d sid = Some st'" by blast
  let ?c2 = "on_stream sid (\<lambda>st. st\<lparr>recv_dropped := False\<rparr>) ?d"
  have 3: "task_ok free waiting out c ?c2"
    using 2 by (auto simp: task_ok_def harmless_def flags_ok_def gentle_simps intro!: conn_inv_on_stream local_step_on_stream)
  have 4: "objects ?c2 sid \<noteq> None" using st' by simp
  have both: "cleanup_stream S sid c = cleanup_recv S sid ?d"
    using r1 by (cases "cleanup_send S sid c") (simp add: cleanup_stream_def and_then_def)
  show "task_ok free waiting out c (snd (cleanup_stream S sid c))" "fst (cleanup_stream S sid c) = Inr ()"
    unfolding both using 3 st' conn_inv_handle_last_recv_drop [OF task_okD(1) [OF 3]] 4 local_step_handles [OF task_okD(2) [OF 3]]
      handle_last_recv_drop_returns [OF task_okD(1) [OF 3]]
    by (auto simp: cleanup_recv_def Let_def task_ok_def)
qed

lemma keepalive_tick_ok:
  assumes "conn_inv free waiting out c"
  shows "task_ok free waiting out c (snd (keepalive_tick S c))"
proof -
  have "task_ok free waiting out c (snd (enqueue_control Ping c))"
    using conn_inv_enqueue_control [OF assms, of Ping] local_step_control(1) [OF local_step_refl [OF conn_inv_used_ids [OF assms]]]
    by (simp add: task_ok_def)
  then show ?thesis
    using task_ok_refl [OF assms] task_ok_mark_closed by (auto simp: keepalive_tick_def Let_def case_prod_beta)
qed

lemma supervisor_ok:
  assumes "conn_inv free waiting out c"
  shows "task_ok free waiting out c (supervisor_check S c)" "task_ok free waiting out c (supervisor_deadline S c)"
    "task_ok free waiting out c (supervisor_finish S c)" "task_ok free waiting out c (writer_exit S c)"
proof -
  note here = task_ok_refl [OF assms]
  have m: "utf8_valid (str_bytes ''last connection handle dropped'')" by (rule utf8_valid_str_bytes) (simp add: ascii_def)
  show "task_ok free waiting out c (supervisor_check S c)"
    using here task_ok_initiate_close [OF here _ m, of 0] by (simp add: supervisor_check_def)
  show "task_ok free waiting out c (supervisor_deadline S c)" "task_ok free waiting out c (writer_exit S c)"
    unfolding supervisor_deadline_def writer_exit_def by (rule task_ok_mark_closed [OF here])+
  have "task_ok free waiting out c (mark_closed S c)" by (rule task_ok_mark_closed [OF here])
  then have "task_ok free waiting out c ((mark_closed S c)\<lparr>incoming_streams := []\<rparr>)"
    by (auto simp: task_ok_def intro: conn_inv_incoming local_step_fields)
  then show "task_ok free waiting out c (supervisor_finish S c)"
    by (auto simp: supervisor_finish_def task_ok_def intro: local_step_fields)
qed

lemma writer_take_ok:
  assumes inv: "conn_inv free waiting out c" and W: "writer_buffer W written" and r: "writer_take W order S c = (r, c')"
  shows "task_ok free waiting out c c'"
    and "\<exists>t. r = Done t \<and> sending_ok written c' t"
proof -
  obtain p d where n: "next_frame order S c = (p, d)" by fastforce
  have q: "queues_inv c" using inv by (simp add: conn_inv_def)
  have d: "task_ok free waiting out c d"
    using conn_inv_next_frame [OF inv, of order] local_step_next_frame [OF q local_step_refl [OF conn_inv_used_ids [OF inv]], of order S] n
    by (simp add: task_ok_def)
  have l: "limits d = limits c" using evolvesD(1) [OF task_okD(3) [OF d]] .
  have ok: "pass_ok c p d \<and> p \<noteq> Again" by (rule next_frame_ok [OF q n])
  have f: "wf_frame f" "length (frame_bytes f) \<le> max_frame_size (limits d)" "sent_ok f d" if "p = Return (Some f)" for f
    using ok that next_frame_sent [OF inv, of order f d] n l by (auto simp: pass_ok_def frame_ok_def)
  show "task_ok free waiting out c c'"
    and "\<exists>t. r = Done t \<and> sending_ok written c' t"
  proof (atomize (full), cases "\<exists>f. p = Return (Some f)")
    case True
    then obtain f where p: "p = Return (Some f)" by blast
    obtain x b where e: "frame_encode (wb_ops W) f (wb_new W) = (x, b)" by fastforce
    note en = writer_buffer.encode_new [OF W f(1) [OF p] e]
    have rc: "r = Done (WSending f b)" "c' = d" using r by (simp_all add: writer_take_def n p e en(1))
    show "task_ok free waiting out c c' \<and> (\<exists>t. r = Done t \<and> sending_ok written c' t)"
      unfolding rc using d f [OF p] en(2) by simp
  next
    case False
    moreover have "p \<noteq> Crash" using ok by (simp add: pass_ok_def)
    ultimately have "r = Done WClosing \<or> r = Done WIdle" "c' = d"
      using r by (cases p; auto simp: writer_take_def n split: option.splits)+
    then show "task_ok free waiting out c c' \<and> (\<exists>t. r = Done t \<and> sending_ok written c' t)"
      using d by auto
  qed
qed

lemma writer_sent_ok:
  assumes inv: "conn_inv free waiting out c" and f: "sent_ok f c"
  shows "task_ok free waiting out c (snd (writer_sent W S f b sent c))"
  using conn_inv_frame_sent [OF inv f] local_step_frame_sent [OF local_step_refl [OF conn_inv_used_ids [OF inv]]] task_ok_refl [OF inv]
  by (simp add: writer_sent_def task_ok_def)

text \<open>Dropping a stream that nothing refers to gives back its permit and the credit of its unread bytes.\<close>

lemma streams_inv_remove:
  assumes inv: "streams_inv free c" and st: "objects c sid = Some st" and no: "sid \<notin> streams c" "sid \<notin> set (incoming_streams c)"
    and c': "c' = c\<lparr>open_streams := x, objects := (objects c)(sid := None)\<rparr>" and x: "free x = free (open_streams c) + held (open_permit st)"
  shows "streams_inv free c'"
proof -
  have lim: "id_limit c' = id_limit c" by (simp add: id_limit_def c' fun_eq_iff)
  have fin: "finite (dom (objects c))" using inv by (simp add: streams_inv_def ids_inv_def)
  have "ids_inv c'" using inv no lim by (auto simp: streams_inv_def ids_inv_def c')
  moreover have "open_load c' + held (open_permit st) = open_load c"
  proof -
    have "(\<Sum>i\<in>dom (objects c) - {sid}. held (open_permit (the (objects c' i)))) = (\<Sum>i\<in>dom (objects c) - {sid}. held (open_permit (the (objects c i))))"
      by (intro sum.cong) (auto simp: c')
    moreover have "dom (objects c') = dom (objects c) - {sid}" by (auto simp: c')
    ultimately show ?thesis using st fin by (simp add: open_load_def sum.remove [of "dom (objects c)" sid] domI)
  qed
  then have "open_inv free c'" using inv no x by (auto simp: streams_inv_def open_inv_def c')
  moreover have "flags_inv c'" using inv lim by (auto simp: streams_inv_def flags_inv_def c')
  ultimately show ?thesis by (simp add: streams_inv_def)
qed

lemma inbound_inv_remove:
  assumes inv: "inbound_inv free waiting out c" and st: "objects c sid = Some st" and no: "out sid = 0" "chunks (inbound st) = []"
    and c': "c' = c\<lparr>open_streams := x, objects := (objects c)(sid := None)\<rparr>"
  shows "inbound_inv free waiting out c'"
proof -
  have fin: "finite (dom (objects c))" using inv by (simp add: inbound_inv_def)
  have "(\<Sum>i\<in>dom (objects c) - {sid}. stream_load (the (objects c' i)) + out i) = (\<Sum>i\<in>dom (objects c) - {sid}. stream_load (the (objects c i)) + out i)"
    by (intro sum.cong) (auto simp: c')
  moreover have "dom (objects c') = dom (objects c) - {sid}" by (auto simp: c')
  ultimately have "inbound_load out c' = inbound_load out c"
    using inbound_load_split [OF fin st, of out] no by (simp add: inbound_load_def [of out c'] stream_load_def)
  then show ?thesis using inv no by (auto simp: inbound_inv_def conn_account_def c')
qed

lemma drop_state_ok:
  assumes inv: "conn_inv free waiting out c" and no: "sid \<notin> streams c" "sid \<notin> set (incoming_streams c)" "out sid = 0"
    "map_of (by_stream (writer c)) sid = None"
  shows "conn_inv free waiting out (drop_state S sid c)"
proof (cases "objects c sid")
  case (Some st)
  let ?c0 = "on_inbound sid (\<lambda>i. i\<lparr>chunks := []\<rparr>) c"
  let ?c1 = "drop_chunks S sid (chunks (inbound st)) ?c0"
  have fr: "credit_frame ?c0 ?c1" by (rule credit_frame_drops)
  have i1: "inbound_inv free waiting out ?c1"
    unfolding on_inbound_def
    by (rule clear_inv [OF _ Some, where st' = "st\<lparr>inbound := (inbound st)\<lparr>chunks := []\<rparr>\<rparr>"])
      (use inv Some in \<open>simp_all add: conn_inv_def on_stream_def\<close>)
  have inv1: "conn_inv free waiting out ?c1" by (rule conn_inv_credit [OF inv fr i1])
  obtain w x where st1: "objects ?c1 sid = Some (st\<lparr>inbound := (inbound st)\<lparr>chunks := []\<rparr>, s_window := w, inbound_stream_bytes := x\<rparr>)"
    using fr Some by (auto simp: credit_frame_def on_inbound_def)
  let ?st1 = "st\<lparr>inbound := (inbound st)\<lparr>chunks := []\<rparr>, s_window := w, inbound_stream_bytes := x\<rparr>"
  define c2 where "c2 = ?c1\<lparr>open_streams := sem_release S (held (open_permit st)) (open_streams ?c1), objects := (objects ?c1)(sid := None)\<rparr>"
  have eq: "drop_state S sid c = c2"
    using Some st1 by (simp add: drop_state_def Let_def release_open_permit_def on_stream_def c2_def)
  have same: "streams ?c1 = streams c" "incoming_streams ?c1 = incoming_streams c" "writer ?c1 = writer c"
    using fr by (auto simp: credit_frame_def on_inbound_def)
  have "streams_inv free c2"
    by (rule streams_inv_remove [OF _ st1 _ _ c2_def]) (use inv1 no same in \<open>simp_all add: conn_inv_def\<close>)
  moreover have "inbound_inv free waiting out c2"
    by (rule inbound_inv_remove [OF i1 st1 _ _ c2_def]) (use no in simp_all)
  moreover have "queues_inv c2"
    using inv1 no(4) same by (auto simp: conn_inv_def queues_inv_def c2_def)
  ultimately show ?thesis unfolding eq by (simp add: conn_inv_def)
qed (use inv in \<open>simp add: drop_state_def\<close>)

end

end
