(* ===== verification/System.thy ===== *)
theory System
  imports Tasks
begin

text \<open>
  One endpoint of a connection with everything that acts on it: the application's handles and pending calls, and the
  tasks of \<open>spawn_connection_tasks\<close>. An event is one poll or call of one of these parties, so that a sequence of
  events is an interleaving. \<open>exec\<close> gives the next state, or \<open>Panic\<close>; an event that is not possible in a state has no
  effect. All reachable states satisfy \<open>sys_inv\<close>.
\<close>

section \<open>Model\<close>

text \<open>\<open>calls\<close> are the pending futures of \<open>write_chunk\<close> and \<open>finish\<close>, with their stream, payload and FIN; \<open>wire\<close> are
  the frames that the transport took, with their encodings. The cleanup worker holds the rest of its snapshot, or \<open>None\<close> when it has ended.\<close>

record ('s, 'o) system =
  conn :: "'s connection"
  sends :: "send_stream list"
  recvs :: "recv_stream list"
  calls :: "(u64 \<times> bytes \<times> bool \<times> call_stage) list"
  opens :: "open_stage list"
  writing :: "'o writer_task"
  wire :: "(frame \<times> 'o) list"
  reading :: bool
  ticking :: bool
  cleaning :: "u64 list option"

definition system_new :: "'s connection \<Rightarrow> bool \<Rightarrow> ('s, 'o) system" where
  "system_new c keepalive = \<lparr> conn = c, sends = [], recvs = [], calls = [], opens = [], writing = WIdle, wire = [],
     reading = True, ticking = keepalive, cleaning = Some [] \<rparr>"

datatype 'b event =
  OpenBi | PollOpen nat | DropOpen nat | AcceptBi
| WriteChunk nat bytes | Finish nat | PollCall nat | DropCall nat | ResetSend nat u64
| PollWrite nat bytes | PollFlush nat | PollShutdown nat | DropSend nat
| PollRead nat usize | ReadChunk nat | DropRecv nat
| Close rust_string | Abort | CloneConn | DropConn
| Incoming 'b | EndOfInput | IdleTimeout
| Tick | CleanupStart "u64 list" | CleanupNext | CleanupStop
| TakeFrame "u64 set \<Rightarrow> u64 list" | Sent bool | WriterExit
| CheckHandles | Deadline | Join | DropState u64

definition remove_nth :: "nat \<Rightarrow> 'a list \<Rightarrow> 'a list" where
  "remove_nth i xs = take i xs @ drop (Suc i) xs"

definition new_handles :: "u64 \<Rightarrow> ('s, 'o) system \<Rightarrow> ('s, 'o) system" where
  "new_handles sid s = s\<lparr>sends := sends s @ [send_stream_new sid], recvs := recvs s @ [recv_stream_new sid]\<rparr>"

text \<open>No pointer to the state of a stream is left.\<close>

definition unreferenced :: "u64 \<Rightarrow> ('s, 'o) system \<Rightarrow> bool" where
  "unreferenced sid s \<longleftrightarrow> sid \<notin> streams (conn s) \<and> sid \<notin> set (incoming_streams (conn s))
     \<and> map_of (by_stream (writer (conn s))) sid = None
     \<and> sid \<notin> ss_id ` set (sends s) \<and> sid \<notin> rs_id ` set (recvs s) \<and> sid \<notin> fst ` set (calls s)
     \<and> (case cleaning s of None \<Rightarrow> True | Some ids \<Rightarrow> sid \<notin> set ids)"

text \<open>The state after an operation that returned or panicked.\<close>

definition settle :: "(fault + 'a) \<Rightarrow> ('s, 'o) system \<Rightarrow> ('s, 'o) system run" where
  "settle r s = (case r of Inl Panicked \<Rightarrow> Panic | _ \<Rightarrow> Done s)"

definition settle_io :: "(io_fault + 'a) poll \<Rightarrow> ('s, 'o) system \<Rightarrow> ('s, 'o) system run" where
  "settle_io r s = (case r of Ready (Inl IoPanicked) \<Rightarrow> Panic | _ \<Rightarrow> Done s)"

definition open_event :: "'s sem_ops \<Rightarrow> nat \<Rightarrow> ('s, 'o) system \<Rightarrow> ('s, 'o) system run" where
  "open_event S i s =
     (case poll_open_bi S (opens s ! i) (conn s) of
        (Inr stage, c) \<Rightarrow> Done (s\<lparr>conn := c, opens := (opens s)[i := stage]\<rparr>)
      | (Inl r, c) \<Rightarrow>
          (let s = s\<lparr>conn := c, opens := remove_nth i (opens s)\<rparr>
           in settle r (case r of Inl _ \<Rightarrow> s | Inr sid \<Rightarrow> new_handles sid s)))"

definition accept_event :: "('s, 'o) system \<Rightarrow> ('s, 'o) system run" where
  "accept_event s =
     (case accept_bi (conn s) of
        (Pending, c) \<Rightarrow> Done (s\<lparr>conn := c\<rparr>)
      | (Ready r, c) \<Rightarrow> settle r (case r of Inl _ \<Rightarrow> s\<lparr>conn := c\<rparr> | Inr sid \<Rightarrow> new_handles sid (s\<lparr>conn := c\<rparr>)))"

definition call_event :: "'s sem_ops \<Rightarrow> nat \<Rightarrow> ('s, 'o) system \<Rightarrow> ('s, 'o) system run" where
  "call_event S i s =
     (case calls s ! i of (sid, payload, fin, stage) \<Rightarrow>
        (case poll_call S sid payload fin stage (conn s) of
           (Inr stage, c) \<Rightarrow> Done (s\<lparr>conn := c, calls := (calls s)[i := (sid, payload, fin, stage)]\<rparr>)
         | (Inl r, c) \<Rightarrow> settle r (s\<lparr>conn := c, calls := remove_nth i (calls s)\<rparr>)))"

text \<open>An operation on one sending half, and on one receiving half.\<close>

definition send_event ::
  "nat \<Rightarrow> (send_stream \<Rightarrow> 's connection \<Rightarrow> (io_fault + 'a) poll \<times> send_stream \<times> 's connection) \<Rightarrow> ('s, 'o) system \<Rightarrow> ('s, 'o) system run" where
  "send_event j f s =
     (if j < length (sends s)
      then case f (sends s ! j) (conn s) of (r, h, c) \<Rightarrow> settle_io r (s\<lparr>conn := c, sends := (sends s)[j := h]\<rparr>)
      else Done s)"

definition recv_event ::
  "nat \<Rightarrow> (recv_stream \<Rightarrow> 's connection \<Rightarrow> (io_fault + 'a) poll \<times> recv_stream \<times> 's connection) \<Rightarrow> ('s, 'o) system \<Rightarrow> ('s, 'o) system run" where
  "recv_event j f s =
     (if j < length (recvs s)
      then case f (recvs s ! j) (conn s) of (r, h, c) \<Rightarrow> settle_io r (s\<lparr>conn := c, recvs := (recvs s)[j := h]\<rparr>)
      else Done s)"

text \<open>The writer: taking a frame, the answer of the transport, and the end.\<close>

definition take_event :: "'o writer_buf \<Rightarrow> 's sem_ops \<Rightarrow> (u64 set \<Rightarrow> u64 list) \<Rightarrow> ('s, 'o) system \<Rightarrow> ('s, 'o) system run" where
  "take_event W S order s =
     (case writing s of
        WIdle \<Rightarrow> (case writer_take W order S (conn s) of
                    (Done t, c) \<Rightarrow> Done (s\<lparr>conn := c, writing := t\<rparr>)
                  | (Panic, c) \<Rightarrow> Panic)
      | _ \<Rightarrow> Done s)"

definition sent_event :: "'o writer_buf \<Rightarrow> 's sem_ops \<Rightarrow> bool \<Rightarrow> ('s, 'o) system \<Rightarrow> ('s, 'o) system run" where
  "sent_event W S sent s =
     (case writing s of
        WSending frame encoded \<Rightarrow>
          (let (t, c) = writer_sent W S frame encoded sent (conn s)
           in Done (s\<lparr>conn := c, writing := t, wire := (if terminated (conn s) \<or> \<not> sent then wire s else wire s @ [(frame, encoded)])\<rparr>))
      | _ \<Rightarrow> Done s)"

definition cleanup_event :: "'s sem_ops \<Rightarrow> ('s, 'o) system \<Rightarrow> ('s, 'o) system run" where
  "cleanup_event S s =
     (case cleaning s of
        Some (sid # ids) \<Rightarrow>
          (case cleanup_stream S sid (conn s) of (r, c) \<Rightarrow> settle r (s\<lparr>conn := c, cleaning := Some ids\<rparr>))
      | _ \<Rightarrow> Done s)"

text \<open>The reader takes an item that the length-delimited codec let through: its length is at most the frame size.\<close>

definition incoming_event :: "'b buf_ops \<Rightarrow> 's sem_ops \<Rightarrow> 'b \<Rightarrow> ('s, 'o) system \<Rightarrow> ('s, 'o) system run" where
  "incoming_event B S bytes s =
     (if reading s \<and> remaining B bytes \<le> max_frame_size (limits (conn s))
      then case reader_frame B S bytes (remaining B bytes) (conn s) of
          (Done b, c) \<Rightarrow> Done (s\<lparr>conn := c, reading := b\<rparr>)
        | (Panic, c) \<Rightarrow> Panic
      else Done s)"

fun exec :: "'b buf_ops \<Rightarrow> 'o writer_buf \<Rightarrow> 's sem_ops \<Rightarrow> 'b event \<Rightarrow> ('s, 'o) system \<Rightarrow> ('s, 'o) system run" where
  "exec B W S OpenBi s = Done (s\<lparr>opens := opens s @ [OpenStart]\<rparr>)"
| "exec B W S (PollOpen i) s = (if i < length (opens s) then open_event S i s else Done s)"
| "exec B W S (DropOpen i) s =
     Done (if i < length (opens s)
           then s\<lparr>conn := drop_open (opens s ! i) (conn s), opens := remove_nth i (opens s)\<rparr> else s)"
| "exec B W S AcceptBi s = accept_event s"
| "exec B W S (WriteChunk j payload) s =
     Done (if j < length (sends s) then s\<lparr>calls := calls s @ [(ss_id (sends s ! j), payload, False, CallStart)]\<rparr> else s)"
| "exec B W S (Finish j) s =
     Done (if j < length (sends s) then s\<lparr>calls := calls s @ [(ss_id (sends s ! j), [], True, CallStart)]\<rparr> else s)"
| "exec B W S (PollCall i) s = (if i < length (calls s) then call_event S i s else Done s)"
| "exec B W S (DropCall i) s =
     Done (if i < length (calls s)
           then case calls s ! i of (sid, payload, fin, stage) \<Rightarrow>
             s\<lparr>conn := drop_call S sid payload stage (conn s), calls := remove_nth i (calls s)\<rparr>
           else s)"
| "exec B W S (ResetSend j code) s =
     (if j < length (sends s)
      then case reset_send S (sends s ! j) code (conn s) of (r, c) \<Rightarrow> settle r (s\<lparr>conn := c\<rparr>)
      else Done s)"
| "exec B W S (PollWrite j src) s = send_event j (\<lambda>h. poll_write S h src) s"
| "exec B W S (PollFlush j) s = send_event j (poll_flush S) s"
| "exec B W S (PollShutdown j) s = send_event j (poll_shutdown S) s"
| "exec B W S (DropSend j) s =
     Done (if j < length (sends s)
           then s\<lparr>conn := drop_send_stream S (sends s ! j) (conn s), sends := remove_nth j (sends s)\<rparr> else s)"
| "exec B W S (PollRead j room) s = recv_event j (poll_read S room) s"
| "exec B W S (ReadChunk j) s =
     (if j < length (recvs s)
      then case recv_read_chunk S (recvs s ! j) (conn s) of
          (Ready r, c) \<Rightarrow> settle r (s\<lparr>conn := c\<rparr>)
        | (Pending, c) \<Rightarrow> Done (s\<lparr>conn := c\<rparr>)
      else Done s)"
| "exec B W S (DropRecv j) s =
     Done (if j < length (recvs s)
           then s\<lparr>conn := drop_recv_stream S (recvs s ! j) (conn s), recvs := remove_nth j (recvs s)\<rparr> else s)"
| "exec B W S (Close reason) s =
     (if utf8_valid reason
      then case connection_close S reason (conn s) of (r, c) \<Rightarrow> settle r (s\<lparr>conn := c\<rparr>)
      else Done s)"
| "exec B W S Abort s = Done (s\<lparr>conn := connection_abort (conn s)\<rparr>)"
| "exec B W S CloneConn s = Done (s\<lparr>conn := connection_clone (conn s)\<rparr>)"
| "exec B W S DropConn s = Done (if connection_handles (conn s) = 0 then s else s\<lparr>conn := connection_drop (conn s)\<rparr>)"
| "exec B W S (Incoming bytes) s = incoming_event B S bytes s"
| "exec B W S EndOfInput s = Done (if reading s then s\<lparr>conn := reader_eof S (conn s), reading := False\<rparr> else s)"
| "exec B W S IdleTimeout s = Done (if reading s then s\<lparr>conn := reader_idle S (conn s), reading := False\<rparr> else s)"
| "exec B W S Tick s =
     Done (if ticking s then (let (b, c) = keepalive_tick S (conn s) in s\<lparr>conn := c, ticking := b\<rparr>) else s)"
| "exec B W S (CleanupStart ids) s =
     Done (if cleaning s = Some [] \<and> \<not> terminated (conn s) \<and> set ids = streams (conn s) then s\<lparr>cleaning := Some ids\<rparr> else s)"
| "exec B W S CleanupNext s = cleanup_event S s"
| "exec B W S CleanupStop s = Done (if cleaning s = Some [] \<and> terminated (conn s) then s\<lparr>cleaning := None\<rparr> else s)"
| "exec B W S (TakeFrame order) s = take_event W S order s"
| "exec B W S (Sent sent) s = sent_event W S sent s"
| "exec B W S WriterExit s =
     Done (case writing s of WClosing \<Rightarrow> s\<lparr>conn := writer_exit S (conn s), writing := WDone\<rparr> | _ \<Rightarrow> s)"
| "exec B W S CheckHandles s = Done (s\<lparr>conn := supervisor_check S (conn s)\<rparr>)"
| "exec B W S Deadline s = Done (if closed (conn s) then s\<lparr>conn := supervisor_deadline S (conn s)\<rparr> else s)"
| "exec B W S Join s =
     Done (case writing s of
             WDone \<Rightarrow> if \<not> reading s \<and> \<not> ticking s \<and> cleaning s = None then s\<lparr>conn := supervisor_finish S (conn s)\<rparr> else s
           | _ \<Rightarrow> s)"
| "exec B W S (DropState sid) s = Done (if unreferenced sid s then s\<lparr>conn := drop_state S sid (conn s)\<rparr> else s)"

text \<open>The states of a connection with given limits.\<close>

inductive reachable ::
  "'b buf_ops \<Rightarrow> 'o writer_buf \<Rightarrow> 's sem_ops \<Rightarrow> usize \<Rightarrow> limits \<Rightarrow> ('s, 'o) system \<Rightarrow> bool"
  for B W S m l where
  start: "connection_new S m l is_client certs = Inr c \<Longrightarrow> reachable B W S m l (system_new c keepalive)"
| event: "reachable B W S m l s \<Longrightarrow> exec B W S e s = Done s' \<Longrightarrow> reachable B W S m l s'"

end
