(* ===== verification/System_Inv.thy ===== *)
theory System_Inv
  imports System
begin

text \<open>
  The invariant of an endpoint: that of its connection, with the readers' remainders accounted for, and what the
  handles, pending calls and tasks rely on. Every event keeps it and none panics.
\<close>

section \<open>The invariant\<close>

definition holds :: "recv_stream list \<Rightarrow> u64 \<Rightarrow> nat" where
  "holds hs sid = (\<Sum>h\<leftarrow>hs. hold h sid)"

definition call_ok :: "'s connection \<Rightarrow> u64 \<times> bytes \<times> bool \<times> call_stage \<Rightarrow> bool" where
  "call_ok c = (\<lambda>(sid, payload, fin, stage). sid \<in> dom (objects c)
     \<and> (\<forall>g. stage = CallSend g \<longrightarrow> pending_ok (limits c) sid payload fin g))"

text \<open>What went to the transport are encodings of well-formed frames within the frame size.\<close>

definition wire_ok :: "('o \<Rightarrow> bytes) \<Rightarrow> limits \<Rightarrow> frame \<times> 'o \<Rightarrow> bool" where
  "wire_ok written l = (\<lambda>(f, b). wf_frame f \<and> written b = frame_bytes f \<and> length (written b) \<le> max_frame_size l)"

definition snapshot :: "u64 list option \<Rightarrow> u64 set" where
  "snapshot w = (case w of None \<Rightarrow> {} | Some ids \<Rightarrow> set ids)"

definition sys_inv :: "('s \<Rightarrow> nat) \<Rightarrow> ('s \<Rightarrow> bool) \<Rightarrow> ('o \<Rightarrow> bytes) \<Rightarrow> limits \<Rightarrow> ('s, 'o) system \<Rightarrow> bool" where
  "sys_inv free waiting written l s \<longleftrightarrow>
     limits (conn s) = l \<and> conn_inv free waiting (holds (recvs s)) (conn s) \<and> settings_inv (conn s)
     \<and> list_all (send_ok (conn s)) (sends s) \<and> list_all (recv_ok (conn s)) (recvs s) \<and> list_all (call_ok (conn s)) (calls s)
     \<and> sending_ok written (conn s) (writing s) \<and> list_all (wire_ok written l) (wire s)
     \<and> snapshot (cleaning s) \<subseteq> dom (objects (conn s))"

lemma call_ok_evolves: "call_ok c x \<Longrightarrow> evolves c c' \<Longrightarrow> call_ok c' x"
  using evolvesD(1,11) [of c c'] by (auto simp: call_ok_def subset_iff split: prod.splits)

lemma list_all_remove_nth: "list_all P xs \<Longrightarrow> list_all P (remove_nth i xs)"
  by (auto simp: list_all_iff remove_nth_def dest: in_set_takeD in_set_dropD)

lemma list_all_update: "list_all P xs \<Longrightarrow> P x \<Longrightarrow> list_all P (xs[i := x])"
  by (auto simp: list_all_iff dest: set_update_subset_insert [THEN subsetD])

lemma holds_nth:
  assumes "j < length hs"
  shows "holds hs = (\<lambda>i. holds (remove_nth j hs) i + hold (hs ! j) i)"
    "holds (hs[j := h]) = (\<lambda>i. holds (remove_nth j hs) i + hold h i)"
proof -
  have "holds hs i = holds (remove_nth j hs) i + hold (hs ! j) i" for i
  proof -
    have "holds hs i = holds (take j hs @ hs ! j # drop (Suc j) hs) i" by (rule arg_cong [OF id_take_nth_drop [OF assms]])
    then show ?thesis by (simp add: holds_def remove_nth_def)
  qed
  then show "holds hs = (\<lambda>i. holds (remove_nth j hs) i + hold (hs ! j) i)" by blast
  show "holds (hs[j := h]) = (\<lambda>i. holds (remove_nth j hs) i + hold h i)"
    using assms by (simp add: fun_eq_iff holds_def remove_nth_def upd_conv_take_nth_drop)
qed

text \<open>A step of the connection that keeps its invariant and takes nothing back keeps what the handles rely on.\<close>

lemma sys_inv_step:
  assumes inv: "sys_inv free waiting written l s"
    and c: "conn_inv free waiting (holds (recvs s')) (conn s')" "settings_inv (conn s')" "evolves (conn s) (conn s')"
    and hs: "list_all (send_ok (conn s')) (sends s')" "list_all (recv_ok (conn s')) (recvs s')" "list_all (call_ok (conn s')) (calls s')"
    and same: "writing s' = writing s" "wire s' = wire s" "cleaning s' = cleaning s"
  shows "sys_inv free waiting written l s'"
  using assms evolvesD(1) [OF c(3)] order.trans [OF _ evolvesD(11) [OF c(3)]] sending_ok_evolves [where t = "writing s", OF _ c(3)]
  by (simp add: sys_inv_def)

lemma handles_evolve:
  assumes "sys_inv free waiting written l s" "evolves (conn s) c"
  shows "list_all (send_ok c) (sends s)" "list_all (recv_ok c) (recvs s)" "list_all (call_ok c) (calls s)"
  using assms send_ok_evolves [of "conn s" _ c] recv_ok_evolves [of "conn s" _ c] call_ok_evolves [of "conn s" _ c]
  by (auto simp: sys_inv_def list_all_iff)

lemma sys_inv_conn:
  assumes inv: "sys_inv free waiting written l s"
    and c: "conn_inv free waiting (holds (recvs s)) c" "settings_inv c" "evolves (conn s) c"
  shows "sys_inv free waiting written l (s\<lparr>conn := c\<rparr>)"
  by (rule sys_inv_step [OF inv]) (use c handles_evolve [OF inv c(3)] in simp_all)

lemma sys_inv_task:
  assumes inv: "sys_inv free waiting written l s" and t: "task_ok free waiting (holds (recvs s)) (conn s) c"
  shows "sys_inv free waiting written l (s\<lparr>conn := c\<rparr>)"
proof (rule sys_inv_conn [OF inv task_okD(1) [OF t] _ task_okD(3) [OF t]])
  show "settings_inv c" by (rule task_ok_settings [OF t]) (use inv in \<open>simp_all add: sys_inv_def\<close>)
qed

lemma sys_inv_fields [simp]:
  "sys_inv free waiting written l (s\<lparr>opens := os\<rparr>) = sys_inv free waiting written l s"
  "sys_inv free waiting written l (s\<lparr>reading := b\<rparr>) = sys_inv free waiting written l s"
  "sys_inv free waiting written l (s\<lparr>ticking := b\<rparr>) = sys_inv free waiting written l s"
  "sys_inv free waiting written l (s\<lparr>conn := c, opens := os\<rparr>) = sys_inv free waiting written l (s\<lparr>conn := c\<rparr>)"
  "sys_inv free waiting written l (s\<lparr>conn := c, reading := b\<rparr>) = sys_inv free waiting written l (s\<lparr>conn := c\<rparr>)"
  "sys_inv free waiting written l (s\<lparr>conn := c, ticking := b\<rparr>) = sys_inv free waiting written l (s\<lparr>conn := c\<rparr>)"
  by (simp_all add: sys_inv_def)

lemma sys_inv_calls:
  "sys_inv free waiting written l s \<Longrightarrow> list_all (call_ok (conn s)) cs \<Longrightarrow> sys_inv free waiting written l (s\<lparr>calls := cs\<rparr>)"
  by (simp add: sys_inv_def)

lemma sys_inv_new_handles:
  assumes "sys_inv free waiting written l s" "sid \<in> dom (objects (conn s))"
  shows "sys_inv free waiting written l (new_handles sid s)"
proof -
  have "holds (recvs s @ [recv_stream_new sid]) = holds (recvs s)"
    by (simp add: holds_def fun_eq_iff recv_stream_new_def)
  then show ?thesis
    using assms by (simp add: sys_inv_def new_handles_def send_ok_def recv_ok_def send_stream_new_def recv_stream_new_def)
qed

section \<open>Events\<close>

definition run_ok :: "('s \<Rightarrow> nat) \<Rightarrow> ('s \<Rightarrow> bool) \<Rightarrow> ('o \<Rightarrow> bytes) \<Rightarrow> limits \<Rightarrow> ('s, 'o) system run \<Rightarrow> bool" where
  "run_ok free waiting written l r \<longleftrightarrow> (\<exists>s. r = Done s \<and> sys_inv free waiting written l s)"

lemma run_ok_simps [simp]:
  "run_ok free waiting written l (Done s) = sys_inv free waiting written l s"
  "\<not> run_ok free waiting written l Panic"
  "run_ok free waiting written l (settle r s) \<longleftrightarrow> r \<noteq> Inl Panicked \<and> sys_inv free waiting written l s"
  "run_ok free waiting written l (settle_io x s) \<longleftrightarrow> x \<noteq> Ready (Inl IoPanicked) \<and> sys_inv free waiting written l s"
  by (auto simp: run_ok_def settle_def settle_io_def split: sum.splits fault.splits poll.splits io_fault.splits)

lemma poll_open_bi_result:
  assumes "poll_open_bi S stage c = (Inl r, c')"
  shows "r \<noteq> Inl Panicked" "r = Inr sid \<Longrightarrow> sid \<in> dom (objects c')"
proof -
  have fin: "fst (open_finish S d) \<noteq> Inl Panicked" "fst (open_finish S d) = Inr sid \<Longrightarrow> objects (snd (open_finish S d)) sid \<noteq> None" for d
    by (auto simp: open_finish_def Let_def add_handles_def count_opened_def register_stream_def split: prod.splits sum.splits if_splits)
  have per: "fst (open_permit_stage S d) \<noteq> Inl (Inl Panicked)"
    "fst (open_permit_stage S d) = Inl (Inr sid) \<Longrightarrow> objects (snd (open_permit_stage S d)) sid \<noteq> None" for d
    using fin by (auto simp: open_permit_stage_def Let_def case_prod_beta split: sem_result.splits)
  have lock: "fst (open_lock_stage S c) \<noteq> Inl (Inl Panicked)"
    "fst (open_lock_stage S c) = Inl (Inr sid) \<Longrightarrow> objects (snd (open_lock_stage S c)) sid \<noteq> None"
    using per by (auto simp: open_lock_stage_def split: sum.splits if_splits)
  have "fst (poll_open_bi S stage c) \<noteq> Inl (Inl Panicked) \<and>
    (fst (poll_open_bi S stage c) = Inl (Inr sid) \<longrightarrow> objects (snd (poll_open_bi S stage c)) sid \<noteq> None)"
    using lock per by (cases stage) (auto split: sum.splits)
  then show "r \<noteq> Inl Panicked" "r = Inr sid \<Longrightarrow> sid \<in> dom (objects c')" using assms by auto
qed

lemma accept_bi_result:
  assumes "accept_bi c = (Ready r, c')" "set (incoming_streams c) \<subseteq> dom (objects c)"
  shows "r \<noteq> Inl Panicked" "r = Inr sid \<Longrightarrow> sid \<in> dom (objects c')"
  using assms by (auto simp: accept_bi_def add_handles_def split: sum.splits list.splits)

lemma reset_stream_no_panic: "objects c sid \<noteq> None \<Longrightarrow> fst (reset_stream S sid code c) \<noteq> Inl Panicked"
  by (auto simp: reset_stream_def Let_def split: sum.splits if_splits)

lemma connection_close_no_panic: "fst (connection_close S reason c) \<noteq> Inl Panicked"
  by (auto simp: connection_close_def initiate_close_def Let_def split: sum.splits if_splits)

lemma drop_state_frame:
  shows "limits (drop_state S sid c) = limits c" "writer (drop_state S sid c) = writer c" "id_limit (drop_state S sid c) = id_limit c"
    "dom (objects (drop_state S sid c)) = dom (objects c) - {sid}"
    "objects (drop_state S sid c) i = Some st' \<Longrightarrow>
      \<exists>st. objects c i = Some st \<and> send_terminal st' = send_terminal st \<and> s_peer_limit st' = s_peer_limit st"
proof -
  have "limits (drop_state S sid c) = limits c \<and> writer (drop_state S sid c) = writer c \<and> id_limit (drop_state S sid c) = id_limit c
    \<and> dom (objects (drop_state S sid c)) = dom (objects c) - {sid}
    \<and> (objects (drop_state S sid c) i = Some st' \<longrightarrow>
      (\<exists>st. objects c i = Some st \<and> send_terminal st' = send_terminal st \<and> s_peer_limit st' = s_peer_limit st))"
  proof (cases "objects c sid")
    case (Some st)
    have fr: "credit_frame (on_inbound sid (\<lambda>i. i\<lparr>chunks := []\<rparr>) c) (drop_chunks S sid (chunks (inbound st)) (on_inbound sid (\<lambda>i. i\<lparr>chunks := []\<rparr>) c))"
      by (rule credit_frame_drops)
    show ?thesis
      using fr Some by (auto simp: drop_state_def Let_def credit_frame_def release_open_permit_def on_inbound_def id_limit_def fun_eq_iff
          split: if_splits option.splits)
  qed (auto simp: drop_state_def)
  then show "limits (drop_state S sid c) = limits c" "writer (drop_state S sid c) = writer c" "id_limit (drop_state S sid c) = id_limit c"
    "dom (objects (drop_state S sid c)) = dom (objects c) - {sid}"
    "objects (drop_state S sid c) i = Some st' \<Longrightarrow>
      \<exists>st. objects c i = Some st \<and> send_terminal st' = send_terminal st \<and> s_peer_limit st' = s_peer_limit st" by blast+
qed

context semaphore
begin

lemma open_event_ok:
  assumes inv: "sys_inv free waiting written l s" and i: "i < length (opens s)"
  shows "run_ok free waiting written l (open_event S i s)"
proof -
  have ci: "conn_inv free waiting (holds (recvs s)) (conn s)" using inv by (simp add: sys_inv_def)
  obtain r c where r: "poll_open_bi S (opens s ! i) (conn s) = (r, c)" by fastforce
  have "task_ok free waiting (holds (recvs s)) (conn s) c"
    using conn_inv_poll_open_bi [OF ci, of "opens s ! i"] local_step_poll_open_bi [OF ci, of "opens s ! i"] r by (simp add: task_ok_def)
  then have s: "sys_inv free waiting written l (s\<lparr>conn := c\<rparr>)" by (rule sys_inv_task [OF inv])
  show ?thesis
  proof (cases r)
    case (Inl x)
    note res = poll_open_bi_result [OF r [unfolded Inl]]
    show ?thesis
      using s res(1) sys_inv_new_handles [of free waiting written l "s\<lparr>conn := c, opens := remove_nth i (opens s)\<rparr>"] res(2)
      by (cases x) (auto simp: open_event_def r Inl Let_def)
  qed (use s in \<open>simp add: open_event_def r\<close>)
qed

lemma accept_event_ok:
  assumes inv: "sys_inv free waiting written l s"
  shows "run_ok free waiting written l (accept_event s)"
proof -
  have ci: "conn_inv free waiting (holds (recvs s)) (conn s)" using inv by (simp add: sys_inv_def)
  obtain r c where r: "accept_bi (conn s) = (r, c)" by fastforce
  have "task_ok free waiting (holds (recvs s)) (conn s) c"
    using conn_inv_accept_bi [OF ci] local_step_accept_bi [OF local_step_refl [OF conn_inv_used_ids [OF ci]]] r by (simp add: task_ok_def)
  then have s: "sys_inv free waiting written l (s\<lparr>conn := c\<rparr>)" by (rule sys_inv_task [OF inv])
  show ?thesis
  proof (cases r)
    case (Ready x)
    have "set (incoming_streams (conn s)) \<subseteq> dom (objects (conn s))" using ci by (simp add: conn_inv_def streams_inv_def ids_inv_def)
    note res = accept_bi_result [OF r [unfolded Ready] this]
    show ?thesis using s res sys_inv_new_handles [OF s] by (cases x) (auto simp: accept_event_def r Ready)
  qed (use s in \<open>simp add: accept_event_def r\<close>)
qed

lemma call_event_ok:
  assumes inv: "sys_inv free waiting written l s" and i: "i < length (calls s)"
  shows "run_ok free waiting written l (call_event S i s)"
proof -
  have ci: "conn_inv free waiting (holds (recvs s)) (conn s)" using inv by (simp add: sys_inv_def)
  obtain sid p fin g where c: "calls s ! i = (sid, p, fin, g)" by (metis prod_cases4)
  have ok: "call_ok (conn s) (sid, p, fin, g)" using inv i c by (metis list_all_length sys_inv_def)
  obtain r c' where r: "poll_call S sid p fin g (conn s) = (r, c')" by fastforce
  have obj: "objects (conn s) sid \<noteq> None" using ok by (auto simp: call_ok_def)
  note pc = poll_call_ok [OF ci obj _ r]
  have t: "task_ok free waiting (holds (recvs s)) (conn s) c'" and np: "r \<noteq> Inl (Inl Panicked)"
    and pend: "\<And>q. r = Inr (CallSend q) \<Longrightarrow> pending_ok (limits c') sid p fin q"
    using pc ok by (auto simp: call_ok_def task_ok_def)
  have s: "sys_inv free waiting written l (s\<lparr>conn := c'\<rparr>)" by (rule sys_inv_task [OF inv t])
  have dom: "sid \<in> dom (objects c')" using evolvesD(11) [OF task_okD(3) [OF t]] obj by blast
  have cs: "list_all (call_ok c') (calls s)" using s by (simp add: sys_inv_def)
  show ?thesis
  proof (cases r)
    case (Inl x)
    then show ?thesis
      using sys_inv_calls [OF s, of "remove_nth i (calls s)"] list_all_remove_nth [OF cs] np by (simp add: call_event_def c r)
  next
    case (Inr g')
    then have "call_ok c' (sid, p, fin, g')" using pend dom by (auto simp: call_ok_def)
    then show ?thesis
      using sys_inv_calls [OF s, of "(calls s)[i := (sid, p, fin, g')]"] list_all_update [OF cs] Inr by (simp add: call_event_def c r)
  qed
qed

lemma send_event_ok:
  assumes inv: "sys_inv free waiting written l s"
    and f: "\<And>h out. conn_inv free waiting out (conn s) \<Longrightarrow> send_ok (conn s) h \<Longrightarrow> send_step_ok free waiting out (conn s) h (f h (conn s))"
  shows "run_ok free waiting written l (send_event j f s)"
proof (cases "j < length (sends s)")
  case True
  obtain r h c where r: "f (sends s ! j) (conn s) = (r, h, c)" by (metis prod_cases3)
  have "send_ok (conn s) (sends s ! j)" using inv True by (simp add: sys_inv_def list_all_length)
  then have ok: "send_step_ok free waiting (holds (recvs s)) (conn s) (sends s ! j) (r, h, c)"
    using f [of "holds (recvs s)" "sends s ! j"] inv r by (simp add: sys_inv_def)
  then have t: "task_ok free waiting (holds (recvs s)) (conn s) c" by (simp add: send_step_ok_def task_ok_def)
  have s: "sys_inv free waiting written l (s\<lparr>conn := c\<rparr>)" by (rule sys_inv_task [OF inv t])
  then have "list_all (send_ok c) ((sends s)[j := h])" using ok by (intro list_all_update) (simp_all add: sys_inv_def send_step_ok_def)
  then have "sys_inv free waiting written l (s\<lparr>conn := c, sends := (sends s)[j := h]\<rparr>)" using s by (simp add: sys_inv_def)
  then show ?thesis using ok True by (simp add: send_event_def r send_step_ok_def)
qed (use inv in \<open>simp add: send_event_def\<close>)

lemma recv_event_ok:
  assumes inv: "sys_inv free waiting written l s"
    and f: "\<And>h rest. conn_inv free waiting (\<lambda>i. rest i + hold h i) (conn s) \<Longrightarrow> recv_ok (conn s) h \<Longrightarrow> recv_step_ok free waiting rest (conn s) h (f h (conn s))"
  shows "run_ok free waiting written l (recv_event j f s)"
proof (cases "j < length (recvs s)")
  case True
  obtain r h c where r: "f (recvs s ! j) (conn s) = (r, h, c)" by (metis prod_cases3)
  have "recv_ok (conn s) (recvs s ! j)" using inv True by (simp add: sys_inv_def list_all_length)
  moreover have ci: "conn_inv free waiting (\<lambda>i. holds (remove_nth j (recvs s)) i + hold (recvs s ! j) i) (conn s)"
    using inv holds_nth(1) [OF True] by (simp add: sys_inv_def)
  ultimately have ok: "recv_step_ok free waiting (holds (remove_nth j (recvs s))) (conn s) (recvs s ! j) (r, h, c)"
    using f r by metis
  then have t: "evolves (conn s) c" "settings_inv c"
    using inv settings_inv_step [OF _ conn_inv_used_ids [OF ci]] by (auto simp: recv_step_ok_def sys_inv_def local_step_def)
  note hs = handles_evolve [OF inv t(1)]
  have "sys_inv free waiting written l (s\<lparr>conn := c, recvs := (recvs s)[j := h]\<rparr>)"
    by (rule sys_inv_step [OF inv])
      (use ok t hs holds_nth(2) [OF True, of h] in \<open>simp_all add: recv_step_ok_def list_all_update\<close>)
  then show ?thesis using ok True by (simp add: recv_event_def r recv_step_ok_def)
qed (use inv in \<open>simp add: recv_event_def\<close>)

text \<open>The handles that go away, with what they hold.\<close>

lemma drop_send_event_ok:
  assumes inv: "sys_inv free waiting written l s" and j: "j < length (sends s)"
  shows "sys_inv free waiting written l (s\<lparr>conn := drop_send_stream S (sends s ! j) (conn s), sends := remove_nth j (sends s)\<rparr>)"
proof -
  have ci: "conn_inv free waiting (holds (recvs s)) (conn s)" using inv by (simp add: sys_inv_def)
  have "sys_inv free waiting written l (s\<lparr>conn := drop_send_stream S (sends s ! j) (conn s)\<rparr>)"
    by (rule sys_inv_task [OF inv]) (simp add: task_ok_def drop_send_stream_ok [OF ci])
  then show ?thesis by (simp add: sys_inv_def list_all_remove_nth)
qed

lemma drop_recv_event_ok:
  assumes inv: "sys_inv free waiting written l s" and j: "j < length (recvs s)"
  shows "sys_inv free waiting written l (s\<lparr>conn := drop_recv_stream S (recvs s ! j) (conn s), recvs := remove_nth j (recvs s)\<rparr>)"
proof -
  let ?c = "drop_recv_stream S (recvs s ! j) (conn s)"
  have ok: "recv_ok (conn s) (recvs s ! j)" using inv j by (simp add: sys_inv_def list_all_length)
  have ci: "conn_inv free waiting (\<lambda>i. holds (remove_nth j (recvs s)) i + hold (recvs s ! j) i) (conn s)"
    using inv holds_nth(1) [OF j] by (simp add: sys_inv_def)
  note d = drop_recv_stream_ok [OF ci ok]
  have t: "evolves (conn s) ?c" "settings_inv ?c"
    using d(2) inv settings_inv_step [OF _ conn_inv_used_ids [OF ci]] by (auto simp: sys_inv_def local_step_def)
  show ?thesis
    by (rule sys_inv_step [OF inv]) (use d t handles_evolve [OF inv t(1)] in \<open>simp_all add: list_all_remove_nth\<close>)
qed

lemma drop_call_event_ok:
  assumes inv: "sys_inv free waiting written l s"
  shows "sys_inv free waiting written l (s\<lparr>conn := drop_call S sid p g (conn s), calls := remove_nth i (calls s)\<rparr>)"
proof -
  have ci: "conn_inv free waiting (holds (recvs s)) (conn s)" using inv by (simp add: sys_inv_def)
  have "task_ok free waiting (holds (recvs s)) (conn s) (drop_call S sid p g (conn s))"
    using task_ok_refl [OF ci] conn_inv_drop_queue [OF ci] local_step_sends(2) [OF local_step_refl [OF conn_inv_used_ids [OF ci]]]
    by (cases g) (simp_all add: task_ok_def)
  from sys_inv_task [OF inv this] show ?thesis by (simp add: sys_inv_def list_all_remove_nth)
qed

lemma drop_state_event_ok:
  assumes inv: "sys_inv free waiting written l s" and u: "unreferenced sid s"
  shows "sys_inv free waiting written l (s\<lparr>conn := drop_state S sid (conn s)\<rparr>)"
proof -
  let ?c = "drop_state S sid (conn s)"
  have ci: "conn_inv free waiting (holds (recvs s)) (conn s)" using inv by (simp add: sys_inv_def)
  have "holds (recvs s) sid = 0"
    using u by (auto simp: holds_def unreferenced_def hold_def sum_list_eq_0_iff image_iff)
  then have c': "conn_inv free waiting (holds (recvs s)) ?c" using u by (intro drop_state_ok [OF ci]) (simp_all add: unreferenced_def)
  note f = drop_state_frame [of S sid "conn s"]
  have "settings_inv (conn s)" "sending_ok written (conn s) (writing s)" using inv by (simp_all add: sys_inv_def)
  then have "settings_inv ?c" "sending_ok written ?c (writing s)"
    using f(5) unfolding settings_inv_def sending_ok_def sent_ok_def ended_def f(1,2,3) by metis+
  moreover have "list_all (send_ok ?c) (sends s)"
    using inv u by (auto simp: sys_inv_def list_all_iff send_ok_def f(1,4) unreferenced_def)
  moreover have "list_all (recv_ok ?c) (recvs s)"
    using inv u by (auto simp: sys_inv_def list_all_iff recv_ok_def f(4) unreferenced_def)
  moreover have "list_all (call_ok ?c) (calls s)"
  proof -
    have "call_ok ?c x" if "call_ok (conn s) x" "fst x \<noteq> sid" for x
      using that by (cases x) (auto simp: call_ok_def f(1,4))
    moreover have "fst x \<noteq> sid" if "x \<in> set (calls s)" for x using that u by (auto simp: unreferenced_def)
    ultimately show ?thesis using inv by (auto simp: sys_inv_def list_all_iff)
  qed
  moreover have "snapshot (cleaning s) \<subseteq> dom (objects ?c)"
    using inv u by (auto simp: sys_inv_def f(4) unreferenced_def snapshot_def split: option.splits)
  ultimately show ?thesis using inv c' by (simp add: sys_inv_def f(1))
qed

text \<open>The tasks.\<close>

lemma take_event_ok:
  assumes inv: "sys_inv free waiting written l s" and W: "writer_buffer W written"
  shows "run_ok free waiting written l (take_event W S order s)"
proof (cases "writing s = WIdle")
  case True
  have ci: "conn_inv free waiting (holds (recvs s)) (conn s)" using inv by (simp add: sys_inv_def)
  obtain r c where r: "writer_take W order S (conn s) = (r, c)" by fastforce
  note t = writer_take_ok [OF ci W r]
  obtain x where x: "r = Done x" "sending_ok written c x" using t(2) by blast
  have "sys_inv free waiting written l (s\<lparr>conn := c\<rparr>)" by (rule sys_inv_task [OF inv t(1)])
  then have "sys_inv free waiting written l (s\<lparr>conn := c, writing := x\<rparr>)" using x(2) by (simp add: sys_inv_def)
  then show ?thesis using True r x(1) by (simp add: take_event_def)
next
  case False
  then have "take_event W S order s = Done s" by (cases "writing s") (simp_all add: take_event_def)
  then show ?thesis using inv by simp
qed

lemma sent_event_ok:
  assumes inv: "sys_inv free waiting written l s"
  shows "run_ok free waiting written l (sent_event W S sent s)"
proof (cases "\<exists>f b. writing s = WSending f b")
  case True
  then obtain f b where w: "writing s = WSending f b" by blast
  have ci: "conn_inv free waiting (holds (recvs s)) (conn s)" using inv by (simp add: sys_inv_def)
  have f: "wf_frame f" "written b = frame_bytes f" "length (frame_bytes f) \<le> max_frame_size l" "sent_ok f (conn s)" "limits (conn s) = l"
    using inv w by (auto simp: sys_inv_def)
  obtain t c where r: "writer_sent W S f b sent (conn s) = (t, c)" by fastforce
  have tk: "task_ok free waiting (holds (recvs s)) (conn s) c" using writer_sent_ok [OF ci f(4), of W b sent] r by simp
  have l: "limits c = limits (conn s)" by (rule evolvesD(1) [OF task_okD(3) [OF tk]])
  have t: "t = WIdle \<or> t = WClosing" using r by (auto simp: writer_sent_def split: if_splits)
  have "sys_inv free waiting written l (s\<lparr>conn := c\<rparr>)" by (rule sys_inv_task [OF inv tk])
  moreover have "wire_ok written (limits c) (f, b)" using f l by (auto simp: wire_ok_def)
  ultimately show ?thesis using t by (auto simp: sent_event_def w r Let_def sys_inv_def)
next
  case False
  then have "sent_event W S sent s = Done s" by (cases "writing s") (simp_all add: sent_event_def)
  then show ?thesis using inv by simp
qed

lemma cleanup_event_ok:
  assumes inv: "sys_inv free waiting written l s"
  shows "run_ok free waiting written l (cleanup_event S s)"
proof (cases "\<exists>sid ids. cleaning s = Some (sid # ids)")
  case True
  then obtain sid ids where w: "cleaning s = Some (sid # ids)" by blast
  have ci: "conn_inv free waiting (holds (recvs s)) (conn s)" using inv by (simp add: sys_inv_def)
  have obj: "objects (conn s) sid \<noteq> None" using inv w by (auto simp: sys_inv_def snapshot_def)
  obtain r c where r: "cleanup_stream S sid (conn s) = (r, c)" by fastforce
  have t: "task_ok free waiting (holds (recvs s)) (conn s) c" "r = Inr ()" using cleanup_stream_ok [OF ci obj] r by simp_all
  have "sys_inv free waiting written l (s\<lparr>conn := c\<rparr>)" by (rule sys_inv_task [OF inv t(1)])
  then have "sys_inv free waiting written l (s\<lparr>conn := c, cleaning := Some ids\<rparr>)" by (simp add: sys_inv_def snapshot_def w)
  then show ?thesis by (simp add: cleanup_event_def w r t(2))
next
  case False
  then have "cleanup_event S s = Done s" by (auto simp: cleanup_event_def split: option.splits list.splits)
  then show ?thesis using inv by simp
qed

lemma incoming_event_ok:
  assumes inv: "sys_inv free waiting written l s" and B: "buf B unread"
  shows "run_ok free waiting written l (incoming_event B S bytes s)"
proof (cases "reading s \<and> remaining B bytes \<le> max_frame_size (limits (conn s))")
  case True
  have ci: "conn_inv free waiting (holds (recvs s)) (conn s)" "settings_inv (conn s)" using inv by (simp_all add: sys_inv_def)
  have "length (unread bytes) < 2 ^ 32"
    using True conn_inv_frame_size [OF ci(1)] buf.remaining_length [OF B, of bytes] by simp
  note r = reader_frame_safe [OF B ci this, of "remaining B bytes"]
  obtain b c where rf: "reader_frame B S bytes (remaining B bytes) (conn s) = (Done b, c)" using r(1) by (metis prod.collapse)
  have "sys_inv free waiting written l (s\<lparr>conn := c\<rparr>)" by (rule sys_inv_conn [OF inv]) (use r(2-4) rf in simp_all)
  then show ?thesis using True rf by (simp add: incoming_event_def)
qed (use inv in \<open>auto simp: incoming_event_def\<close>)

text \<open>The remaining events, in the order of \<open>exec\<close>.\<close>

lemma sys_inv_conn_inv: "sys_inv free waiting written l s \<Longrightarrow> conn_inv free waiting (holds (recvs s)) (conn s)"
  by (simp add: sys_inv_def)

lemma sys_inv_here: "sys_inv free waiting written l s \<Longrightarrow> local_step (conn s) (conn s)"
  using local_step_refl [OF conn_inv_used_ids [OF sys_inv_conn_inv]] by blast

lemma sys_inv_send_object: "sys_inv free waiting written l s \<Longrightarrow> j < length (sends s) \<Longrightarrow> objects (conn s) (ss_id (sends s ! j)) \<noteq> None"
  by (auto simp: sys_inv_def list_all_length send_ok_def)

lemma exec_opens:
  assumes inv: "sys_inv free waiting written l s"
  shows "run_ok free waiting written l (exec B W S OpenBi s)" "run_ok free waiting written l (exec B W S (PollOpen i) s)"
    "run_ok free waiting written l (exec B W S (DropOpen i) s)" "run_ok free waiting written l (exec B W S AcceptBi s)"
proof -
  have "task_ok free waiting (holds (recvs s)) (conn s) (drop_open (opens s ! i) (conn s))"
    using sys_inv_conn_inv [OF inv] conn_inv_drop_open [OF sys_inv_conn_inv [OF inv]] sys_inv_here [OF inv]
    by (cases "opens s ! i") (auto simp: task_ok_def intro: local_step_fields)
  then show "run_ok free waiting written l (exec B W S (DropOpen i) s)" using inv sys_inv_task [OF inv] by simp
qed (use inv open_event_ok [OF inv, of i] accept_event_ok [OF inv] in simp_all)

lemma exec_calls:
  assumes inv: "sys_inv free waiting written l s"
  shows "run_ok free waiting written l (exec B W S (WriteChunk j p) s)" "run_ok free waiting written l (exec B W S (Finish j) s)"
    "run_ok free waiting written l (exec B W S (PollCall j) s)" "run_ok free waiting written l (exec B W S (DropCall j) s)"
    "run_ok free waiting written l (exec B W S (ResetSend j code) s)"
proof -
  have call: "sys_inv free waiting written l (s\<lparr>calls := calls s @ [(ss_id (sends s ! j), p, fin, CallStart)]\<rparr>)"
    if "j < length (sends s)" for p fin
    using inv sys_inv_send_object [OF inv that] by (auto simp: sys_inv_def call_ok_def)
  then show "run_ok free waiting written l (exec B W S (WriteChunk j p) s)" "run_ok free waiting written l (exec B W S (Finish j) s)"
    using inv by simp_all
  show "run_ok free waiting written l (exec B W S (PollCall j) s)" using inv call_event_ok [OF inv, of j] by simp
  show "run_ok free waiting written l (exec B W S (DropCall j) s)" using inv drop_call_event_ok [OF inv] by (simp split: prod.split)
  obtain r c where r: "reset_stream S (ss_id (sends s ! j)) code (conn s) = (r, c)" by fastforce
  have "task_ok free waiting (holds (recvs s)) (conn s) c"
    using conn_inv_reset_stream [OF sys_inv_conn_inv [OF inv], of "ss_id (sends s ! j)" code] local_step_control(3) [OF sys_inv_here [OF inv], of S "ss_id (sends s ! j)" code] r
    by (simp add: task_ok_def)
  then have "sys_inv free waiting written l (s\<lparr>conn := c\<rparr>)" by (rule sys_inv_task [OF inv])
  then show "run_ok free waiting written l (exec B W S (ResetSend j code) s)"
    using inv reset_stream_no_panic [OF sys_inv_send_object [OF inv], of j S code] r by (simp add: reset_send_def)
qed

lemma exec_writes:
  assumes inv: "sys_inv free waiting written l s"
  shows "run_ok free waiting written l (exec B W S (PollWrite j p) s)" "run_ok free waiting written l (exec B W S (PollFlush j) s)"
    "run_ok free waiting written l (exec B W S (PollShutdown j) s)" "run_ok free waiting written l (exec B W S (DropSend j) s)"
proof -
  note here = sys_inv_here [OF inv]
  show "run_ok free waiting written l (exec B W S (PollWrite j p) s)"
    unfolding exec.simps by (rule send_event_ok [OF inv]) (rule poll_write_ok [OF _ here])
  show "run_ok free waiting written l (exec B W S (PollFlush j) s)"
    unfolding exec.simps by (rule send_event_ok [OF inv]) (rule poll_flush_ok(1) [OF _ here])
  show "run_ok free waiting written l (exec B W S (PollShutdown j) s)"
    unfolding exec.simps by (rule send_event_ok [OF inv]) (rule poll_shutdown_ok [OF _ here])
  show "run_ok free waiting written l (exec B W S (DropSend j) s)" using inv drop_send_event_ok [OF inv] by simp
qed

lemma exec_reads:
  assumes inv: "sys_inv free waiting written l s"
  shows "run_ok free waiting written l (exec B W S (PollRead j room) s)" "run_ok free waiting written l (exec B W S (ReadChunk j) s)"
    "run_ok free waiting written l (exec B W S (DropRecv j) s)"
proof -
  note here = sys_inv_here [OF inv]
  show "run_ok free waiting written l (exec B W S (PollRead j room) s)"
    unfolding exec.simps by (rule recv_event_ok [OF inv]) (rule poll_read_ok [OF _ here])
  obtain r c where r: "recv_read_chunk S (recvs s ! j) (conn s) = (r, c)" by fastforce
  have "sys_inv free waiting written l (s\<lparr>conn := c\<rparr>) \<and> r \<noteq> Ready (Inl Panicked)" if j: "j < length (recvs s)"
  proof -
    have "recv_ok (conn s) (recvs s ! j)" using inv j by (simp add: sys_inv_def list_all_length)
    note o = recv_read_chunk_ok [OF sys_inv_conn_inv [OF inv] here this r]
    have "task_ok free waiting (holds (recvs s)) (conn s) c" using o by (simp add: task_ok_def)
    then show ?thesis using sys_inv_task [OF inv] o(3) by simp
  qed
  then show "run_ok free waiting written l (exec B W S (ReadChunk j) s)" using inv r by (cases r) auto
  show "run_ok free waiting written l (exec B W S (DropRecv j) s)" using inv drop_recv_event_ok [OF inv] by simp
qed

lemma exec_handles:
  assumes inv: "sys_inv free waiting written l s"
  shows "run_ok free waiting written l (exec B W S (Close reason) s)" "run_ok free waiting written l (exec B W S Abort s)"
    "run_ok free waiting written l (exec B W S CloneConn s)" "run_ok free waiting written l (exec B W S DropConn s)"
proof -
  note ci = sys_inv_conn_inv [OF inv] and here = sys_inv_here [OF inv]
  obtain r c where r: "connection_close S reason (conn s) = (r, c)" by fastforce
  have "task_ok free waiting (holds (recvs s)) (conn s) c" if "utf8_valid reason"
    using r task_ok_refl [OF ci] task_ok_initiate_close [OF task_ok_refl [OF ci] _ that, of 0]
    by (auto simp: connection_close_def split: sum.splits)
  then have "sys_inv free waiting written l (s\<lparr>conn := c\<rparr>)" if "utf8_valid reason" using sys_inv_task [OF inv] that by blast
  then show "run_ok free waiting written l (exec B W S (Close reason) s)"
    using inv r connection_close_no_panic [of S reason "conn s"] by auto
  have "local_step (conn s) (connection_abort (conn s))"
    using local_step_fields(13) [OF local_step_fields(12) [OF here]] by (simp add: connection_abort_def)
  then have "task_ok free waiting (holds (recvs s)) (conn s) (connection_abort (conn s))"
    using ci by (simp add: connection_abort_def task_ok_def)
  then show "run_ok free waiting written l (exec B W S Abort s)" using sys_inv_task [OF inv] by simp
  have "task_ok free waiting (holds (recvs s)) (conn s) ((conn s)\<lparr>connection_handles := n\<rparr>)" for n
    using ci local_step_fields(10) [OF here] by (simp add: task_ok_def)
  then show "run_ok free waiting written l (exec B W S CloneConn s)" "run_ok free waiting written l (exec B W S DropConn s)"
    using inv sys_inv_task [OF inv] by (simp_all add: connection_clone_def connection_drop_def)
qed

lemma exec_reader:
  assumes inv: "sys_inv free waiting written l s"
  shows "buf B unread \<Longrightarrow> run_ok free waiting written l (exec B W S (Incoming bytes) s)"
    "run_ok free waiting written l (exec B W S EndOfInput s)" "run_ok free waiting written l (exec B W S IdleTimeout s)"
proof -
  note here = task_ok_refl [OF sys_inv_conn_inv [OF inv]]
  show "buf B unread \<Longrightarrow> run_ok free waiting written l (exec B W S (Incoming bytes) s)" using incoming_event_ok [OF inv] by simp
  have "task_ok free waiting (holds (recvs s)) (conn s) (reader_eof S (conn s))"
    unfolding reader_eof_def by (rule task_ok_mark_closed [OF here])
  then show "run_ok free waiting written l (exec B W S EndOfInput s)" using inv sys_inv_task [OF inv] by simp
  have "utf8_valid (str_bytes ''connection idle timeout elapsed'')" by (rule utf8_valid_str_bytes) (simp add: ascii_def)
  then have "task_ok free waiting (holds (recvs s)) (conn s) (reader_idle S (conn s))"
    unfolding reader_idle_def by (intro task_ok_mark_closed task_ok_initiate_close [OF here]) (simp_all add: varint_MAX_def)
  then show "run_ok free waiting written l (exec B W S IdleTimeout s)" using inv sys_inv_task [OF inv] by simp
qed

lemma exec_tasks:
  assumes inv: "sys_inv free waiting written l s"
  shows "run_ok free waiting written l (exec B W S Tick s)" "run_ok free waiting written l (exec B W S (CleanupStart ids) s)"
    "run_ok free waiting written l (exec B W S CleanupNext s)" "run_ok free waiting written l (exec B W S CleanupStop s)"
    "writer_buffer W written \<Longrightarrow> run_ok free waiting written l (exec B W S (TakeFrame order) s)"
    "run_ok free waiting written l (exec B W S (Sent b) s)" "run_ok free waiting written l (exec B W S (DropState sid) s)"
proof -
  note ci = sys_inv_conn_inv [OF inv]
  show "run_ok free waiting written l (exec B W S Tick s)"
    using inv sys_inv_task [OF inv keepalive_tick_ok [OF ci]] by (auto simp: case_prod_beta Let_def)
  have "streams (conn s) \<subseteq> dom (objects (conn s))" using ci by (simp add: conn_inv_def streams_inv_def ids_inv_def)
  then show "run_ok free waiting written l (exec B W S (CleanupStart ids) s)" using inv by (auto simp: sys_inv_def snapshot_def)
  show "run_ok free waiting written l (exec B W S CleanupStop s)" using inv by (simp add: sys_inv_def snapshot_def)
  show "run_ok free waiting written l (exec B W S (DropState sid) s)" using inv drop_state_event_ok [OF inv] by simp
qed (use cleanup_event_ok [OF inv] take_event_ok [OF inv] sent_event_ok [OF inv] in simp_all)

lemma exec_supervisor:
  assumes inv: "sys_inv free waiting written l s"
  shows "run_ok free waiting written l (exec B W S WriterExit s)" "run_ok free waiting written l (exec B W S CheckHandles s)"
    "run_ok free waiting written l (exec B W S Deadline s)" "run_ok free waiting written l (exec B W S Join s)"
proof -
  have t: "sys_inv free waiting written l (s\<lparr>conn := supervisor_check S (conn s)\<rparr>)" "sys_inv free waiting written l (s\<lparr>conn := supervisor_deadline S (conn s)\<rparr>)"
    "sys_inv free waiting written l (s\<lparr>conn := supervisor_finish S (conn s)\<rparr>)" "sys_inv free waiting written l (s\<lparr>conn := writer_exit S (conn s)\<rparr>)"
    by (rule sys_inv_task [OF inv], rule supervisor_ok [OF sys_inv_conn_inv [OF inv]])+
  show "run_ok free waiting written l (exec B W S CheckHandles s)" "run_ok free waiting written l (exec B W S Deadline s)"
    using t inv by simp_all
  have "sys_inv free waiting written l (s\<lparr>conn := writer_exit S (conn s), writing := WDone\<rparr>)"
    using t(4) by (simp add: sys_inv_def)
  then show "run_ok free waiting written l (exec B W S WriterExit s)" using inv by (cases "writing s") simp_all
  show "run_ok free waiting written l (exec B W S Join s)" using t(3) inv by (cases "writing s") simp_all
qed

text \<open>Every event is safe.\<close>

lemma exec_ok:
  assumes inv: "sys_inv free waiting written l s" and B: "buf B unread" and W: "writer_buffer W written"
  shows "run_ok free waiting written l (exec B W S e s)"
  by (cases e; simp only: exec_opens [OF inv] exec_calls [OF inv] exec_writes [OF inv] exec_reads [OF inv] exec_handles [OF inv]
      exec_reader(1) [OF inv B] exec_reader(2-) [OF inv] exec_tasks [OF inv] exec_tasks(5) [OF inv W] exec_supervisor [OF inv])

lemma sys_inv_new:
  assumes "connection_new S m l is_client certs = Inr c"
  shows "sys_inv free waiting written l (system_new c keepalive)"
proof -
  have "holds [] = (\<lambda>_. 0)" by (simp add: holds_def fun_eq_iff)
  then show ?thesis using conn_inv_new [OF assms] settings_inv_new [OF assms] connection_new_valid(2) [OF assms]
    by (simp add: sys_inv_def system_new_def snapshot_def)
qed

lemma reachable_inv:
  assumes "reachable B W S m l s" "buf B unread" "writer_buffer W written"
  shows "sys_inv free waiting written l s"
  using assms
proof (induction rule: reachable.induct)
  case (event s e s')
  then show ?case using exec_ok [of written l s B unread W e] by (simp add: run_ok_def)
qed (rule sys_inv_new)

end

end
