(* ===== verification/System_Props.thy ===== *)
theory System_Props
  imports System_Inv Scheduling
begin

text \<open>What holds of a connection in every reachable state, whatever the application, the peer and the scheduling of the tasks do.\<close>

section \<open>Runs\<close>

fun run_events :: "'b buf_ops \<Rightarrow> 'o writer_buf \<Rightarrow> 's sem_ops \<Rightarrow> 'b event list \<Rightarrow> ('s, 'o) system \<Rightarrow> ('s, 'o) system run" where
  "run_events B W S [] s = Done s"
| "run_events B W S (e # es) s = (case exec B W S e s of Done s' \<Rightarrow> run_events B W S es s' | Panic \<Rightarrow> Panic)"

lemma reachable_run: "reachable B W S m l s \<Longrightarrow> run_events B W S es s = Done s' \<Longrightarrow> reachable B W S m l s'"
  by (induction es arbitrary: s) (auto split: run.splits intro: reachable.event)

text \<open>A client that has opened a stream.\<close>

definition demo_client :: "(nat \<times> bool) connection" where
  "demo_client = (case connection_new counting_ops (2 ^ 61 - 1) default_limits True None of Inr c \<Rightarrow> c)"

definition demo_opened :: "(nat \<times> bool, bytes) system" where
  "demo_opened = \<lparr> conn = demo_client\<lparr>next_local_stream_id := 2,
       objects := [0 \<mapsto> (stream_state_new counting_ops 262144 262144 1 8)\<lparr>send_handles := 1, recv_handles := 1\<rparr>], streams := {0},
       writer := queues_new\<lparr>control := [Settings (VarInt 4194304) (VarInt 262144) (VarInt 65536), OpenStream (VarInt 0)], receive_windows := {0}\<rparr>,
       open_streams := (127, False), stats := (stats demo_client)\<lparr>opened_streams := 1\<rparr>\<rparr>,
     sends = [send_stream_new 0], recvs = [recv_stream_new 0], calls = [], opens = [], writing = WIdle, wire = [],
     reading = True, ticking = False, cleaning = Some [] \<rparr>"

lemma demo_client_new: "connection_new counting_ops (2 ^ 61 - 1) default_limits True None = Inr demo_client"
  using connection_new_ok [of "2 ^ 61 - 1" default_limits counting_ops True None] default_limits_valid [of "2 ^ 61 - 1"]
  by (auto simp: demo_client_def validate_iff)

text \<open>A run cannot panic.\<close>

lemma reachable_runs:
  assumes S: "semaphore S free is_closed waiting" and B: "buf B unread" and W: "writer_buffer W written" and s: "reachable B W S m l s"
  shows "\<exists>s'. run_events B W S es s = Done s' \<and> reachable B W S m l s'"
  using s
proof (induction es arbitrary: s)
  case (Cons e es)
  have "run_ok free waiting written l (exec B W S e s)"
    by (rule semaphore.exec_ok [OF S semaphore.reachable_inv [OF S Cons.prems B W] B W])
  then obtain s' where s': "exec B W S e s = Done s'" by (auto simp: run_ok_def)
  then show ?case using Cons.IH [OF reachable.event [OF Cons.prems s']] by simp
qed simp

lemmas demo_instances = counting.semaphore_axioms bytes_buf.buf_axioms bw.writer_buffer_axioms

lemma demo_client_eq: "demo_client = \<lparr> limits = default_limits, local_parity = 0, next_local_stream_id = 0,
    next_remote_stream_id = 1, open_locked = False, objects = Map.empty, streams = {}, incoming_streams = [],
    writer = queues_new\<lparr>control := [Settings (VarInt 4194304) (VarInt 262144) (VarInt 65536)]\<rparr>,
    c_window = rw_new 4194304, closed = False, terminated = False, joined = False, cleanup_started = False,
    open_streams = (128, False), inbound_conn_bytes = (4194304, False), outbound_conn_bytes = (4194304, False),
    outbound_frames = (1024, False),
    stats = \<lparr> opened_streams = 0, frames_sent = 0, frames_received = 0, bytes_sent = 0, bytes_received = 0 \<rparr>,
    connection_handles = 1, peer_identity = None \<rparr>"
proof -
  have v: "validate (2 ^ 61 - 1) default_limits = Inr ()" by (rule default_limits_valid) simp
  have f: "settings_frame default_limits = Some (Settings (VarInt 4194304) (VarInt 262144) (VarInt 65536))"
    by (simp add: settings_frame_def default_limits_def from_u64_def varint_MAX_def as_u64_def)
  show ?thesis
    unfolding demo_client_def connection_new_def v f by (simp add: Let_def default_limits_def counting_simps)
qed

lemma demo_run:
  "run_events bytes_ops bytes_writer counting_ops [OpenBi, PollOpen 0] (system_new demo_client False) = Done demo_opened"
  unfolding demo_opened_def demo_client_eq system_new_def run_events.simps exec.simps
  by (simp add: open_event_def open_lock_stage_def open_permit_stage_def open_finish_def ensure_open_def counting_simps Let_def
      take_stream_id_def from_u64_def varint_MAX_def settle_def new_handles_def remove_nth_def add_handles_def count_opened_def
      register_stream_def on_stream_def on_queues_def stream_state_new_def frames_per_stream_def default_limits_def queues_new_def)

lemma demo_reachable: "reachable bytes_ops bytes_writer counting_ops (2 ^ 61 - 1) default_limits demo_opened"
  by (rule reachable_run [OF reachable.start [OF demo_client_new] demo_run])

section \<open>Properties\<close>

lemma card_streams_le:
  assumes "open_inv free c" "streams c \<subseteq> dom (objects c)" "finite (dom (objects c))"
  shows "card (streams c) \<le> max_open_streams (limits c)"
proof -
  have "held (open_permit (the (objects c sid))) = 1" if "sid \<in> streams c" for sid
    using assms(1) that by (auto simp: open_inv_def held_def)
  then have "card (streams c) = (\<Sum>sid\<in>streams c. held (open_permit (the (objects c sid))))" by simp
  also have "\<dots> \<le> open_load c" unfolding open_load_def using assms(2,3) by (intro sum_mono2) auto
  finally show ?thesis using assms(1) by (simp add: open_inv_def)
qed

text \<open>The parts of the invariant, for a reachable state.\<close>

lemma reachable_parts:
  assumes "semaphore S free is_closed waiting" "buf B unread" "writer_buffer W written" "reachable B W S m l s"
  shows "limits (conn s) = l" "queues_inv (conn s)" "inbound_inv free waiting (holds (recvs s)) (conn s)" "ids_inv (conn s)"
    "open_inv free (conn s)" "settings_inv (conn s)" "list_all (send_ok (conn s)) (sends s)" "list_all (recv_ok (conn s)) (recvs s)"
    "list_all (call_ok (conn s)) (calls s)"
  using semaphore.reachable_inv [OF assms(1,4,2,3)] by (simp_all add: sys_inv_def conn_inv_def streams_inv_def)

text \<open>C1 (safety): no sequence of calls and polls by the application, of frames from the peer, valid or not, and of turns
  of the tasks, in whatever order, makes any part of the connection panic; and all that was handed to the transport are
  encodings of well-formed frames within the local frame size.\<close>

theorem system_safe:
  assumes "semaphore S free is_closed waiting" "buf B unread" "writer_buffer W written" "reachable B W S m l s"
  shows "(\<exists>s'. exec B W S e s = Done s') \<and>
    (\<forall>(f, b) \<in> set (wire s). wf_frame f \<and> written b = frame_bytes f \<and> length (written b) \<le> max_frame_size l)"
proof -
  have inv: "sys_inv free waiting written l s" by (rule semaphore.reachable_inv [OF assms(1,4,2,3)])
  then have "list_all (wire_ok written l) (wire s)" by (simp add: sys_inv_def)
  then show ?thesis
    using semaphore.exec_ok [OF assms(1) inv assms(2,3), of e] by (auto simp: run_ok_def list_all_iff wire_ok_def)
qed

theorem system_safe_witness:
  "\<exists>s'. exec bytes_ops bytes_writer counting_ops (WriteChunk 0 [1, 2, 3]) demo_opened = Done s'"
  using system_safe [OF demo_instances demo_reachable] by blast



text \<open>C5 (invariant): no permit is lost or duplicated. In every reachable state the free permits of a budget and those held by
  streams, queued chunks and readers' remainders add up to its limit; in particular every stream in the table holds one
  permit of the stream budget, and whatever a peer sends, resets or abandons, the budget comes back.\<close>

theorem permits_conserved:
  assumes "semaphore S free is_closed waiting" "buf B unread" "writer_buffer W written" "reachable B W S m l s"
  shows "free (open_streams (conn s)) + open_load (conn s) = max_open_streams l
    \<and> (\<forall>sid \<in> streams (conn s). map_option open_permit (objects (conn s) sid) = Some (Some 1))
    \<and> free (inbound_conn_bytes (conn s)) + inbound_load (holds (recvs s)) (conn s) = max_inbound_connection_bytes l
    \<and> (\<forall>sid st. objects (conn s) sid = Some st \<longrightarrow>
         free (inbound_stream_bytes st) + (stream_load st + holds (recvs s) sid) = max_inbound_stream_bytes l)"
  using reachable_parts(1,3,5) [OF assms] by (auto simp: open_inv_def inbound_inv_def conn_account_def stream_account_def)

theorem permits_conserved_witness:
  "fst (open_streams (conn demo_opened)) + open_load (conn demo_opened) = 128 \<and> fst (open_streams (conn demo_opened)) = 127"
  using permits_conserved [OF demo_instances demo_reachable] by (simp add: default_limits_def) (simp add: demo_opened_def)

text \<open>C6 (type): every reference is good, in every reachable state: the stream table, the accept queue, the queues of the writer,
  the handles of the application and the pending calls refer to existing stream states. Identifiers in use were issued:
  they are below the counter of their parity, so that none is issued twice.\<close>

theorem references_valid:
  assumes "semaphore S free is_closed waiting" "buf B unread" "writer_buffer W written" "reachable B W S m l s"
  shows "streams (conn s) \<union> set (incoming_streams (conn s)) \<union> fst ` set (by_stream (writer (conn s))) \<union> set (ready (writer (conn s)))
      \<union> ss_id ` set (sends s) \<union> rs_id ` set (recvs s) \<union> fst ` set (calls s) \<subseteq> dom (objects (conn s))
    \<and> (\<forall>sid \<in> dom (objects (conn s)). sid \<le> varint_MAX \<and>
         sid < (if sid mod 2 = local_parity (conn s) then next_local_stream_id (conn s) else next_remote_stream_id (conn s)))"
proof -
  note p = reachable_parts [OF assms]
  have "fst ` set (by_stream (writer (conn s))) \<subseteq> dom (objects (conn s))"
  proof
    fix sid assume "sid \<in> fst ` set (by_stream (writer (conn s)))"
    then obtain chs where "map_of (by_stream (writer (conn s))) sid = Some chs" by (metis map_of_eq_None_iff not_None_eq)
    from queues_invD(3) [OF p(2) this] show "sid \<in> dom (objects (conn s))" by (auto simp: stream_queue_ok_def split: option.splits)
  qed
  moreover have "set (ready (writer (conn s))) = fst ` set (by_stream (writer (conn s)))" using queues_invD(1) [OF p(2)] by (simp add: ready_ok_def)
  moreover have "ss_id ` set (sends s) \<union> rs_id ` set (recvs s) \<union> fst ` set (calls s) \<subseteq> dom (objects (conn s))"
    using p(7-9) by (auto simp: list_all_iff send_ok_def recv_ok_def call_ok_def)
  moreover have "sid \<le> varint_MAX \<and> sid < id_limit (conn s) sid" if "sid \<in> dom (objects (conn s))" for sid
    using that p(4) queues_invD(4) [OF p(2)] by (auto simp: ids_inv_def)
  ultimately show ?thesis using p(4) by (simp add: ids_inv_def id_limit_def)
qed

theorem references_valid_witness:
  "rs_id ` set (recvs demo_opened) \<subseteq> dom (objects (conn demo_opened)) \<and> rs_id ` set (recvs demo_opened) = {0}"
  using references_valid [OF demo_instances demo_reachable] by simp (simp add: demo_opened_def recv_stream_new_def)

text \<open>C10 (invariant): an endpoint never sends more than its peer allowed. In every reachable state the bytes sent are within the
  connection's limit and, stream by stream, within the larger of the stream's limit and the announced initial one; before
  the peer's SETTINGS arrived no byte of stream data has been sent.\<close>

theorem sender_within_credit:
  assumes "semaphore S free is_closed waiting" "buf B unread" "writer_buffer W written" "reachable B W S m l s"
  shows "w_sent (writer (conn s)) \<le> peer_limit (writer (conn s))
    \<and> (\<forall>sid st. objects (conn s) sid = Some st \<longrightarrow>
         s_sent st \<le> max (s_peer_limit st) (peer_initial_stream_limit (writer (conn s))))
    \<and> (\<not> peer_settings (writer (conn s)) \<longrightarrow> w_sent (writer (conn s)) = 0
         \<and> (\<forall>sid st. objects (conn s) sid = Some st \<longrightarrow> s_sent st = 0))"
proof -
  note p = reachable_parts [OF assms]
  have w: "w_sent (writer (conn s)) \<le> peer_limit (writer (conn s))" by (rule queues_invD(7) [OF p(2)])
  have st: "s_sent st \<le> max (s_peer_limit st) (peer_initial_stream_limit (writer (conn s)))" if "objects (conn s) sid = Some st" for sid st
    using queues_invD(6) [OF p(2) that] by (simp add: stream_credit_ok_def)
  show ?thesis using w st p(6) by (fastforce simp: settings_inv_def)
qed

theorem sender_within_credit_witness:
  "w_sent (writer (conn demo_opened)) \<le> peer_limit (writer (conn demo_opened)) \<and> peer_limit (writer (conn demo_opened)) = 0"
  using sender_within_credit [OF demo_instances demo_reachable] by simp (simp add: demo_opened_def queues_new_def)

end
