(* ===== verification/History.thy ===== *)
theory History
  imports System
begin

text \<open>
  What an observer of an endpoint records: the items that the reader took from the transport, the bytes that the sending
  halves accepted and those that the receiving halves handed to the application, in order, and whether the end of a
  stream was reported. The record does not influence the endpoint.
\<close>

record 'b history =
  items :: "'b list"
  accepted :: "u64 \<Rightarrow> bytes"
  delivered :: "u64 \<Rightarrow> bytes"
  finished :: "u64 \<Rightarrow> bool"

definition history_new :: "'b history" where
  "history_new = \<lparr> items = [], accepted = (\<lambda>_. []), delivered = (\<lambda>_. []), finished = (\<lambda>_. False) \<rparr>"

text \<open>A write is accepted when its future returns \<open>Ok\<close>. The future of \<open>write_chunk\<close> and \<open>finish\<close> is the call itself; that of
  \<open>poll_write\<close> is stored and polled by the next operation on the half.\<close>

definition pending_write :: "send_stream \<Rightarrow> (u64 \<times> bytes) option" where
  "pending_write h = map_option (\<lambda>(payload, _). (ss_id h, payload)) (write_fut h)"

fun accepted_by :: "'s sem_ops \<Rightarrow> 'b event \<Rightarrow> ('s, 'o) system \<Rightarrow> (u64 \<times> bytes) option" where
  "accepted_by S (PollCall i) s =
     (if i < length (calls s)
      then case calls s ! i of (sid, payload, fin, stage) \<Rightarrow>
        (case fst (poll_call S sid payload fin stage (conn s)) of Inl (Inr _) \<Rightarrow> Some (sid, payload) | _ \<Rightarrow> None)
      else None)"
| "accepted_by S (PollWrite j src) s =
     (if j < length (sends s)
      then case fst (poll_write S (sends s ! j) src (conn s)) of
          Ready (Inr n) \<Rightarrow> if n = 0 then None else pending_write (sends s ! j)
        | _ \<Rightarrow> None
      else None)"
| "accepted_by S (PollFlush j) s =
     (if j < length (sends s)
      then case fst (poll_flush S (sends s ! j) (conn s)) of Ready (Inr _) \<Rightarrow> pending_write (sends s ! j) | _ \<Rightarrow> None
      else None)"
| "accepted_by S (PollShutdown j) s =
     (if j < length (sends s) \<and> \<not> shutdown_complete (sends s ! j)
      then case fst (poll_flush S (sends s ! j) (conn s)) of Ready (Inr _) \<Rightarrow> pending_write (sends s ! j) | _ \<Rightarrow> None
      else None)"
| "accepted_by S _ s = None"

text \<open>The bytes that a read returned, and whether it reported the end of the stream.\<close>

fun read_by :: "'s sem_ops \<Rightarrow> 'b event \<Rightarrow> ('s, 'o) system \<Rightarrow> (u64 \<times> bytes \<times> bool) option" where
  "read_by S (PollRead j room) s =
     (if j < length (recvs s)
      then case fst (poll_read S room (recvs s ! j) (conn s)) of
          Ready (Inr bs) \<Rightarrow> Some (rs_id (recvs s ! j), bs, bs = [] \<and> 0 < room)
        | _ \<Rightarrow> None
      else None)"
| "read_by S (ReadChunk j) s =
     (if j < length (recvs s)
      then case fst (recv_read_chunk S (recvs s ! j) (conn s)) of
          Ready (Inr (Some bs)) \<Rightarrow> Some (rs_id (recvs s ! j), bs, False)
        | Ready (Inr None) \<Rightarrow> Some (rs_id (recvs s ! j), [], True)
        | _ \<Rightarrow> None
      else None)"
| "read_by S _ s = None"

fun taken_by :: "'b buf_ops \<Rightarrow> 'b event \<Rightarrow> ('s, 'o) system \<Rightarrow> 'b list" where
  "taken_by B (Incoming bytes) s = (if reading s \<and> remaining B bytes \<le> max_frame_size (limits (conn s)) then [bytes] else [])"
| "taken_by B _ s = []"

definition on_id :: "(u64 \<times> bytes) option \<Rightarrow> u64 \<Rightarrow> bytes" where
  "on_id x sid = (case x of None \<Rightarrow> [] | Some (i, bs) \<Rightarrow> if i = sid then bs else [])"

definition observe :: "'b buf_ops \<Rightarrow> 's sem_ops \<Rightarrow> 'b event \<Rightarrow> ('s, 'o) system \<Rightarrow> 'b history \<Rightarrow> 'b history" where
  "observe B S e s h = h\<lparr> items := items h @ taken_by B e s,
     accepted := (\<lambda>sid. accepted h sid @ on_id (accepted_by S e s) sid),
     delivered := (\<lambda>sid. delivered h sid @ on_id (map_option (\<lambda>(i, bs, _). (i, bs)) (read_by S e s)) sid),
     finished := (\<lambda>sid. finished h sid \<or> (\<exists>bs. read_by S e s = Some (sid, bs, True))) \<rparr>"

text \<open>The states of a connection with what was observed on the way.\<close>

inductive recorded ::
  "'b buf_ops \<Rightarrow> 'o writer_buf \<Rightarrow> 's sem_ops \<Rightarrow> usize \<Rightarrow> limits \<Rightarrow> ('s, 'o) system \<Rightarrow> 'b history \<Rightarrow> bool"
  for B W S m l where
  start: "connection_new S m l is_client certs = Inr c \<Longrightarrow> recorded B W S m l (system_new c keepalive) history_new"
| event: "recorded B W S m l s h \<Longrightarrow> exec B W S e s = Done s' \<Longrightarrow> recorded B W S m l s' (observe B S e s h)"

lemma recorded_reachable: "recorded B W S m l s h \<Longrightarrow> reachable B W S m l s"
  by (induction rule: recorded.induct) (auto intro: reachable.intros)

lemma reachable_recorded: "reachable B W S m l s \<Longrightarrow> \<exists>h. recorded B W S m l s h"
  by (induction rule: reachable.induct) (auto intro: recorded.intros)

lemma on_id_simps [simp]: "on_id None sid = []" "on_id (Some (i, bs)) sid = (if i = sid then bs else [])"
  by (simp_all add: on_id_def)

end
