(* ===== verification/Transfer_Out.thy ===== *)
theory Transfer_Out
  imports System_Inv History
begin

text \<open>
  What happens to the bytes that the sending side of a stream accepted, from the queue of the writer to the transport.
  \<open>settles\<close> holds between the states before and after everything but an accepted write and the scheduler: a queue is
  unchanged, or it was dropped and nothing can be queued on the stream any more.
\<close>

section \<open>Queues that stay or are dropped for good\<close>

definition sealed :: "u64 \<Rightarrow> 's connection \<Rightarrow> bool" where
  "sealed sid c \<longleftrightarrow> closing (writer c) \<or> ended sid c"

definition lasts :: "'s connection \<Rightarrow> 's connection \<Rightarrow> bool" where
  "lasts c c' \<longleftrightarrow> (closing (writer c) \<longrightarrow> closing (writer c')) \<and> (\<forall>sid. ended sid c \<longrightarrow> ended sid c')"

definition settles :: "'s connection \<Rightarrow> 's connection \<Rightarrow> bool" where
  "settles c c' \<longleftrightarrow> lasts c c' \<and>
     (\<forall>sid. queue_of sid (writer c') = queue_of sid (writer c) \<or> queue_of sid (writer c') = [] \<and> sealed sid c')"

lemma lasts_evolves: "evolves c c' \<Longrightarrow> lasts c c'"
  using evolvesD(8) [of c c'] ended_evolves [of _ c c'] by (simp add: lasts_def)

lemma lasts_sealed: "lasts c c' \<Longrightarrow> sealed sid c \<Longrightarrow> sealed sid c'"
  by (auto simp: lasts_def sealed_def)

lemma settles_refl [simp]: "settles c c"
  by (simp add: settles_def lasts_def)

lemma settles_trans: "settles a b \<Longrightarrow> settles b c \<Longrightarrow> settles a c"
  using lasts_sealed [of b c] unfolding settles_def by (auto simp: lasts_def) metis+

lemma settles_same: "lasts c c' \<Longrightarrow> by_stream (writer c') = by_stream (writer c) \<Longrightarrow> settles c c'"
  by (simp add: settles_def queue_of_def)

lemma settles_clear: "lasts c c' \<Longrightarrow> by_stream (writer c') = [] \<Longrightarrow> closing (writer c') \<Longrightarrow> settles c c'"
  by (simp add: settles_def queue_of_def sealed_def)

text \<open>The building blocks.\<close>

named_theorems settling

lemma settlesI:
  assumes "settles c d" "by_stream (writer c') = by_stream (writer d)" "closing (writer d) \<longrightarrow> closing (writer c')"
    "id_limit c' = id_limit d"
    and objs: "\<And>i st'. objects c' i = Some st' \<Longrightarrow> \<exists>st. objects d i = Some st \<and> (send_terminal st \<longrightarrow> send_terminal st')"
  shows "settles c c'"
proof (rule settles_trans [OF assms(1) settles_same [OF _ assms(2)]])
  have "ended sid c'" if "ended sid d" for sid
    using that objs [of sid] unfolding ended_def assms(4) by blast
  then show "lasts d c'" using assms(3) by (simp add: lasts_def)
qed

lemma settles_on_stream [settling]:
  "settles c d \<Longrightarrow> (\<And>st. send_terminal st \<longrightarrow> send_terminal (f st)) \<Longrightarrow> settles c (on_stream sid f d)"
  by (erule settlesI) (auto simp: id_limit_def fun_eq_iff split: if_splits)

lemma settles_on_queues [settling]:
  "settles c d \<Longrightarrow> by_stream (g (writer d)) = by_stream (writer d) \<and> (closing (writer d) \<longrightarrow> closing (g (writer d)))
     \<Longrightarrow> settles c (on_queues g d)"
  by (erule settlesI) (auto simp: id_limit_def fun_eq_iff)

lemma settles_fields [settling]:
  assumes "settles c d"
  shows "settles c (d\<lparr>c_window := w\<rparr>)" "settles c (d\<lparr>inbound_conn_bytes := s\<rparr>)"
    "settles c (d\<lparr>outbound_conn_bytes := s\<rparr>)" "settles c (d\<lparr>outbound_frames := s\<rparr>)"
    "settles c (d\<lparr>open_streams := s\<rparr>)" "settles c (d\<lparr>stats := t\<rparr>)" "settles c (d\<lparr>open_locked := b\<rparr>)"
    "settles c (d\<lparr>streams := ids\<rparr>)" "settles c (d\<lparr>incoming_streams := xs\<rparr>)"
    "settles c (d\<lparr>connection_handles := n\<rparr>)" "settles c (d\<lparr>joined := b\<rparr>)"
    "settles c (d\<lparr>closed := b\<rparr>)" "settles c (d\<lparr>terminated := b\<rparr>)" "settles c (d\<lparr>cleanup_started := b\<rparr>)"
  by (rule settlesI [OF assms]; simp add: id_limit_def fun_eq_iff)+

lemma settles_credit: "credit_frame d c' \<Longrightarrow> settles c d \<Longrightarrow> settles c c'"
  by (erule settlesI) (auto simp: credit_frame_def id_limit_def fun_eq_iff)

lemma settles_drop_out [settling]: "settles c d \<Longrightarrow> settles c (drop_out_chunks S chs d)"
proof (induction chs arbitrary: d)
  case (Cons ch chs)
  have "settles c (drop_out_chunk S ch d)"
    unfolding drop_out_chunk_def by (intro settles_on_stream settles_fields Cons.prems) simp
  then show ?case using Cons.IH by simp
qed simp

lemma drop_out_chunks_on_queues: "drop_out_chunks S chs (on_queues g c) = on_queues g (drop_out_chunks S chs c)"
proof (induction chs arbitrary: c)
  case (Cons ch chs)
  have "drop_out_chunk S ch (on_queues g c) = on_queues g (drop_out_chunk S ch c)"
    by (simp add: drop_out_chunk_def on_queues_def on_stream_def)
  then show ?case using Cons.IH by simp
qed simp

section \<open>The operations\<close>

text \<open>The queues that closing and resetting drop.\<close>

lemma settles_closing [settling]:
  assumes "settles c d"
  shows "settles c (mark_closed S d)" "settles c (snd (initiate_close S code reason d))"
proof -
  have clear: "settles d (on_queues g d)" if "by_stream (g (writer d)) = []" "closing (g (writer d))" for g and d :: "'a connection"
    by (rule settles_clear) (use that in \<open>simp_all add: lasts_def ended_def id_limit_def\<close>)
  have ws: "settles c (writer_shutdown S d)" if "settles c d" for d
    unfolding writer_shutdown_def by (intro settles_drop_out settles_trans [OF that clear]) simp_all
  have objs: "settles c (d\<lparr>streams := {}, objects := (\<lambda>i. if i \<in> streams d
      then map_option (mark_connection_closed S) (objects d i) else objects d i)\<rparr>)" if "settles c d" for d
    by (rule settlesI [OF that]) (auto simp: mark_connection_closed_def id_limit_def fun_eq_iff split: if_splits)
  show "settles c (mark_closed S d)"
    unfolding mark_closed_def Let_def by (split if_split, intro conjI impI objs ws settles_fields assms)
  have "settles c (snd (initiate_close S code reason d))" if "\<not> closed d" "code \<noteq> 0"
    "fit_close_reason (limits d) code reason = Inr r" "error_code_from_u64 code = Inr e" for r e
  proof -
    let ?d = "drop_out_chunks S (all_chunks (writer d)) (on_queues (\<lambda>q. q\<lparr>by_stream := [], ready := [], control := []\<rparr>) (d\<lparr>closed := True\<rparr>))"
    let ?g = "\<lambda>q. q\<lparr>close_frame := Some (ConnectionClose e r), graceful_close := False, closing := True\<rparr>"
    let ?h = "\<lambda>q. ?g (q\<lparr>by_stream := [], ready := [], control := []\<rparr>)"
    have eq: "on_queues ?g ?d = drop_out_chunks S (all_chunks (writer d)) (on_queues ?h (d\<lparr>closed := True\<rparr>))"
      by (simp add: drop_out_chunks_on_queues) (simp add: on_queues_def)
    have "settles c (on_queues ?g ?d)"
      unfolding eq by (intro settles_drop_out settles_trans [OF settles_fields(12) [OF assms] clear]) simp_all
    then show ?thesis using that by (simp add: initiate_close_def Let_def settles_fields)
  qed
  then show "settles c (snd (initiate_close S code reason d))"
    using assms by (cases "code = 0"; cases "closed d")
      (auto simp: initiate_close_def Let_def split: sum.split intro!: settles_fields settles_on_queues)
qed

lemma settles_reset [settling]:
  assumes s: "settles c d" and ids: "used_ids d"
  shows "settles c (snd (reset_stream S sid code d))"
proof (cases "snd (reset_stream S sid code d) = d")
  case False
  then obtain v e st where v: "objects d sid = Some st"
    and r: "snd (reset_stream S sid code d) = on_stream sid (\<lambda>st. st\<lparr>send_terminal := True,
       outbound_stream_bytes := sem_close S (outbound_stream_bytes st)\<rparr>)
         (on_queues (\<lambda>q. q\<lparr>control := control q @ [ResetStream v e]\<rparr>)
           (remove_queue S sid (on_stream sid (\<lambda>st. st\<lparr>reset_queued := True\<rparr>) d)))" (is "_ = ?d")
    by (auto simp: reset_stream_def Let_def split: sum.splits option.splits if_splits)
  let ?e = "remove_queue S sid (on_stream sid (\<lambda>st. st\<lparr>reset_queued := True\<rparr>) d)"
  have step: "local_step d ?d"
    using local_step_control(3) [OF local_step_refl [OF ids], of S sid code] r by simp
  then have l: "lasts d ?d" by (auto simp: local_step_def intro: lasts_evolves)
  have q: "queue_of i (writer ?d) = (if i = sid then [] else queue_of i (writer d))" for i
    by (simp add: remove_queue_def queue_of_def AList.delete_conv')
  have "sid < id_limit d sid" using ids v by (auto simp: used_ids_def)
  also have "\<dots> \<le> id_limit ?d sid" using step unfolding local_step_def by (blast intro: id_limit_mono)
  finally have "ended sid ?d" by (auto simp: ended_def)
  then have "settles d ?d" using l q by (simp add: settles_def sealed_def)
  then show ?thesis using s settles_trans unfolding r by blast
qed (use s in simp)

lemma settles_flags [settling]:
  assumes "settles c d"
  shows "settles c (add_handles sid d)" "settles c (mark_recv_terminal sid d)" "settles c (release_send sid d)"
    "settles c (release_recv sid d)" "settles c (set_send_locked sid b d)" "settles c (release_outbound S sid m n j k d)"
    "settles c (release_open_permit S sid d)" "settles c (record_received n d)" "settles c (record_sent n d)"
    "settles c (snd (enqueue_control f d))" "settles c (drop_queue S sid payload stage d)"
proof -
  have lock: "settles c (set_send_locked sid b d)" if "settles c d" for d b
    unfolding set_send_locked_def using that by (rule settles_on_stream) simp
  have rel: "settles c (release_outbound S sid m n j k d)" for m n j k
    unfolding release_outbound_def by (intro settles_on_stream settles_fields assms) simp
  show "settles c (set_send_locked sid b d)" "settles c (release_outbound S sid m n j k d)" by (rule lock [OF assms], rule rel)
  show "settles c (drop_queue S sid payload stage d)"
    using assms by (cases stage) (simp_all add: lock rel)
qed (use assms in \<open>auto simp: add_handles_def mark_recv_terminal_def release_send_def release_recv_def release_open_permit_def
    record_received_def record_sent_def enqueue_control_def Let_def case_prod_beta split: option.split
    intro!: settles_on_stream settles_fields settles_on_queues\<close>)

lemma settles_try_retire [settling]: "settles c d \<Longrightarrow> settles c (try_retire_stream S sid d)"
  unfolding try_retire_stream_def Let_def
  by (auto split: option.split intro!: settles_on_queues settles_fields settles_flags)

lemma settles_inbound [settling]:
  assumes "settles c d"
  shows "settles c (mark_reset S sid code d)" "settles c (discard_inbound S sid d)" "settles c (snd (push_inbound S sid p d))"
    "settles c (snd (receive_both sid n d))" "settles c (snd (read_chunk sid d))"
proof -
  show "settles c (mark_reset S sid code d)" "settles c (discard_inbound S sid d)" "settles c (snd (read_chunk sid d))"
    unfolding mark_reset_def discard_inbound_def read_chunk_def on_inbound_def using assms
    by (auto split: option.split list.split intro!: settles_credit [OF credit_frame_drops] settles_on_stream)
  have ch: "settles c (on_inbound sid (\<lambda>i. i\<lparr>chunks := cs\<rparr>) d)" for cs
    unfolding on_inbound_def using assms by (rule settles_on_stream) simp
  show "settles c (snd (push_inbound S sid p d))"
  proof (cases "objects d sid")
    case (Some st)
    then show ?thesis using credit_frame_push [OF Some, of S p] ch by (blast intro: settles_credit)
  qed (use assms in \<open>simp add: push_inbound_def\<close>)
  show "settles c (snd (receive_both sid n d))"
    unfolding receive_both_def Let_def case_prod_beta using assms
    by (auto split: sum.split option.split intro!: settles_on_stream settles_fields)
qed

lemma settles_remote [settling]:
  assumes "settles c d"
  shows "settles c (snd (on_remote_stream_frame S sid payload fin d))" "settles c (snd (on_remote_reset S sid code d))"
proof -
  obtain r d1 where r: "receive_both sid (length payload) d = (r, d1)" by fastforce
  have d1: "settles c d1" using settles_inbound(4) [OF assms, of sid "length payload"] r by simp
  obtain r2 d2 where r2: "(if payload \<noteq> [] then push_inbound S sid payload else ok ()) d1 = (r2, d2)" by fastforce
  have d2: "settles c d2"
    using d1 settles_inbound(3) [OF d1, of S sid payload] r2 by (auto simp: ok_def split: if_splits)
  show "settles c (snd (on_remote_stream_frame S sid payload fin d))"
    using assms d1 d2 unfolding on_remote_stream_frame_def and_then_def r r2 prod.case
    by (auto simp: r2 split: option.split sum.split intro!: settles_try_retire settles_flags)
  show "settles c (snd (on_remote_reset S sid code d))"
    using assms unfolding on_remote_reset_def
    by (auto split: option.split sum.split intro!: settles_try_retire settles_flags settles_inbound)
qed

lemma used_ids_on_stream [simp]: "used_ids (on_stream sid f c) = used_ids c"
  by (auto simp: used_ids_def id_limit_def dom_def split: if_splits)

lemma settles_cleanup:
  assumes "settles c d" "used_ids d"
  shows "settles c (snd (cleanup_stream S sid d))"
proof -
  have s: "settles c (snd (cleanup_send S sid d))"
    using assms by (auto simp: cleanup_send_def handle_last_send_drop_def Let_def split: option.split
        intro!: settles_try_retire settles_reset settles_on_stream)
  have r: "settles c (snd (cleanup_recv S sid e))" if "settles c e" for e
    using that by (auto simp: cleanup_recv_def handle_last_recv_drop_def Let_def case_prod_beta split: option.split sum.split
        intro!: settles_try_retire settles_flags settles_on_stream settles_inbound settles_closing)
  show ?thesis
    using s r [of "snd (cleanup_send S sid d)"] by (cases "cleanup_send S sid d" rule: action_cases) (simp_all add: cleanup_stream_def and_then_def)
qed

lemma settles_tasks:
  shows "settles c (snd (keepalive_tick S c))" "settles c (supervisor_check S c)" "settles c (supervisor_deadline S c)"
    "settles c (supervisor_finish S c)" "settles c (writer_exit S c)" "settles c (snd (writer_sent W S f b sent c))"
    "settles c (reader_eof S c)" "settles c (reader_idle S c)"
  unfolding keepalive_tick_def supervisor_check_def supervisor_deadline_def supervisor_finish_def writer_exit_def writer_sent_def
    reader_eof_def reader_idle_def frame_sent_def Let_def case_prod_beta
  by (auto split: option.split intro!: settles_flags settles_closing settles_fields settles_try_retire settles_on_stream)

lemma settles_calls:
  shows "settles c (snd (connection_close S reason c))" "settles c (connection_abort c)" "settles c (connection_clone c)"
    "settles c (connection_drop c)" "settles c (drop_open stage c)" "settles c (snd (accept_bi c))" "settles c (drop_call S sid p g c)"
    "settles c (drop_send_stream S h c)" "settles c (drop_recv_stream S k c)"
proof -
  show "settles c (drop_open stage c)" by (cases stage) (simp_all add: settles_fields)
  show "settles c (drop_call S sid p g c)" by (cases g) (simp_all add: settles_flags)
qed (auto simp: connection_close_def connection_abort_def connection_clone_def connection_drop_def accept_bi_def drop_send_stream_def
    drop_recv_stream_def Let_def split: sum.split list.split option.split
    intro!: settles_flags settles_closing settles_fields settles_credit [OF credit_frame_drop])

text \<open>Reading does not touch the writer.\<close>

lemma read_from_credit: "credit_frame c (snd (read_from S sid ch room c))"
proof (cases "rb_advance (min (length (rb_deref (data ch))) room) (data ch)")
  case (Done d)
  let ?n = "min (length (rb_deref (data ch))) room"
  have f: "credit_frame c (snd (chunk_consume S sid ?n (ch\<lparr>data := d\<rparr>) c))" by (rule credit_frame_consume)
  show ?thesis
    using f credit_frame_trans [OF f credit_frame_drop] unfolding read_from_def Let_def Done run.case case_prod_beta
    by (split if_split) simp
qed (simp add: read_from_def Let_def)

lemma credit_frame_into_bytes: "credit_frame c (snd (chunk_into_bytes S sid ch c))"
  using credit_frame_trans [OF credit_frame_consume credit_frame_drop]
  by (simp add: chunk_into_bytes_def case_prod_beta Let_def)

text \<open>What the steps of reading preserve, the loop preserves.\<close>

lemma read_loop_steps:
  assumes refl: "\<And>c. R c c" and trans: "\<And>a b c. R a b \<Longrightarrow> R b c \<Longrightarrow> R a c" and credit: "\<And>c c'. credit_frame c c' \<Longrightarrow> R c c'"
    and read: "\<And>c. R c (snd (read_chunk sid c))"
  shows "rs_id h = sid \<Longrightarrow> R c (snd (snd (read_loop S room h c)))"
proof (induction S room h c rule: read_loop.induct)
  case (1 S room h c)
  show ?case
  proof (cases "read_buf h")
    case (Some ch)
    have d: "R c (drop_chunk S (rs_id h) ch c)" by (rule credit [OF credit_frame_drop])
    have f: "R c (snd (read_from S (rs_id h) ch room c))" by (rule credit [OF read_from_credit])
    show ?thesis
      using 1(2) [OF Some] 1(3) Some trans [OF d] f
      by (auto simp: read_loop.simps [of S room h] split: prod.split run.split)
  next
    case None
    obtain r d where r: "read_chunk (rs_id h) c = (r, d)" by fastforce
    then have d: "R c d" using read [of c] 1(3) by simp
    consider "eof h" | ch where "\<not> eof h" "r = Ready (Inr (Some ch))" | "\<not> eof h" "\<And>ch. r \<noteq> Ready (Inr (Some ch))" by blast
    then show ?thesis
    proof cases
      case 2
      have "R d (snd (snd (read_loop S room (h\<lparr>read_fut := False, read_buf := Some ch, read_pos := 0\<rparr>) d)))"
        using 1(1) [OF None 2(1) r [symmetric] 2(2)] 1(3) by simp
      then show ?thesis using trans [OF d] None 2 r by (simp add: read_loop.simps [of S room h])
    next
      case 3
      then show ?thesis using d None r by (auto simp: read_loop.simps [of S room h] split: poll.split sum.split option.split)
    qed (use refl None in \<open>simp add: read_loop.simps [of S room h]\<close>)
  qed
qed

lemma settles_read:
  shows "settles c (snd (snd (poll_read S room h c)))" "settles c (snd (recv_read_chunk S h c))"
proof -
  have mode: "settles c (snd (select_recv_mode (rs_id h) m c))" for m and c :: "'a connection"
    by (auto simp: select_recv_mode_def split: option.split sum.split prod.split intro!: settles_on_stream)
  have loop: "settles c (snd (snd (read_loop S room h c)))" for c :: "'a connection"
    by (rule read_loop_steps [of settles "rs_id h"])
      (auto intro: settles_trans settles_credit settles_inbound)
  show "settles c (snd (snd (poll_read S room h c)))"
    using mode [of c 2] settles_trans [OF mode loop, of c 2]
    by (cases "select_recv_mode (rs_id h) 2 c" rule: action_cases) (simp_all add: poll_read_def)
  have bytes: "settles c d'" if "settles c d" "chunk_into_bytes S (rs_id h) ch d = (bs, d')" for ch bs and d d' :: "'a connection"
    using settles_credit [OF credit_frame_into_bytes that(1), of S "rs_id h" ch] that(2) by simp
  show "settles c (snd (recv_read_chunk S h c))"
  proof (cases "select_recv_mode (rs_id h) 1 c" rule: action_cases)
    case (returned u d)
    have d: "settles c d" using mode [of c 1] returned by simp
    obtain r e where e: "read_chunk (rs_id h) d = (r, e)" by fastforce
    have "settles c e" using settles_inbound(5) [OF d, of "rs_id h"] e by simp
    then show ?thesis
      using bytes [of e] unfolding recv_read_chunk_def returned by (auto simp: e split: poll.split sum.split option.split prod.split)
  qed (use mode [of c 1] in \<open>simp add: recv_read_chunk_def\<close>)
qed

text \<open>A frame of the peer.\<close>

lemma settles_accept_frame:
  assumes e: "evolves c (snd (accept_frame S f c))" and ids: "used_ids c"
  shows "settles c (snd (accept_frame S f c))"
proof (cases "\<exists>v. f = OpenStream v")
  case True
  then obtain v where v: "f = OpenStream v" by blast
  have "by_stream (writer (snd (on_remote_open S sid c))) = by_stream (writer c)" for sid
    by (auto simp: on_remote_open_def register_stream_def count_opened_def Let_def split: prod.split sem_result.split)
  then have "by_stream (writer (snd (accept_frame S f c))) = by_stream (writer c)"
    unfolding v by (auto simp: accept_frame_def and_then_def ok_def split: prod.split sum.split) (metis snd_conv)+
  then show ?thesis by (rule settles_same [OF lasts_evolves [OF e]])
next
  case False
  have then_ok: "settles c (snd (and_then a (\<lambda>_. ok True) c))" if "settles c (snd (a c))" for a :: "('a connection, fault, unit) action"
    using that by (cases "a c" rule: action_cases) (simp_all add: and_then_def ok_def)
  have "settles c (snd (handle_frame S f c))"
    using False ids by (cases f) (auto simp: on_settings_def on_max_data_def on_max_stream_data_def on_stop_sending_def ok_def
        intro!: then_ok settles_on_queues settles_on_stream settles_reset settles_remote settles_closing)
  then show ?thesis by (simp add: accept_frame_def)
qed

lemma settles_open:
  assumes "evolves c (snd (poll_open_bi S stage c))"
  shows "settles c (snd (poll_open_bi S stage c))"
proof -
  define q where "q d \<longleftrightarrow> by_stream (writer d) = by_stream (writer c) \<or> by_stream (writer d) = [] \<and> closing (writer d)" for d :: "'a connection"
  have mc: "q (mark_closed S d)" if "q d" for d
    using that by (auto simp: q_def mark_closed_def writer_shutdown_def Let_def)
  have fin: "q (snd (open_finish S d))" if "q d" for d
    using that mc [OF that] by (auto simp: open_finish_def Let_def register_stream_def count_opened_def add_handles_def q_def
        split: prod.split sum.split)
  have perm: "q (snd (open_permit_stage S d))" if "q d" for d
    using that fin [of "d\<lparr>open_streams := x\<rparr>" for x]
    by (auto simp: open_permit_stage_def Let_def case_prod_beta q_def split: sem_result.split)
  have lock: "q (snd (open_lock_stage S c))"
    using perm [of "c\<lparr>open_locked := True\<rparr>"] by (auto simp: open_lock_stage_def q_def split: sum.split)
  have "q (snd (poll_open_bi S stage c))"
    using lock perm [of c] by (cases stage) (auto simp: q_def split: sum.split)
  then show ?thesis
    using settles_same [OF lasts_evolves [OF assms]] settles_clear [OF lasts_evolves [OF assms]] by (auto simp: q_def)
qed

section \<open>Accepting a write\<close>

definition enqueues :: "u64 \<Rightarrow> bytes \<Rightarrow> bool \<Rightarrow> 's connection \<Rightarrow> 's connection \<Rightarrow> bool" where
  "enqueues sid p fin c c' \<longleftrightarrow> \<not> sealed sid c
     \<and> (\<exists>ch. out_payload ch = p \<and> out_fin ch = fin \<and> queue_of sid (writer c') = queue_of sid (writer c) @ [ch])
     \<and> (\<forall>i. i \<noteq> sid \<longrightarrow> queue_of i (writer c') = queue_of i (writer c))"

text \<open>A poll of \<open>send_stream_chunk\<close> queues exactly its chunk and returns \<open>Ok\<close>, or leaves the queues as they are; \<open>Ok\<close>
  without queueing is the answer to the empty write.\<close>

definition send_outcome :: "u64 \<Rightarrow> bytes \<Rightarrow> bool \<Rightarrow> 's connection \<Rightarrow> ((fault + unit) + queue_stage) \<times> 's connection \<Rightarrow> bool" where
  "send_outcome sid p fin c r \<longleftrightarrow>
     (if fst r = Inl (Inr ()) \<and> (p \<noteq> [] \<or> fin) then enqueues sid p fin c (snd r)
      else by_stream (writer (snd r)) = by_stream (writer c))"

definition send_view :: "u64 \<Rightarrow> 's connection \<Rightarrow> (u64 \<times> outbound_chunk list) list \<times> bool \<times> bool option" where
  "send_view sid c = (by_stream (writer c), closing (writer c), map_option send_terminal (objects c sid))"

lemma send_view_frame [simp]:
  "send_view sid (set_send_locked i b c) = send_view sid c"
  "send_view sid (release_outbound S i m n j k c) = send_view sid c"
  "send_view sid (c\<lparr>outbound_frames := x\<rparr>) = send_view sid c"
  "send_view sid (c\<lparr>outbound_conn_bytes := x\<rparr>) = send_view sid c"
  "send_view sid (on_stream i (\<lambda>st. st\<lparr>outbound_stream_frames := x\<rparr>) c) = send_view sid c"
  "send_view sid (on_stream i (\<lambda>st. st\<lparr>outbound_stream_bytes := x\<rparr>) c) = send_view sid c"
  "send_view sid (drop_out_chunk S ch c) = send_view sid c"
  by (auto simp: send_view_def set_send_locked_def release_outbound_def drop_out_chunk_def option.map_comp comp_def)

lemma send_outcome_same: "send_view sid d = send_view sid c \<Longrightarrow> x \<noteq> Inl (Inr ()) \<Longrightarrow> send_outcome sid p fin c (x, d)"
  by (simp add: send_outcome_def send_view_def)

lemma queue_finish_outcome:
  assumes v: "send_view sid d = send_view sid c" and o: "objects c sid \<noteq> None" "p \<noteq> [] \<or> fin" and r: "queue_finish S sid p fin d = (r, d')"
  shows "send_outcome sid p fin c (Inl r, d')"
proof (cases "ensure_open d")
  case (Inl e)
  then show ?thesis using v r by (auto simp: queue_finish_def Let_def intro!: send_outcome_same)
next
  case (Inr u)
  define ch where "ch = \<lparr>out_state = sid, frame_permit = 1, stream_frame_permit = 1, out_stream_id = VarInt sid, out_payload = p,
    out_fin = fin, out_conn_permit = byte_permit p, out_stream_permit = byte_permit p\<rparr>"
  have ch: "out_payload ch = p" "out_fin ch = fin" "out_state ch = sid" by (simp_all add: ch_def)
  have f: "queue_finish S sid p fin d = (let (enqueued, c) = enqueue_data S sid ch d
           in if \<not> enqueued
              then (Inl (Fail (Protocol ''stream or connection closed before enqueue'')), set_send_locked sid False c)
              else (Inr (), set_send_locked sid False
                     (if fin then on_stream sid (\<lambda>st. st\<lparr>send_terminal := True\<rparr>) c else c)))"
    using Inr by (simp add: queue_finish_def Let_def ch_def)
  show ?thesis
  proof (cases "fst (enqueue_data S sid ch d)")
    case True
    then have n: "\<not> closing (writer d)" "\<not> (\<exists>st. objects d sid = Some st \<and> send_terminal st)"
      by (auto simp: enqueue_data_def ch(3) split: if_splits option.splits)
    then have "\<not> sealed sid c" using v o by (auto simp: sealed_def ended_def send_view_def)
    then have "enqueues sid p fin c d'"
      using True n r v ch by (auto simp: f enqueue_data_def enqueues_def Let_def queue_of_def AList.update_conv' set_send_locked_def
          send_view_def split: if_splits)
    moreover have "r = Inr ()" using True r by (auto simp: f Let_def case_prod_beta split: if_splits)
    ultimately show ?thesis using o(2) by (simp add: send_outcome_def)
  next
    case False
    then have "d' = set_send_locked sid False (drop_out_chunk S ch d)" "r \<noteq> Inr ()"
      using r by (auto simp: f enqueue_data_def Let_def case_prod_beta split: if_splits)
    then show ?thesis using v by (intro send_outcome_same) simp_all
  qed
qed

lemma poll_queue_outcome:
  assumes o: "objects c sid \<noteq> None" and ok: "stage \<noteq> QStart \<and> stage \<noteq> QLock \<longrightarrow> p \<noteq> [] \<or> fin"
  shows "send_outcome sid p fin c (poll_queue S sid p fin stage c)"
proof -
  note same = send_outcome_same [of sid _ c]
  have cb: "send_outcome sid p fin c (queue_conn_bytes S sid p fin d)" if "p \<noteq> [] \<or> fin" "send_view sid d = send_view sid c" for d
  proof -
    have qf: "send_outcome sid p fin c (let (r, d) = queue_finish S sid p fin d in (Inl r, d))" if "send_view sid d = send_view sid c" for d
      using queue_finish_outcome [OF that o \<open>p \<noteq> [] \<or> fin\<close>] by (simp split: prod.split)
    obtain x y where "sem_poll_acquire S (as_u32 (length p)) (outbound_conn_bytes d) = (x, y)" by fastforce
    then show ?thesis
      using that qf [of d] qf [of "d\<lparr>outbound_conn_bytes := y\<rparr>"] by (cases x) (auto simp: queue_conn_bytes_def intro: same)
  qed
  have cf: "send_outcome sid p fin c (queue_conn_frame S sid p fin d)" if "p \<noteq> [] \<or> fin" "send_view sid d = send_view sid c" for d
    using that by (auto simp: queue_conn_frame_def split: prod.split sem_result.split intro!: same cb)
  have sb: "send_outcome sid p fin c (queue_stream_bytes S sid p fin d)" if "p \<noteq> [] \<or> fin" "send_view sid d = send_view sid c" for d
  proof (cases "p = []")
    case True
    then have "queue_stream_bytes S sid p fin d = queue_conn_frame S sid p fin d" by (simp add: queue_stream_bytes_def)
    then show ?thesis using cf [OF that] by simp
  qed (use that in \<open>auto simp: queue_stream_bytes_def split: prod.split sem_result.split option.split intro!: same cf\<close>)
  have sf: "send_outcome sid p fin c (queue_stream_frame S sid p fin d)" if "p \<noteq> [] \<or> fin" "send_view sid d = send_view sid c" for d
    using that by (auto simp: queue_stream_frame_def split: prod.split sem_result.split option.split intro!: same sb)
  have emp: "p = [] \<and> \<not> fin" if "queue_checks sid p fin st c = Inr False" for st
    using that by (auto simp: queue_checks_def split: sum.splits if_splits)
  have full: "p \<noteq> [] \<or> fin" if "queue_checks sid p fin st c = Inr True" for st
    using that by (auto simp: queue_checks_def split: sum.splits if_splits)
  have lock: "send_outcome sid p fin c (queue_lock S sid p fin c)"
  proof (cases "objects c sid")
    case (Some st)
    have blank: "send_outcome sid p fin c (Inl (Inr ()), c)" if "queue_checks sid p fin st c = Inr False"
      using emp [OF that] by (simp add: send_outcome_def)
    show ?thesis
    proof (cases "queue_checks sid p fin st c")
      case (Inl e)
      then show ?thesis using Some by (auto simp: queue_lock_def intro: same)
    next
      case (Inr b)
      then have "queue_lock S sid p fin c = (if send_locked st then (Inr QLock, c) else if b
          then queue_stream_frame S sid p fin (set_send_locked sid True c) else (Inl (Inr ()), c))"
        using Some by (simp add: queue_lock_def)
      moreover have "send_outcome sid p fin c (Inr QLock, c)" by (rule same) simp_all
      moreover have "send_outcome sid p fin c (queue_stream_frame S sid p fin (set_send_locked sid True c))" if b
        by (rule sf [OF full]) (use Inr that in simp_all)
      moreover have "send_outcome sid p fin c (Inl (Inr ()), c)" if "\<not> b" by (rule blank) (use Inr that in simp)
      ultimately show ?thesis by simp
    qed
  qed (use o in simp)
  show ?thesis using lock sf sb cf cb ok by (cases stage) (auto split: sum.split intro!: same)
qed

lemma poll_send_outcome:
  assumes "objects c sid \<noteq> None" "stage \<noteq> QStart \<and> stage \<noteq> QLock \<longrightarrow> p \<noteq> [] \<or> fin"
  shows "send_outcome sid p fin c (poll_send S sid p fin stage c)"
proof -
  have "send_view sid (drop_queue S sid p stage c) = send_view sid c" by (cases stage) simp_all
  then show ?thesis
    using poll_queue_outcome [OF assms, of S] by (auto simp: poll_send_def split: option.split intro!: send_outcome_same)
qed

section \<open>The flow of bytes into the queues\<close>

text \<open>\<open>flows p c c'\<close>: on every stream the bytes \<open>p\<close> were appended to the queue, unless the queue was dropped for good. Nothing
  is accepted on a stream that is sealed.\<close>

definition drained :: "u64 \<Rightarrow> 's connection \<Rightarrow> bool" where
  "drained sid c \<longleftrightarrow> queued_bytes c sid = [] \<and> \<not> fin_queued c sid"

definition flows :: "(u64 \<Rightarrow> bytes) \<Rightarrow> 's connection \<Rightarrow> 's connection \<Rightarrow> bool" where
  "flows p c c' \<longleftrightarrow> lasts c c' \<and> (\<forall>sid. (p sid \<noteq> [] \<longrightarrow> \<not> sealed sid c)
     \<and> (queued_bytes c' sid = queued_bytes c sid @ p sid \<and> (sealed sid c \<and> drained sid c \<longrightarrow> drained sid c')
        \<or> drained sid c' \<and> sealed sid c'))"

lemma drained_empty: "queue_of sid (writer c) = [] \<Longrightarrow> drained sid c"
  by (simp add: drained_def queued_bytes_def fin_queued_def)

lemma drained_same: "queue_of sid (writer c') = queue_of sid (writer c) \<Longrightarrow> queued_bytes c' sid = queued_bytes c sid \<and> drained sid c' = drained sid c"
  by (simp add: drained_def queued_bytes_def fin_queued_def)

lemma on_id_None: "on_id None = (\<lambda>_. [])"
  by (simp add: fun_eq_iff)

lemma settles_flows: "settles c c' \<Longrightarrow> flows (on_id None) c c'"
  using drained_empty [of _ c'] drained_same [of _ c' c] unfolding settles_def flows_def by fastforce

lemma enqueues_flows:
  assumes "enqueues sid p fin c c'" "lasts c c'"
  shows "flows (on_id (Some (sid, p))) c c'"
proof -
  have "queued_bytes c' i = queued_bytes c i @ on_id (Some (sid, p)) i \<and> (sealed i c \<and> drained i c \<longrightarrow> drained i c')" for i
    using assms(1) by (cases "i = sid") (auto simp: enqueues_def queued_bytes_def drained_def fin_queued_def)
  then show ?thesis using assms by (auto simp: flows_def enqueues_def)
qed

lemma flows_trans:
  assumes pq: "flows p a b" "flows q b c" and r: "\<And>sid. r sid = p sid @ q sid"
  shows "flows r a c"
proof -
  have l: "lasts a b" "lasts b c" using pq by (simp_all add: flows_def)
  have "(r sid \<noteq> [] \<longrightarrow> \<not> sealed sid a) \<and> (queued_bytes c sid = queued_bytes a sid @ r sid \<and> (sealed sid a \<and> drained sid a \<longrightarrow> drained sid c)
      \<or> drained sid c \<and> sealed sid c)" for sid
  proof -
    have x: "p sid \<noteq> [] \<longrightarrow> \<not> sealed sid a" "queued_bytes b sid = queued_bytes a sid @ p sid \<and> (sealed sid a \<and> drained sid a \<longrightarrow> drained sid b)
        \<or> drained sid b \<and> sealed sid b" using pq(1) unfolding flows_def by blast+
    have y: "q sid \<noteq> [] \<longrightarrow> \<not> sealed sid b" "queued_bytes c sid = queued_bytes b sid @ q sid \<and> (sealed sid b \<and> drained sid b \<longrightarrow> drained sid c)
        \<or> drained sid c \<and> sealed sid c" using pq(2) unfolding flows_def by blast+
    have z: "sealed sid a \<longrightarrow> sealed sid b" "sealed sid b \<longrightarrow> sealed sid c" using lasts_sealed [OF l(1)] lasts_sealed [OF l(2)] by blast+
    show ?thesis using x y z unfolding r by (cases "drained sid b \<and> sealed sid b") auto
  qed
  moreover have "lasts a c" using l by (simp add: lasts_def)
  ultimately show ?thesis by (simp add: flows_def)
qed

lemma send_outcome_flows:
  assumes "send_outcome sid p fin c (r, c')" "lasts c c'"
  shows "flows (on_id (if r = Inl (Inr ()) then Some (sid, p) else None)) c c'"
proof (cases "r = Inl (Inr ()) \<and> (p \<noteq> [] \<or> fin)")
  case True
  then have "enqueues sid p fin c c'" using assms(1) by (simp add: send_outcome_def)
  then show ?thesis using True enqueues_flows [OF _ assms(2)] by simp
next
  case False
  then have "flows (on_id None) c c'"
    using assms by (intro settles_flows settles_same) (auto simp: send_outcome_def)
  moreover have "on_id (if r = Inl (Inr ()) then Some (sid, p) else None) = on_id None" using False by (auto simp: fun_eq_iff)
  ultimately show ?thesis by simp
qed

subsection \<open>The sending halves\<close>

lemma pending_ok_nonempty: "pending_ok l sid p fin g \<Longrightarrow> g \<noteq> QStart \<and> g \<noteq> QLock \<longrightarrow> p \<noteq> [] \<or> fin"
  by (auto simp: pending_ok_def queued_ok_def)

lemma settles_select_send: "settles c (snd (select_send_mode sid m c))"
  by (auto simp: select_send_mode_def split: option.split sum.split prod.split intro!: settles_on_stream)

lemma poll_send_flows:
  assumes "objects c sid \<noteq> None" "pending_ok l sid p fin g" "used_ids c" "poll_send S sid p fin g c = (r, c')"
  shows "flows (on_id (if r = Inl (Inr ()) then Some (sid, p) else None)) c c'"
proof (rule send_outcome_flows)
  show "send_outcome sid p fin c (r, c')"
    using poll_send_outcome [OF assms(1) pending_ok_nonempty [OF assms(2)], of S] assms(4) by simp
  show "lasts c c'"
    using local_step_sends(1) [OF local_step_refl [OF assms(3)], of S sid p fin g] assms(4) by (auto simp: local_step_def intro: lasts_evolves)
qed

lemma poll_call_flows:
  assumes "objects c sid \<noteq> None" "\<forall>g. stage = CallSend g \<longrightarrow> pending_ok l sid p fin g" "used_ids c"
    "poll_call S sid p fin stage c = (r, c')"
  shows "flows (on_id (if r = Inl (Inr ()) then Some (sid, p) else None)) c c'"
proof (cases stage)
  case CallStart
  obtain x c1 where x: "select_send_mode sid 1 c = (x, c1)" by fastforce
  have m: "settles c c1" using settles_select_send [of c sid 1] x by simp
  show ?thesis
  proof (cases x)
    case (Inl e)
    then have "r \<noteq> Inl (Inr ()) \<and> c' = c1" using assms(4) x CallStart by auto
    then show ?thesis using settles_flows [OF m] by simp
  next
    case (Inr u)
    obtain y c2 where y: "poll_send S sid p fin QStart c1 = (y, c2)" by fastforce
    have o: "objects c1 sid \<noteq> None" "used_ids c1"
      using assms(1,3) x by (auto simp: select_send_mode_def split: option.splits prod.splits sum.splits)
    have f: "flows (on_id (if y = Inl (Inr ()) then Some (sid, p) else None)) c1 c2"
      by (rule poll_send_flows [OF o(1) _ o(2) y, of undefined]) (simp add: pending_ok_def)
    have "c' = c2" "r = Inl (Inr ()) \<longleftrightarrow> y = Inl (Inr ())"
      using assms(4) x CallStart Inr y by (cases y; auto simp: continue_call_def)+
    then show ?thesis using flows_trans [OF settles_flows [OF m] f] by simp
  qed
next
  case (CallSend g)
  obtain y c2 where y: "poll_send S sid p fin g c = (y, c2)" by fastforce
  have "c' = c2" "r = Inl (Inr ()) \<longleftrightarrow> y = Inl (Inr ())"
    using assms(4) CallSend y by (cases y; auto simp: continue_call_def)+
  then show ?thesis using poll_send_flows [OF assms(1) _ assms(3) y] assms(2) CallSend by auto
qed

definition write_done :: "(io_fault + 'a) poll \<Rightarrow> send_stream \<Rightarrow> (u64 \<times> bytes) option" where
  "write_done r h = (case r of Ready (Inr _) \<Rightarrow> pending_write h | _ \<Rightarrow> None)"

lemma poll_pending_write_flows:
  assumes "send_ok c h" "used_ids c" "poll_pending_write S h c = (r, h', c')"
  shows "flows (on_id (write_done r h)) c c'"
proof (cases "write_fut h")
  case None
  then show ?thesis using assms(3) settles_flows [of c c] by (auto simp: poll_pending_write_def write_done_def pending_write_def)
next
  case (Some pg)
  then obtain p g where pg: "write_fut h = Some (p, g)" by (cases pg) auto
  obtain x c1 where x: "poll_send S (ss_id h) p False g c = (x, c1)" by fastforce
  have ok: "objects c (ss_id h) \<noteq> None" "pending_ok (limits c) (ss_id h) p False g" using assms(1) pg by (auto simp: send_ok_def)
  have "c' = c1" "write_done r h = (if x = Inl (Inr ()) then Some (ss_id h, p) else None)"
    using assms(3) pg x by (auto simp: poll_pending_write_def write_done_def pending_write_def split: sum.splits)
  then show ?thesis using poll_send_flows [OF ok assms(2) x] by simp
qed

lemma send_ok_select:
  assumes "send_ok c h" "used_ids c" "select_send_mode (ss_id h) m c = (x, c1)"
  shows "send_ok c1 h" "used_ids c1" "limits c1 = limits c"
proof -
  have "local_step c c1" using select_send_mode_step(1) [OF local_step_refl [OF assms(2)], of "ss_id h" m] assms(3) by simp
  then show "send_ok c1 h" "limits c1 = limits c" using send_ok_evolves [OF assms(1)] evolvesD(1) by (auto simp: local_step_def)
  show "used_ids c1" using assms(2,3) by (auto simp: select_send_mode_def split: option.splits prod.splits sum.splits)
qed

lemma poll_flush_flows:
  assumes "send_ok c h" "used_ids c" "poll_flush S h c = (r, h', c')"
  shows "flows (on_id (write_done r h)) c c'"
proof -
  obtain x c1 where x: "select_send_mode (ss_id h) 2 c = (x, c1)" by fastforce
  have m: "flows (on_id None) c c1" using settles_flows [OF settles_select_send [of c "ss_id h" 2]] x by simp
  note o = send_ok_select [OF assms(1,2) x]
  show ?thesis
  proof (cases x)
    case (Inl e)
    then show ?thesis using assms(3) x m by (auto simp: poll_flush_def write_done_def)
  next
    case (Inr u)
    then have "poll_pending_write S h c1 = (r, h', c')" using assms(3) x by (simp add: poll_flush_def)
    then show ?thesis using flows_trans [OF m poll_pending_write_flows [OF o(1,2)]] by simp
  qed
qed

lemma max_stream_payload_pos: "valid_limits m l \<Longrightarrow> sid \<le> varint_MAX \<Longrightarrow> 1 \<le> max_stream_payload l sid"
proof -
  assume v: "valid_limits m l" and sid: "sid \<le> varint_MAX"
  have l: "25 \<le> max_frame_size l" "max_frame_size l < 2 ^ 32" "1 \<le> max_outbound_stream_bytes l"
    using v by (auto simp: valid_limits_def)
  have "payload_fits l sid 1"
    using payload_fits_iff [OF sid, of 1 l] varint_encoded_len_bounds(2) [of "VarInt sid"]
      varint_encoded_len_bounds(2) [of "VarInt (as_u64 1)"] l(1) by simp
  then show ?thesis using max_stream_payload_iff [OF sid l(1,2)] l(3) by simp
qed

context semaphore
begin

lemma poll_write_flows:
  assumes inv: "conn_inv free waiting out c" and h: "send_ok c h" and w: "poll_write S h src c = (r, h', c')"
  shows "flows (on_id (case r of Ready (Inr n) \<Rightarrow> if n = 0 then None else pending_write h | _ \<Rightarrow> None)) c c'"
proof -
  note ids = conn_inv_used_ids [OF inv]
  obtain x c1 where x: "select_send_mode (ss_id h) 2 c = (x, c1)" by fastforce
  note sel = select_send_ok [OF inv local_step_refl [OF ids] h x]
  have m: "flows (on_id None) c c1" using settles_flows [OF settles_select_send [of c "ss_id h" 2]] x by simp
  obtain y h1 c2 where y: "poll_flush S h c1 = (y, h1, c2)" by (metis surj_pair)
  have f: "flows (on_id (write_done y h)) c1 c2" by (rule poll_flush_flows [OF sel(3) conn_inv_used_ids [OF sel(1)] y])
  have ok: "send_step_ok free waiting out c h (y, h1, c2)" using poll_flush_ok(1) [OF sel(1-3)] y by simp
  then have c2: "conn_inv free waiting out c2" "send_ok c2 h1" by (simp_all add: send_step_ok_def)
  obtain k where "valid_limits k (limits c2)" by (rule conn_inv_limits [OF c2(1)])
  moreover have "ss_id h1 \<le> varint_MAX" using c2 queues_invD(4) by (auto simp: conn_inv_def send_ok_def)
  ultimately have pos: "1 \<le> max_stream_payload (limits c2) (ss_id h1)" by (rule max_stream_payload_pos)
  show ?thesis
  proof (cases "x = Inr () \<and> src \<noteq> [] \<and> \<not> (closed c1 \<or> (case objects c1 (ss_id h) of None \<Rightarrow> False | Some st \<Rightarrow> send_terminal st)
            \<or> shutdown_fut h \<noteq> None \<or> shutdown_complete h)")
    case True
    then have "c' = c2" "(case r of Ready (Inr n) \<Rightarrow> if n = 0 then None else pending_write h | _ \<Rightarrow> None) = write_done y h"
      using w x y pos by (auto simp: poll_write_def Let_def write_done_def split: poll.splits sum.splits if_splits)
        (auto simp: min_def split: if_splits)
    then show ?thesis using flows_trans [OF m f] by simp
  next
    case False
    then have "c' = c1" "\<forall>n. r = Ready (Inr n) \<longrightarrow> n = 0" using w x by (auto simp: poll_write_def split: if_splits sum.splits option.splits)
    then show ?thesis using m by (cases r) (auto split: sum.split)
  qed
qed

lemma poll_shutdown_flows:
  assumes inv: "conn_inv free waiting out c" and h: "send_ok c h" and w: "poll_shutdown S h c = (r, h', c')"
  shows "flows (on_id (if shutdown_complete h then None else write_done (fst (poll_flush S h c)) h)) c c'"
proof -
  note ids = conn_inv_used_ids [OF inv]
  obtain x c1 where x: "select_send_mode (ss_id h) 2 c = (x, c1)" by fastforce
  note sel = select_send_ok [OF inv local_step_refl [OF ids] h x]
  have m: "flows (on_id None) c c1" using settles_flows [OF settles_select_send [of c "ss_id h" 2]] x by simp
  obtain y h1 c2 where y: "poll_pending_write S h c1 = (y, h1, c2)" by (metis surj_pair)
  have f: "flows (on_id (write_done y h)) c1 c2" by (rule poll_pending_write_flows [OF sel(3) conn_inv_used_ids [OF sel(1)] y])
  have fl: "fst (poll_flush S h c) = (case x of Inl e \<Rightarrow> Ready (Inl (to_io_fault e)) | Inr _ \<Rightarrow> y)"
    using x y by (cases x) (auto simp: poll_flush_def)
  have ok: "send_step_ok free waiting out c h (y, h1, c2)" using poll_pending_write_ok(1) [OF sel(1-3)] y by simp
  define g where "g = (case shutdown_fut h1 of None \<Rightarrow> QStart | Some stage \<Rightarrow> stage)"
  obtain z c3 where z: "poll_send S (ss_id h1) [] True g c2 = (z, c3)" by fastforce
  have "objects c2 (ss_id h1) \<noteq> None" "pending_ok (limits c2) (ss_id h1) [] True g" "used_ids c2"
    using ok conn_inv_used_ids by (auto simp: send_step_ok_def send_ok_def g_def pending_ok_def split: option.splits)
  from poll_send_flows [OF this z] have "flows (on_id (if z = Inl (Inr ()) then Some (ss_id h1, []) else None)) c2 c3" .
  moreover have "on_id (if z = Inl (Inr ()) then Some (ss_id h1, []) else None) = on_id None" by (simp add: fun_eq_iff)
  ultimately have e: "flows (on_id None) c2 c3" by simp
  show ?thesis
  proof (cases "x = Inr () \<and> \<not> shutdown_complete h")
    case True
    then have cs: "if y = Ready (Inr ()) then c' = c3 else c' = c2"
      using w x y z by (auto simp: poll_shutdown_def g_def Let_def split: poll.splits sum.splits)
    have "flows (on_id (write_done y h)) c c2" using flows_trans [OF m f] by simp
    moreover have "flows (on_id (write_done y h)) c c3" using flows_trans [OF calculation e] by simp
    ultimately show ?thesis using cs True fl by (auto split: if_splits)
  next
    case False
    have "c' = c1" using False w x by (auto simp: poll_shutdown_def split: if_splits sum.splits)
    moreover have "(if shutdown_complete h then None else write_done (fst (poll_flush S h c)) h) = None"
      using False fl by (cases x) (auto simp: write_done_def)
    ultimately show ?thesis using m by simp
  qed
qed

end

section \<open>Events\<close>

lemma settle_Done [simp]:
  "settle r s = Done s' \<longleftrightarrow> r \<noteq> Inl Panicked \<and> s' = s"
  "settle_io x s = Done s' \<longleftrightarrow> x \<noteq> Ready (Inl IoPanicked) \<and> s' = s"
  by (auto simp: settle_def settle_io_def split: sum.splits fault.splits poll.splits io_fault.splits)

text \<open>The events of all but the writer task: what they accept flows into the queues, and they hand nothing to the transport.\<close>

definition queues_step :: "(u64 \<times> bytes) option \<Rightarrow> ('s, 'o) system \<Rightarrow> ('s, 'o) system \<Rightarrow> bool" where
  "queues_step x s s' \<longleftrightarrow> flows (on_id x) (conn s) (conn s') \<and> writing s' = writing s \<and> wire s' = wire s"

lemma queues_step_same: "settles (conn s) (conn s') \<Longrightarrow> writing s' = writing s \<Longrightarrow> wire s' = wire s \<Longrightarrow> queues_step None s s'"
  by (simp add: queues_step_def settles_flows)

lemma queues_step_refl [simp]: "queues_step None s s"
  by (rule queues_step_same) simp_all

fun writer_event :: "'b event \<Rightarrow> bool" where
  "writer_event (TakeFrame order) = True"
| "writer_event (Sent sent) = True"
| "writer_event WriterExit = True"
| "writer_event e = False"

context semaphore
begin

lemma queues_step_open:
  assumes inv: "sys_inv free waiting written l s" and e: "open_event S i s = Done s'"
  shows "queues_step None s s'"
proof (rule queues_step_same)
  have "local_step (conn s) (snd (poll_open_bi S (opens s ! i) (conn s)))"
    by (rule local_step_poll_open_bi [OF sys_inv_conn_inv [OF inv]])
  then have "settles (conn s) (snd (poll_open_bi S (opens s ! i) (conn s)))" by (intro settles_open) (simp add: local_step_def)
  then show "settles (conn s) (conn s')"
    using e by (auto simp: open_event_def Let_def new_handles_def split: prod.splits sum.splits)
qed (use e in \<open>auto simp: open_event_def Let_def new_handles_def split: prod.splits sum.splits\<close>)

lemma queues_step_accept: "accept_event s = Done s' \<Longrightarrow> queues_step None s s'"
  using settles_calls(6) [of "conn s"]
  by (auto simp: accept_event_def new_handles_def split: prod.splits poll.splits sum.splits intro!: queues_step_same)

lemma queues_step_call:
  assumes inv: "sys_inv free waiting written l s" and i: "i < length (calls s)" and e: "call_event S i s = Done s'"
  shows "queues_step (accepted_by S (PollCall i) s) s s'"
proof -
  obtain sid p fin g where c: "calls s ! i = (sid, p, fin, g)" by (metis prod_cases4)
  have ok: "call_ok (conn s) (sid, p, fin, g)" using inv i c by (metis list_all_length sys_inv_def)
  obtain r c' where r: "poll_call S sid p fin g (conn s) = (r, c')" by fastforce
  have "flows (on_id (if r = Inl (Inr ()) then Some (sid, p) else None)) (conn s) c'"
    by (rule poll_call_flows [OF _ _ conn_inv_used_ids [OF sys_inv_conn_inv [OF inv]] r, of "limits (conn s)"]) (use ok in \<open>auto simp: call_ok_def\<close>)
  moreover have "accepted_by S (PollCall i) s = (if r = Inl (Inr ()) then Some (sid, p) else None)"
    using i c r by (auto split: sum.splits)
  ultimately show ?thesis using e by (auto simp: queues_step_def call_event_def c r split: sum.splits)
qed

lemma queues_step_send:
  assumes inv: "sys_inv free waiting written l s" and j: "j < length (sends s)" and e: "send_event j f s = Done s'"
    and f: "\<And>r h' c'. f (sends s ! j) (conn s) = (r, h', c') \<Longrightarrow> flows (on_id x) (conn s) c'"
  shows "queues_step x s s'"
  using e j f by (auto simp: queues_step_def send_event_def split: prod.splits)

lemma queues_step_writes:
  assumes inv: "sys_inv free waiting written l s"
  shows "exec B W S (PollWrite j src) s = Done s' \<Longrightarrow> queues_step (accepted_by S (PollWrite j src) s) s s'"
    "exec B W S (PollFlush j) s = Done s' \<Longrightarrow> queues_step (accepted_by S (PollFlush j) s) s s'"
    "exec B W S (PollShutdown j) s = Done s' \<Longrightarrow> queues_step (accepted_by S (PollShutdown j) s) s s'"
proof -
  note ci = sys_inv_conn_inv [OF inv]
  have h: "send_ok (conn s) (sends s ! j)" if "j < length (sends s)" using inv that by (simp add: sys_inv_def list_all_length)
  show "exec B W S (PollWrite j src) s = Done s' \<Longrightarrow> queues_step (accepted_by S (PollWrite j src) s) s s'"
    using poll_write_flows [OF ci h] by (cases "j < length (sends s)") (auto intro!: queues_step_send [OF inv] simp: send_event_def)
  show "exec B W S (PollFlush j) s = Done s' \<Longrightarrow> queues_step (accepted_by S (PollFlush j) s) s s'"
    using poll_flush_flows [OF h conn_inv_used_ids [OF ci]]
    by (cases "j < length (sends s)") (auto intro!: queues_step_send [OF inv] simp: send_event_def write_done_def)
  show "exec B W S (PollShutdown j) s = Done s' \<Longrightarrow> queues_step (accepted_by S (PollShutdown j) s) s s'"
    using poll_shutdown_flows [OF ci h]
    by (cases "j < length (sends s)") (auto intro!: queues_step_send [OF inv] simp: send_event_def write_done_def)
qed

lemma queues_step_incoming:
  assumes inv: "sys_inv free waiting written l s" and B: "buf B unread" and e: "incoming_event B S bytes s = Done s'"
  shows "queues_step None s s'"
proof (cases "reading s \<and> remaining B bytes \<le> max_frame_size (limits (conn s))")
  case True
  let ?c = "record_received (remaining B bytes) (conn s)"
  have ci: "conn_inv free waiting (holds (recvs s)) (conn s)" "settings_inv (conn s)" using inv by (simp_all add: sys_inv_def)
  have i: "conn_inv free waiting (holds (recvs s)) ?c" "settings_inv ?c"
    using ci by (simp_all add: record_received_def settings_inv_def)
  have rec: "settles (conn s) ?c" by (rule settles_flags(8)) simp
  obtain r c1 where r: "handle_incoming_frame B S bytes ?c = (r, c1)" by fastforce
  have "settles (conn s) c1"
  proof (cases "frame_decode B bytes" rule: action_cases)
    case (failed e b)
    then show ?thesis using r rec by (simp add: handle_incoming_frame_def)
  next
    case (returned f b)
    have "length (unread bytes) < 2 ^ 32"
      using True conn_inv_frame_size [OF ci(1)] buf.remaining_length [OF B, of bytes] by simp
    then have wf: "wf_frame f" "length (frame_bytes f) < 2 ^ 32" using buf.frame_decode_consumes [OF B returned] by auto
    have "data_len f \<le> length (frame_bytes f)" by (cases f) (simp_all add: sized_bytes_def)
    then have "frame_safe free waiting (holds (recvs s)) ?c (accept_frame S f ?c)"
      using wf by (intro frame_safe_accept_frame [OF i]) simp_all
    then have "settles ?c (snd (accept_frame S f ?c))"
      by (intro settles_accept_frame conn_inv_used_ids [OF i(1)]) (simp add: frame_safe_def)
    then show ?thesis using settles_trans [OF rec] r returned by (simp add: handle_incoming_frame_def)
  qed
  then have "settles (conn s) (mark_closed S (snd (initiate_close S 1 m c1)))" "settles (conn s) (mark_closed S c1)" "settles (conn s) c1" for m
    by (simp_all add: settles_closing)
  then show ?thesis
    using True e r by (auto simp: incoming_event_def reader_frame_def split: sum.splits bool.splits fault.splits intro!: queues_step_same)
qed (use e in \<open>auto simp: incoming_event_def\<close>)

lemma queues_step_drop_state:
  "queues_step None s (s\<lparr>conn := drop_state S sid (conn s)\<rparr>)"
proof (rule queues_step_same)
  note f = drop_state_frame [of S sid "conn s"]
  have "lasts (conn s) (drop_state S sid (conn s))"
    using f(5) unfolding lasts_def ended_def f(2,3) by blast
  then show "settles (conn s) (conn (s\<lparr>conn := drop_state S sid (conn s)\<rparr>))"
    by (intro settles_same) (simp_all add: f(2))
qed simp_all

lemma queues_step_reset:
  assumes "sys_inv free waiting written l s" "exec B W S (ResetSend j code) s = Done s'"
  shows "queues_step None s s'"
  using assms(2) settles_reset [OF settles_refl conn_inv_used_ids [OF sys_inv_conn_inv [OF assms(1)]], of S "ss_id (sends s ! j)" code]
  by (auto simp: reset_send_def split: if_splits prod.splits intro!: queues_step_same)

lemma queues_step_cleanup:
  assumes "sys_inv free waiting written l s" "cleanup_event S s = Done s'"
  shows "queues_step None s s'"
  using assms(2) settles_cleanup [OF settles_refl conn_inv_used_ids [OF sys_inv_conn_inv [OF assms(1)]], of S]
  by (auto simp: cleanup_event_def split: option.splits list.splits prod.splits intro!: queues_step_same) (metis snd_conv)+

lemma queues_step_reads:
  "recv_event j (poll_read S room) s = Done s' \<Longrightarrow> queues_step None s s'"
  "exec B W S (ReadChunk j) s = Done s' \<Longrightarrow> queues_step None s s'"
  using settles_read(1) [of "conn s" S room "recvs s ! j"] settles_read(2) [of "conn s" S "recvs s ! j"]
  by (auto simp: recv_event_def split: if_splits prod.splits poll.splits intro!: queues_step_same)

lemma queues_step_close: "exec B W S (Close reason) s = Done s' \<Longrightarrow> queues_step None s s'"
  using settles_calls(1) [of "conn s" S reason] by (auto split: if_splits prod.splits intro!: queues_step_same)

lemma exec_queues:
  assumes inv: "sys_inv free waiting written l s" and B: "buf B unread" and e: "exec B W S e s = Done s'" and w: "\<not> writer_event e"
  shows "queues_step (accepted_by S e s) s s'"
proof (cases e)
  case (PollOpen i)
  then show ?thesis using e queues_step_open [OF inv] by (auto split: if_splits)
next
  case AcceptBi
  then show ?thesis using e queues_step_accept by auto
next
  case (PollCall i)
  then show ?thesis using e queues_step_call [OF inv] by (cases "i < length (calls s)") auto
next
  case (Incoming bytes)
  then show ?thesis using e queues_step_incoming [OF inv B] by auto
next
  case Tick
  then show ?thesis
    using e settles_tasks(1) [of "conn s" S] by (auto simp: Let_def case_prod_beta split: if_splits intro!: queues_step_same)
next
  case (DropCall i)
  then show ?thesis using e by (auto split: prod.splits intro!: queues_step_same settles_calls)
next
  case Join
  then show ?thesis using e by (auto split: writer_task.splits intro!: queues_step_same settles_tasks)
next
  case (PollWrite j src)
  then show ?thesis using queues_step_writes(1) [OF inv] e by blast
next
  case (PollFlush j)
  then show ?thesis using queues_step_writes(2) [OF inv] e by blast
next
  case (PollShutdown j)
  then show ?thesis using queues_step_writes(3) [OF inv] e by blast
next
  case (ResetSend j code)
  then show ?thesis using queues_step_reset [OF inv, of B W j code s'] e by (simp del: exec.simps)
next
  case (PollRead j room)
  then show ?thesis using queues_step_reads(1) e by simp
next
  case (ReadChunk j)
  then show ?thesis using queues_step_reads(2) [of B W j s s'] e by (simp del: exec.simps)
next
  case (Close reason)
  then show ?thesis using queues_step_close [of B W reason s s'] e by (simp del: exec.simps)
next
  case CleanupNext
  then show ?thesis using queues_step_cleanup [OF inv] e by simp
next
  case (DropState sid)
  then show ?thesis using queues_step_drop_state e by (auto split: if_splits)
qed (use e w in \<open>auto split: if_splits intro!: queues_step_same settles_calls settles_tasks\<close>)

end

end
