(* ===== verification/Wire_Order.thy ===== *)
theory Wire_Order
  imports Transfer_Out "HOL-Library.Sublist"
begin

text \<open>
  The frames handed to the transport carry, stream by stream, the accepted bytes in order and without gaps, and a FIN
  follows all of them.
\<close>

definition payloads :: "frame list \<Rightarrow> u64 \<Rightarrow> bytes" where
  "payloads fs sid = concat (map (\<lambda>f. payload_on f sid) fs)"

definition has_fin :: "frame list \<Rightarrow> u64 \<Rightarrow> bool" where
  "has_fin fs sid \<longleftrightarrow> list_ex (\<lambda>f. fin_on f sid) fs"

lemma payloads_simps [simp]:
  "payloads [] sid = []" "payloads (f # fs) sid = payload_on f sid @ payloads fs sid"
  "payloads (fs @ gs) sid = payloads fs sid @ payloads gs sid"
  by (simp_all add: payloads_def)

lemma has_fin_simps [simp]:
  "\<not> has_fin [] sid" "has_fin (f # fs) sid \<longleftrightarrow> fin_on f sid \<or> has_fin fs sid"
  "has_fin (fs @ gs) sid \<longleftrightarrow> has_fin fs sid \<or> has_fin gs sid"
  by (simp_all add: has_fin_def)

text \<open>The frames handed to the transport, with the one it has not yet taken.\<close>

definition out_frames :: "('s, 'o) system \<Rightarrow> frame list" where
  "out_frames s = map fst (wire s) @ (case writing s of WSending f _ \<Rightarrow> [f] | _ \<Rightarrow> [])"

definition active :: "'o writer_task \<Rightarrow> bool" where
  "active t \<longleftrightarrow> (case t of WIdle \<Rightarrow> True | WSending _ _ \<Rightarrow> True | _ \<Rightarrow> False)"

definition out_inv :: "(u64 \<Rightarrow> bytes) \<Rightarrow> frame list \<Rightarrow> bool \<Rightarrow> 's connection \<Rightarrow> bool" where
  "out_inv acc fs live c \<longleftrightarrow> (\<forall>sid. prefix (payloads fs sid) (acc sid)
     \<and> (live \<longrightarrow> acc sid = payloads fs sid @ queued_bytes c sid \<or> drained sid c \<and> sealed sid c)
     \<and> (\<forall>gs hs. fs = gs @ hs \<and> has_fin gs sid \<longrightarrow> payloads gs sid = acc sid \<and> drained sid c \<and> ended sid c))"

lemma out_invD:
  assumes "out_inv acc fs live c"
  shows "prefix (payloads fs sid) (acc sid)" "live \<Longrightarrow> acc sid = payloads fs sid @ queued_bytes c sid \<or> drained sid c \<and> sealed sid c"
    "fs = gs @ hs \<Longrightarrow> has_fin gs sid \<Longrightarrow> payloads gs sid = acc sid \<and> drained sid c \<and> ended sid c"
  using assms unfolding out_inv_def by blast+

lemma out_inv_flows:
  assumes inv: "out_inv acc fs live c" and f: "flows p c c'" and acc': "\<And>sid. acc' sid = acc sid @ p sid"
  shows "out_inv acc' fs live c'"
proof -
  have l: "lasts c c'" using f by (simp add: flows_def)
  have p: "p sid \<noteq> [] \<Longrightarrow> \<not> sealed sid c" "queued_bytes c' sid = queued_bytes c sid @ p sid \<and> (sealed sid c \<and> drained sid c \<longrightarrow> drained sid c')
      \<or> drained sid c' \<and> sealed sid c'" for sid
    using f unfolding flows_def by blast+
  have "prefix (payloads fs sid) (acc' sid)" for sid
    using out_invD(1) [OF inv, of sid] by (simp add: acc' prefix_append)
  moreover have "acc' sid = payloads fs sid @ queued_bytes c' sid \<or> drained sid c' \<and> sealed sid c'" if live for sid
    using out_invD(2) [OF inv that, of sid] p [of sid] lasts_sealed [OF l, of sid] by (auto simp: acc')
  moreover have "payloads gs sid = acc' sid \<and> drained sid c' \<and> ended sid c'" if "fs = gs @ hs" "has_fin gs sid" for gs hs sid
  proof -
    have old: "payloads gs sid = acc sid" "drained sid c" "ended sid c" using out_invD(3) [OF inv that] by auto
    then have "sealed sid c" "ended sid c'" using l by (auto simp: sealed_def lasts_def)
    then show ?thesis using old p [of sid] by (auto simp: acc')
  qed
  ultimately show ?thesis unfolding out_inv_def by blast
qed

lemma out_inv_emits:
  assumes inv: "out_inv acc fs True c" and e: "emits c f c'" and l: "lasts c c'" and t: "sent_ok f c'"
  shows "out_inv acc (fs @ [f]) True c'"
proof -
  have em: "queued_bytes c sid = payload_on f sid @ queued_bytes c' sid" "fin_queued c sid \<longleftrightarrow> fin_on f sid \<or> fin_queued c' sid"
    "fin_on f sid \<Longrightarrow> queue_of sid (writer c') = []" for sid
    using e unfolding emits_def by blast+
  have dr: "payload_on f sid = [] \<and> \<not> fin_on f sid \<and> drained sid c'" if "drained sid c" for sid
    using that em(1,2) [of sid] by (auto simp: drained_def)
  have ended: "ended sid c'" if "fin_on f sid" for sid
    using that t by (cases f) (auto simp: sent_ok_def)
  have "prefix (payloads (fs @ [f]) sid) (acc sid)" for sid
    using out_invD(1,2) [OF inv, of sid] em(1) [of sid] dr [of sid] by auto
  moreover have now: "acc sid = payloads (fs @ [f]) sid @ queued_bytes c' sid \<or> drained sid c' \<and> sealed sid c'" for sid
    using out_invD(2) [OF inv, of sid] em(1) [of sid] dr [of sid] lasts_sealed [OF l, of sid] by auto
  moreover have "payloads gs sid = acc sid \<and> drained sid c' \<and> ended sid c'" if "fs @ [f] = gs @ hs" "has_fin gs sid" for gs hs sid
  proof (cases "has_fin fs sid")
    case True
    then have old: "payloads fs sid = acc sid" "drained sid c" "ended sid c" using out_invD(3) [OF inv, of fs "[]" sid] by auto
    have "ended sid c'" using old(3) l by (simp add: lasts_def)
    moreover have "payloads gs sid = acc sid"
    proof (cases hs rule: rev_cases)
      case Nil
      then show ?thesis using that old(1) dr [OF old(2)] by auto
    next
      case (snoc hs' x)
      then have "fs = gs @ hs'" using that(1) by simp
      then show ?thesis using out_invD(3) [OF inv _ that(2)] by blast
    qed
    ultimately show ?thesis using dr [OF old(2)] by simp
  next
    case False
    have hs: "hs = []" using that False by (cases hs rule: rev_cases) auto
    then have gs: "gs = fs @ [f]" "fin_on f sid" using that False by auto
    have d: "drained sid c'" using em(3) [OF gs(2)] by (rule drained_empty)
    have "acc sid = payloads fs sid @ queued_bytes c sid"
      using out_invD(2) [OF inv, of sid] em(2) [of sid] gs(2) by (auto simp: drained_def)
    then show ?thesis using gs d ended [OF gs(2)] em(1) [of sid] by (simp add: drained_def)
  qed
  ultimately show ?thesis unfolding out_inv_def by blast
qed

lemma out_inv_less:
  assumes inv: "out_inv acc fs live c" and fs: "fs = gs @ hs" and live: "live' \<Longrightarrow> live \<and> hs = []"
  shows "out_inv acc gs live' c"
proof -
  have "prefix (payloads gs sid) (acc sid)" for sid
    using out_invD(1) [OF inv, of sid] unfolding fs by (auto dest: append_prefixD)
  moreover have "payloads xs sid = acc sid \<and> drained sid c \<and> ended sid c" if "gs = xs @ ys" "has_fin xs sid" for xs ys sid
    using out_invD(3) [OF inv, of xs "ys @ hs" sid] that fs by simp
  moreover have "acc sid = payloads gs sid @ queued_bytes c sid \<or> drained sid c \<and> sealed sid c" if live' for sid
    using out_invD(2) [OF inv, of sid] live [OF that] fs by simp
  ultimately show ?thesis unfolding out_inv_def by blast
qed

definition sent_inv :: "(u64 \<Rightarrow> bytes) \<Rightarrow> ('s, 'o) system \<Rightarrow> bool" where
  "sent_inv acc s \<longleftrightarrow> out_inv acc (out_frames s) (active (writing s)) (conn s)"

lemma sent_inv_new:
  assumes "connection_new S m l is_client certs = Inr c"
  shows "sent_inv (\<lambda>_. []) (system_new c keepalive)"
proof -
  have "by_stream (writer c) = []"
    using assms by (auto simp: connection_new_def queues_new_def Let_def split: sum.splits option.splits if_splits)
  then show ?thesis by (simp add: sent_inv_def out_inv_def out_frames_def system_new_def queued_bytes_def queue_of_def)
qed

lemma sent_inv_queues:
  assumes "sent_inv acc s" "queues_step x s s'"
  shows "sent_inv (\<lambda>sid. acc sid @ on_id x sid) s'"
proof -
  have f: "flows (on_id x) (conn s) (conn s')" and same: "writing s' = writing s" "wire s' = wire s"
    using assms(2) unfolding queues_step_def by blast+
  have "out_inv (\<lambda>sid. acc sid @ on_id x sid) (out_frames s) (active (writing s)) (conn s')"
    by (rule out_inv_flows [OF _ f]) (use assms(1) in \<open>simp_all add: sent_inv_def\<close>)
  then show ?thesis using same by (simp add: sent_inv_def out_frames_def)
qed

context semaphore
begin

lemma sent_inv_take:
  assumes inv: "sys_inv free waiting written l s" and i: "sent_inv acc s" and e: "take_event W S order s = Done s'"
  shows "sent_inv acc s'"
proof (cases "writing s = WIdle")
  case True
  note ci = sys_inv_conn_inv [OF inv]
  have q: "queues_inv (conn s)" using ci by (simp add: conn_inv_def)
  obtain p c where n: "next_frame order S (conn s) = (p, c)" by fastforce
  have ok: "pass_ok (conn s) p c" "p \<noteq> Again" using next_frame_ok [OF q n] by auto
  have l: "lasts (conn s) c"
    using local_step_next_frame [OF q sys_inv_here [OF inv], of order S] n by (auto simp: local_step_def intro: lasts_evolves)
  have i: "out_inv acc (map fst (wire s)) True (conn s)" using i True by (simp add: sent_inv_def out_frames_def active_def)
  show ?thesis
  proof (cases "\<exists>f. p = Return (Some f)")
    case True
    then obtain f where f: "p = Return (Some f)" by blast
    have "sent_ok f c" using next_frame_sent [OF ci] n f by blast
    then have out: "out_inv acc (map fst (wire s) @ [f]) True c"
      using ok f by (intro out_inv_emits [OF i _ l]) (simp_all add: pass_ok_def)
    then have "out_inv acc (map fst (wire s)) False c" by (rule out_inv_less) simp_all
    then show ?thesis
      using out e \<open>writing s = WIdle\<close> n f
      by (auto simp: take_event_def writer_take_def sent_inv_def out_frames_def active_def split: prod.splits sum.splits)
  next
    case False
    then have "quiet (conn s) c" using ok by (cases p) (auto simp: pass_ok_def split: option.splits)
    then have "settles (conn s) c" using l by (intro settles_same) (simp_all add: quiet_def)
    then have out: "out_inv acc (map fst (wire s)) True c" using out_inv_flows [OF i settles_flows] by simp
    then have "out_inv acc (map fst (wire s)) False c" by (rule out_inv_less) simp_all
    then show ?thesis
      using out e \<open>writing s = WIdle\<close> n False
      by (cases p) (auto simp: take_event_def writer_take_def sent_inv_def out_frames_def active_def split: option.splits)
  qed
next
  case False
  then have "s' = s" using e by (cases "writing s") (simp_all add: take_event_def)
  then show ?thesis using i by simp
qed

lemma sent_inv_sent:
  assumes i: "sent_inv acc s" and e: "sent_event W S sent s = Done s'"
  shows "sent_inv acc s'"
proof (cases "\<exists>f b. writing s = WSending f b")
  case True
  then obtain f b where w: "writing s = WSending f b" by blast
  obtain t c where r: "writer_sent W S f b sent (conn s) = (t, c)" by fastforce
  have i: "out_inv acc (map fst (wire s) @ [f]) True (conn s)" using i w by (simp add: sent_inv_def out_frames_def active_def)
  have "settles (conn s) c" using settles_tasks(6) [of "conn s" W S f b sent] r by simp
  then have c: "out_inv acc (map fst (wire s) @ [f]) True c" using out_inv_flows [OF i settles_flows] by simp
  then have "out_inv acc (map fst (wire s)) False c" "out_inv acc (map fst (wire s) @ [f]) False c"
    by (rule out_inv_less; simp)+
  then show ?thesis
    using c e r by (auto simp: sent_event_def w writer_sent_def sent_inv_def out_frames_def active_def split: if_splits)
next
  case False
  then have "s' = s" using e by (cases "writing s") (simp_all add: sent_event_def)
  then show ?thesis using i by simp
qed

lemma sent_inv_exec:
  assumes inv: "sys_inv free waiting written l s" and B: "buf B unread" and i: "sent_inv acc s" and e: "exec B W S e s = Done s'"
  shows "sent_inv (\<lambda>sid. acc sid @ on_id (accepted_by S e s) sid) s'"
proof (cases "writer_event e")
  case True
  have exit: "sent_inv acc s'" if x: "exec B W S WriterExit s = Done s'"
  proof (cases "writing s = WClosing")
    case True
    have "settles (conn s) (writer_exit S (conn s))" by (rule settles_tasks(5))
    then have "out_inv acc (out_frames s) False (writer_exit S (conn s))"
      using i out_inv_flows [OF _ settles_flows, of acc "out_frames s" False "conn s"] True by (simp add: sent_inv_def active_def)
    then show ?thesis using True x by (auto simp: sent_inv_def out_frames_def active_def)
  next
    case False
    then have "s' = s" using x by (cases "writing s") simp_all
    then show ?thesis using i by simp
  qed
  show ?thesis
    using True e exit sent_inv_take [OF inv i] sent_inv_sent [OF i] by (cases e) simp_all
next
  case False
  then show ?thesis using sent_inv_queues [OF i exec_queues [OF inv B e]] by simp
qed

lemma recorded_sent:
  assumes "recorded B W S m l s h" "buf B unread" "writer_buffer W written"
  shows "sent_inv (accepted h) s"
  using assms
proof (induction rule: recorded.induct)
  case (start is_client certs c keepalive)
  then show ?case using sent_inv_new [OF start(1)] by (simp add: history_new_def)
next
  case (event s h e s')
  have "sys_inv free waiting written l s" by (rule reachable_inv [OF recorded_reachable [OF event(1)] event(4,5)])
  then show ?case using sent_inv_exec [OF _ event(4) event(3) [OF event(4,5)] event(2)] by (simp add: observe_def)
qed

end

end
