(* ===== verification/Transfer_In.thy ===== *)
theory Transfer_In
  imports Transfer_Out
begin

text \<open>
  What happens to received bytes on their way to the application. \<open>views\<close> holds between the states before and after
  everything but the arrival of data, reading, and the drop of a receiving half: what a reader can see of its stream is
  unchanged.
\<close>

section \<open>What a reader sees\<close>

record recv_view =
  v_chunks :: "inbound_chunk list"
  v_reset :: "u64 option"
  v_fin :: bool
  v_terminal :: bool
  v_gone :: bool
  v_mode :: usize

definition view_of :: "'s stream_state \<Rightarrow> recv_view" where
  "view_of st = \<lparr> v_chunks = chunks (inbound st), v_reset = reset_error (inbound st), v_fin = fin_received (inbound st),
     v_terminal = recv_terminal st, v_gone = (recv_dropped st \<or> recv_discarded st), v_mode = recv_mode st \<rparr>"

definition view :: "'s connection \<Rightarrow> u64 \<Rightarrow> recv_view option" where
  "view c sid = map_option view_of (objects c sid)"

definition sees :: "'s connection \<Rightarrow> 's connection \<Rightarrow> bool" where
  "sees c c' \<longleftrightarrow> (\<forall>i. i < id_limit c i \<longrightarrow> view c' i = view c i \<and> i < id_limit c' i)"

definition views :: "'s connection \<Rightarrow> 's connection \<Rightarrow> bool" where
  "views c c' \<longleftrightarrow> incoming_streams c' = incoming_streams c \<and> sees c c'"

lemma sees_trans: "sees a b \<Longrightarrow> sees b c \<Longrightarrow> sees a c"
  by (simp add: sees_def)

lemma views_refl [simp]: "views c c"
  by (simp add: views_def sees_def)

lemma views_trans: "views a b \<Longrightarrow> views b c \<Longrightarrow> views a c"
  by (simp add: views_def sees_def)

lemma views_sees: "views c c' \<Longrightarrow> sees c c'"
  by (simp add: views_def)

lemma viewsI:
  assumes "views c d" "incoming_streams c' = incoming_streams d" "id_limit c' = id_limit d" "view c' = view d"
  shows "views c c'"
  using assms by (simp add: views_def sees_def)

lemma view_same: "objects c' = objects c \<Longrightarrow> view c' = view c"
  by (simp add: view_def fun_eq_iff)

text \<open>The building blocks.\<close>

lemma views_on_stream:
  assumes "views c d" "\<And>st. view_of (f st) = view_of st"
  shows "views c (on_stream sid f d)"
  by (rule viewsI [OF assms(1)]) (auto simp: view_def id_limit_def fun_eq_iff option.map_comp comp_def assms(2))

lemma views_on_queues: "views c d \<Longrightarrow> views c (on_queues g d)"
  by (erule viewsI) (simp_all add: view_def id_limit_def fun_eq_iff)

lemma views_fields:
  assumes "views c d"
  shows "views c (d\<lparr>c_window := w\<rparr>)" "views c (d\<lparr>inbound_conn_bytes := s\<rparr>)"
    "views c (d\<lparr>outbound_conn_bytes := s\<rparr>)" "views c (d\<lparr>outbound_frames := s\<rparr>)"
    "views c (d\<lparr>open_streams := s\<rparr>)" "views c (d\<lparr>stats := t\<rparr>)" "views c (d\<lparr>open_locked := b\<rparr>)"
    "views c (d\<lparr>streams := ids\<rparr>)" "views c (d\<lparr>connection_handles := n\<rparr>)" "views c (d\<lparr>joined := b\<rparr>)"
    "views c (d\<lparr>closed := b\<rparr>)" "views c (d\<lparr>terminated := b\<rparr>)" "views c (d\<lparr>cleanup_started := b\<rparr>)"
  by (rule viewsI [OF assms]; simp add: id_limit_def view_def fun_eq_iff)+

lemma view_credit: "credit_frame c c' \<Longrightarrow> view c' = view c"
  by (auto simp: credit_frame_def view_def fun_eq_iff option.map_comp comp_def view_of_def [abs_def])

lemma views_credit: "credit_frame d c' \<Longrightarrow> views c d \<Longrightarrow> views c c'"
  using view_credit [of d c'] by (erule_tac viewsI) (auto simp: credit_frame_def id_limit_def fun_eq_iff)

lemma views_drop_out: "views c d \<Longrightarrow> views c (drop_out_chunks S chs d)"
proof (induction chs arbitrary: d)
  case (Cons ch chs)
  have "views c (drop_out_chunk S ch d)"
    unfolding drop_out_chunk_def by (intro views_on_stream views_fields Cons.prems) (simp add: view_of_def)
  then show ?case using Cons.IH by simp
qed simp

section \<open>The operations\<close>

lemma views_closing:
  assumes "views c d"
  shows "views c (mark_closed S d)" "views c (snd (initiate_close S code reason d))"
proof -
  have objs: "views c (d\<lparr>streams := {}, objects := (\<lambda>i. if i \<in> streams d
      then map_option (mark_connection_closed S) (objects d i) else objects d i)\<rparr>)" if "views c d" for d
    by (rule viewsI [OF that])
      (auto simp: view_def mark_connection_closed_def id_limit_def fun_eq_iff option.map_comp comp_def view_of_def [abs_def])
  show "views c (mark_closed S d)"
    unfolding mark_closed_def Let_def writer_shutdown_def
    by (split if_split, intro conjI impI objs views_drop_out views_on_queues views_fields assms)
  show "views c (snd (initiate_close S code reason d))"
    using assms unfolding initiate_close_def Let_def
    by (auto split: sum.split intro!: views_fields views_on_queues views_drop_out)
qed

lemma views_flags:
  assumes "views c d"
  shows "views c (add_handles sid d)" "views c (release_send sid d)" "views c (set_send_locked sid b d)"
    "views c (release_outbound S sid m n j k d)" "views c (release_open_permit S sid d)" "views c (record_received n d)"
    "views c (record_sent n d)" "views c (count_opened d)" "views c (snd (enqueue_control f d))"
  using assms by (auto simp: add_handles_def release_send_def set_send_locked_def release_outbound_def release_open_permit_def
    record_received_def record_sent_def count_opened_def enqueue_control_def Let_def case_prod_beta view_of_def split: option.split
    intro!: views_on_stream views_fields views_on_queues)

lemma views_try_retire: "views c d \<Longrightarrow> views c (try_retire_stream S sid d)"
  unfolding try_retire_stream_def Let_def
  by (auto split: option.split intro!: views_on_queues views_fields views_flags)

lemma views_reset: "views c d \<Longrightarrow> views c (snd (reset_stream S sid code d))"
  unfolding reset_stream_def remove_queue_def Let_def
  by (auto simp: view_of_def split: sum.split option.split intro!: views_on_stream views_on_queues views_drop_out)

lemma views_sends:
  assumes "views c d"
  shows "views c (snd (poll_send S sid payload fin stage d))" "views c (drop_queue S sid payload stage d)"
proof -
  have enq: "views c (snd (enqueue_data S sid ch d))" if "views c d" for ch d
    unfolding enqueue_data_def using that views_drop_out [OF that, of S "[ch]"] by (auto intro!: views_on_queues)
  have fin: "views c (snd (queue_finish S sid payload fin d))" if "views c d" for payload d
    unfolding queue_finish_def Let_def case_prod_beta using that
    by (auto simp: view_of_def split: sum.split intro!: views_flags views_on_stream enq)
  have cb: "views c (snd (queue_conn_bytes S sid payload fin d))" if "views c d" for payload d
    unfolding queue_conn_bytes_def Let_def case_prod_beta using that
    by (auto split: sem_result.split intro!: views_flags views_fields fin)
  have cf: "views c (snd (queue_conn_frame S sid payload fin d))" if "views c d" for payload d
    unfolding queue_conn_frame_def Let_def case_prod_beta using that
    by (auto split: sem_result.split intro!: views_flags views_fields cb)
  have sb: "views c (snd (queue_stream_bytes S sid payload fin d))" if "views c d" for payload d
    unfolding queue_stream_bytes_def Let_def case_prod_beta using that
    by (auto simp: view_of_def split: sem_result.split option.split intro!: views_flags views_on_stream cf)
  have sf: "views c (snd (queue_stream_frame S sid payload fin d))" if "views c d" for payload d
    unfolding queue_stream_frame_def Let_def case_prod_beta using that
    by (auto simp: view_of_def split: sem_result.split option.split intro!: views_flags views_on_stream sb)
  have ql: "views c (snd (queue_lock S sid payload fin d))"
    unfolding queue_lock_def using assms
    by (auto split: sum.split bool.split option.split intro!: views_flags sf)
  show dq: "views c (drop_queue S sid payload stage d)"
    using assms by (cases stage) (auto intro!: views_flags)
  have "views c (snd (poll_queue S sid payload fin stage d))"
    using assms ql sf sb cf cb by (cases stage) (auto split: sum.split)
  then show "views c (snd (poll_send S sid payload fin stage d))"
    unfolding poll_send_def using assms dq by (auto split: option.split)
qed

lemma views_find_update: "views c d \<Longrightarrow> views c (snd (find_update ids d))"
proof (induction ids d rule: find_update.induct)
  case (2 sid ids d)
  have "views c (on_stream sid (\<lambda>st. st\<lparr>s_window := w\<rparr>) d)" for w
    by (rule views_on_stream [OF 2(4)]) (simp add: view_of_def)
  then show ?case using 2 by (auto split: option.split prod.split run.split sum.split)
qed simp

lemma views_control_pass: "views c d \<Longrightarrow> views c (snd (control_pass order d))"
  unfolding control_pass_def control_done_def
  using views_find_update [OF views_fields(1), of c d]
  by (auto split: list.split prod.split run.split option.split intro!: views_on_queues views_fields
      dest!: arg_cong [of "find_update _ _" _ snd])

lemma views_dispatch: "views c d \<Longrightarrow> views c (snd (dispatch S sid ch rest n d))"
proof -
  assume s: "views c d"
  let ?ch = "ch\<lparr>out_payload := drop n (out_payload ch)\<rparr>"
  let ?d = "on_stream (out_state ch) (\<lambda>st. st\<lparr>s_sent := s_sent st + as_u64 n,
     send_dispatched := send_dispatched st \<or> (out_fin ch \<and> out_payload ?ch = [])\<rparr>) d"
  have d: "views c ?d" by (rule views_on_stream [OF s]) (simp add: view_of_def)
  have "views c (drop_out_chunk S ?ch ?d)" using views_drop_out [OF d, of S "[?ch]"] by (simp only: drop_out_chunks.simps)
  with d have "views c (if out_payload ?ch = [] then drop_out_chunk S ?ch ?d else ?d)" by (split if_split) blast
  then show ?thesis unfolding dispatch_def Let_def snd_conv by (intro views_on_queues)
qed

lemma views_data_pass: "views c d \<Longrightarrow> views c (snd (data_pass S d))"
proof -
  have "views c d \<Longrightarrow> views c (snd (scan_ready S n cc ini mf set d))" for n cc ini mf set
  proof (induction n arbitrary: d)
    case (Suc n)
    have q: "views c (on_queues g d)" for g by (rule views_on_queues [OF Suc.prems])
    then show ?case
      using Suc views_on_queues [OF q] views_dispatch [OF q, of S]
      by (auto simp: Let_def case_prod_beta split: list.split option.split run.split)
  qed simp
  then show "views c d \<Longrightarrow> views c (snd (data_pass S d))" by (simp add: data_pass_def Let_def)
qed

lemma views_close_pass: "views c d \<Longrightarrow> views c (snd (close_pass d))"
  unfolding close_pass_def take_close_frame_def Let_def
  by (auto split: option.split intro!: views_on_queues)

lemma views_next_pass: "views c d \<Longrightarrow> views c (snd (next_pass order S d))"
proof -
  assume s: "views c d"
  obtain r1 c1 where c1: "(if control_turn (writer d) \<or> is_urgent (control (writer d)) then control_pass order d
      else (Done None, d)) = (r1, c1)"
    by (metis surj_pair)
  then have i1: "views c c1" using s views_control_pass [OF s, of order] by (auto split: if_splits)
  obtain r2 c2 where c2: "data_pass S c1 = (r2, c2)" by (metis surj_pair)
  then have i2: "views c c2" using views_data_pass [OF i1, of S] by simp
  show ?thesis
    using i1 i2 views_close_pass [OF s] views_close_pass [OF i2]
    by (auto simp: next_pass_def c1 c2 split: run.split option.split intro!: views_on_queues)
qed

lemma views_next_frame:
  assumes "queues_inv d" "views c d"
  shows "views c (snd (next_frame order S d))"
proof -
  obtain p1 c1 where n: "next_pass order S d = (p1, c1)" by (metis surj_pair)
  have "views c c1" using views_next_pass [OF assms(2), of order S] n by simp
  then show ?thesis using views_next_pass [of c c1 order S] by (simp add: next_frame_two [OF assms(1)] n split: pass.split)
qed

lemma views_tasks:
  shows "views c (snd (keepalive_tick S c))" "views c (supervisor_check S c)" "views c (supervisor_deadline S c)"
    "views c (writer_exit S c)" "views c (snd (writer_sent W S f b sent c))" "views c (reader_eof S c)" "views c (reader_idle S c)"
  unfolding keepalive_tick_def supervisor_check_def supervisor_deadline_def writer_exit_def writer_sent_def
    reader_eof_def reader_idle_def frame_sent_def Let_def case_prod_beta
  by (auto simp: view_of_def split: option.split intro!: views_flags views_closing views_fields views_try_retire views_on_stream)

lemma views_calls:
  shows "views c (snd (connection_close S reason c))" "views c (connection_abort c)" "views c (connection_clone c)"
    "views c (connection_drop c)" "views c (drop_open stage c)" "views c (drop_call S sid p g c)"
    "views c (drop_send_stream S h c)" "views c (snd (select_send_mode sid m c))"
proof -
  show "views c (drop_open stage c)" by (cases stage) (simp_all add: views_fields)
  show "views c (drop_call S sid p g c)" by (cases g) (simp_all add: views_sends)
qed (auto simp: connection_close_def connection_abort_def connection_clone_def connection_drop_def drop_send_stream_def
    select_send_mode_def view_of_def Let_def split: sum.split option.split prod.split
    intro!: views_flags views_closing views_fields views_sends views_on_stream)

lemma views_send_call:
  shows "views c (snd (poll_call S sid p fin stage c))" "views c (snd (snd (poll_flush S h c)))"
    "views c (snd (snd (poll_write S h src c)))" "views c (snd (snd (poll_shutdown S h c)))"
proof -
  have sel: "views c d" if "select_send_mode sid m c = (x, d)" for sid m x and c d :: "'a connection"
    using views_calls(8) [of c sid m] that by simp
  have send: "views c e" if "views c d" "poll_send S sid p fin g d = (x, e)" for sid p fin g x and c d e :: "'a connection"
    using views_sends(1) [OF that(1), of S sid p fin g] that(2) by simp
  have pw: "views c e" if "views c d" "poll_pending_write S h d = (x, h', e)" for x h h' and c d e :: "'a connection"
    using that send [OF that(1)] by (auto simp: poll_pending_write_def split: option.splits prod.splits sum.splits)
  have fl: "views c e" if "poll_flush S h c = (x, h', e)" for x h h' and c e :: "'a connection"
    using that sel pw [OF sel] by (auto simp: poll_flush_def split: prod.splits sum.splits)
  show "views c (snd (poll_call S sid p fin stage c))"
    using views_sends(1) [of c c S sid p fin] views_sends(1) [OF sel] sel [of sid 1 c]
    by (cases stage) (auto simp: continue_call_def split: prod.split sum.split)
  show "views c (snd (snd (poll_flush S h c)))" using fl [of h c] by (cases "poll_flush S h c") simp
  have "views c e" if "poll_write S h src c = (x, h', e)" for x h' e
    using that sel views_trans [OF sel fl]
    by (auto simp: poll_write_def Let_def split: prod.splits sum.splits poll.splits if_splits)
  then show "views c (snd (snd (poll_write S h src c)))" by (cases "poll_write S h src c") simp
  have "views c e" if "poll_shutdown S h c = (x, h', e)" for x h' e
    using that sel pw [OF sel] send [OF pw [OF sel]]
    by (auto simp: poll_shutdown_def Let_def split: prod.splits sum.splits poll.splits if_splits)
  then show "views c (snd (snd (poll_shutdown S h c)))" by (cases "poll_shutdown S h c") simp
qed

section \<open>New streams\<close>

definition fresh_view :: recv_view where
  "fresh_view = \<lparr> v_chunks = [], v_reset = None, v_fin = False, v_terminal = False, v_gone = False, v_mode = 0 \<rparr>"

lemma sees_register:
  assumes new: "id_limit c sid \<le> sid" and mono: "\<And>i. id_limit c i \<le> id_limit c' i"
    and c': "objects c' = objects (register_stream S sid c)"
  shows "sees c c'" "view c' sid = Some fresh_view"
proof -
  show "sees c c'"
    unfolding sees_def
  proof (intro allI impI conjI)
    fix i assume i: "i < id_limit c i"
    then have "i \<noteq> sid" using new by auto
    then show "view c' i = view c i" by (simp add: view_def c' register_stream_def)
    show "i < id_limit c' i" by (rule order.strict_trans2 [OF i mono])
  qed
  show "view c' sid = Some fresh_view"
    by (simp add: view_def c' register_stream_def view_of_def stream_state_new_def fresh_view_def)
qed

lemma open_finish_views:
  assumes ids: "ids_inv c" and r: "open_finish S c = (r, c')"
  shows "views c c'" "r = Inr sid \<Longrightarrow> id_limit c sid \<le> sid \<and> view c' sid = Some fresh_view"
proof -
  have "views c c' \<and> (r = Inr sid \<longrightarrow> id_limit c sid \<le> sid \<and> view c' sid = Some fresh_view)"
  proof (cases "\<exists>i. r = Inr i")
    case True
    then obtain i where i: "r = Inr i" by blast
    have nx: "next_local_stream_id c = i" "i \<le> varint_MAX"
      and c': "c' = add_handles i (count_opened (register_stream S i (on_queues (\<lambda>q. q\<lparr>control := control q @ [OpenStream (VarInt i)]\<rparr>)
                (c\<lparr>next_local_stream_id := i + 2\<rparr>))))"
      using r i by (auto simp: open_finish_def take_stream_id_def from_u64_def Let_def split: if_splits)
    let ?d = "register_stream S i (on_queues (\<lambda>q. q\<lparr>control := control q @ [OpenStream (VarInt i)]\<rparr>) (c\<lparr>next_local_stream_id := i + 2\<rparr>))"
    have new: "id_limit c i \<le> i" using next_ids_fresh(3) [OF ids] nx by simp
    have mono: "id_limit c j \<le> id_limit ?d j" for j
      using next_id(4) [OF nx(2)] nx(1) by (simp add: id_limit_def register_stream_def)
    note reg = sees_register [OF new mono, of S]
    have d: "sees c ?d" "view ?d i = Some fresh_view" by (rule reg; simp add: register_stream_def)+
    have v: "views ?d c'" unfolding c' by (intro views_flags) simp
    have "view c' i = view ?d i"
      by (simp add: c' add_handles_def count_opened_def view_def option.map_comp comp_def view_of_def [abs_def])
    moreover have "sees c c'" using sees_trans [OF d(1) views_sees [OF v]] .
    moreover have "incoming_streams c' = incoming_streams c" using v by (simp add: views_def register_stream_def)
    ultimately show ?thesis using i new d(2) by (auto simp: views_def)
  next
    case False
    then show ?thesis
      using r by (auto simp: open_finish_def take_stream_id_def from_u64_def Let_def split: if_splits
          intro!: views_fields views_closing)
  qed
  then show "views c c'" "r = Inr sid \<Longrightarrow> id_limit c sid \<le> sid \<and> view c' sid = Some fresh_view" by blast+
qed

lemma poll_open_views:
  assumes ids: "ids_inv c" and r: "poll_open_bi S stage c = (r, c')"
  shows "views c c'" "r = Inl (Inr sid) \<Longrightarrow> id_limit c sid \<le> sid \<and> view c' sid = Some fresh_view"
proof -
  define ok where "ok x \<longleftrightarrow> views c (snd x) \<and> (fst x = Inl (Inr sid) \<longrightarrow> id_limit c sid \<le> sid \<and> view (snd x) sid = Some fresh_view)"
    for x :: "((fault + u64) + open_stage) \<times> 'a connection"
  have per: "ok (open_permit_stage S (c\<lparr>open_locked := b\<rparr>))" for b
  proof -
    obtain x y where a: "sem_poll_acquire S 1 (open_streams c) = (x, y)" by fastforce
    let ?d = "c\<lparr>open_locked := b, open_streams := y\<rparr>"
    obtain z e where f: "open_finish S ?d = (z, e)" by fastforce
    have lim: "id_limit ?d = id_limit c" by (simp add: id_limit_def fun_eq_iff)
    then have ids': "ids_inv ?d" using ids by (simp add: ids_inv_def)
    have d: "views c ?d" by (intro views_fields) simp
    note o = open_finish_views [OF ids' f]
    have "views c (e\<lparr>open_locked := False\<rparr>)" by (rule views_fields(7) [OF views_trans [OF d o(1)]])
    then show ?thesis
      using a f o(2) [of sid] lim d views_fields(7) [OF d]
      by (cases x) (auto simp: open_permit_stage_def ok_def Let_def view_def)
  qed
  have lock: "ok (open_lock_stage S c)"
    using per [of True] by (auto simp: open_lock_stage_def ok_def split: sum.split)
  have "ok (poll_open_bi S stage c)"
    using lock per [of "open_locked c"] by (cases stage) (auto simp: ok_def split: sum.split)
  then show "views c c'" "r = Inl (Inr sid) \<Longrightarrow> id_limit c sid \<le> sid \<and> view c' sid = Some fresh_view"
    using r by (simp_all add: ok_def)
qed

section \<open>Frames of the peer\<close>

lemma view_on_stream: "view (on_stream sid f c) i = (if i = sid then map_option (view_of \<circ> f) (objects c sid) else view c i)"
  by (simp add: view_def option.map_comp comp_def)

lemma view_someD: "view c sid = Some w \<Longrightarrow> \<exists>st. objects c sid = Some st \<and> w = view_of st"
  by (auto simp: view_def)

text \<open>Exactly the payload is appended to what the reader sees.\<close>

definition extends :: "bytes \<Rightarrow> recv_view \<Rightarrow> recv_view \<Rightarrow> bool" where
  "extends p w w' \<longleftrightarrow> v_reset w' = v_reset w \<and> v_fin w' = v_fin w \<and> v_terminal w' = v_terminal w \<and> v_gone w' = v_gone w
     \<and> v_mode w' = v_mode w \<and> (\<not> v_gone w \<longrightarrow> chunk_bytes (v_chunks w') = chunk_bytes (v_chunks w) @ p)"

lemma push_inbound_view:
  assumes r: "push_inbound S sid p c = (r, c')" and st: "objects c sid = Some st"
  shows "if r = Inr () then incoming_streams c' = incoming_streams c \<and> id_limit c' = id_limit c
      \<and> (\<forall>i. i \<noteq> sid \<longrightarrow> view c' i = view c i) \<and> (\<exists>w'. view c' sid = Some w' \<and> extends p (view_of st) w')
    else views c c'"
proof (cases "recv_discarded st")
  case True
  then have c': "r = Inr ()" "c' = c\<lparr>c_window := snd (rw_consume (length p) (c_window c))\<rparr>"
    using r st by (auto simp: push_inbound_def)
  then have "view c' = view c" by (intro view_same) simp
  then show ?thesis using c' True st by (auto simp: id_limit_def fun_eq_iff view_def extends_def view_of_def)
next
  case False
  obtain x d where a: "acquire_inbound S sid (length p) c = (x, d)" by fastforce
  have f: "credit_frame c d" using credit_frame_acquire [of c S sid "length p"] a by simp
  then have vd: "views c d" by (rule views_credit) simp
  show ?thesis
  proof (cases x)
    case (Inl e)
    then show ?thesis using r st False a vd by (auto simp: push_inbound_def and_then_def)
  next
    case (Inr cs)
    obtain cp sp where cs: "cs = (cp, sp)" by fastforce
    obtain w t where d: "objects d sid = Some (st\<lparr>s_window := w, inbound_stream_bytes := t\<rparr>)" (is "_ = Some ?st")
      by (rule credit_frame_object [OF f st])
    have s: "store_inbound S sid p cp sp d = (r, c')" using r st False a Inr cs by (simp add: push_inbound_def and_then_def)
    show ?thesis
    proof (cases "\<exists>cs. store_chunk (min (max_inbound_stream_bytes (limits d)) (16 * 1024)) p cp sp (chunks (inbound st)) = Some cs
        \<and> \<not> fin_received (inbound st)")
      case True
      then obtain chs where chs: "store_chunk (min (max_inbound_stream_bytes (limits d)) (16 * 1024)) p cp sp (chunks (inbound st)) = Some chs"
        and nf: "\<not> fin_received (inbound st)" by blast
      have c': "r = Inr ()" "c' = on_inbound sid (\<lambda>i. i\<lparr>chunks := chs\<rparr>) d"
        using s d False chs nf by (auto simp: store_inbound_def Let_def)
      have vi: "view c' i = view c i" if "i \<noteq> sid" for i
        using that view_credit [OF f] by (simp add: c'(2) on_inbound_def view_on_stream)
      have "view c' sid = Some (view_of (st\<lparr>inbound := (inbound st)\<lparr>chunks := chs\<rparr>\<rparr>))"
        using d by (simp add: c'(2) on_inbound_def view_on_stream view_of_def)
      then have "\<exists>w'. view c' sid = Some w' \<and> extends p (view_of st) w'"
        using store_chunk_bytes [OF chs] by (simp add: extends_def view_of_def)
      then show ?thesis using c' vi f by (auto simp: credit_frame_def on_inbound_def id_limit_def fun_eq_iff)
    next
      case nope: False
      have "r \<noteq> Inr () \<and> (c' = d \<or> c' = release_inbound S sid (held cp) (held sp) d)"
        using s d False nope by (auto simp: store_inbound_def Let_def split: if_splits option.splits)
      then show ?thesis using vd views_credit [OF credit_frame_release vd] by auto
    qed
  qed
qed

lemma views_receive_both: "views c (snd (receive_both sid n c))"
  by (auto simp: receive_both_def Let_def view_of_def split: prod.split sum.split option.split intro!: views_on_stream views_fields)

text \<open>What a frame does to one stream: it carries data, it ends the stream, or both; or it resets the stream. A frame that is
  not accepted leaves the streams alone.\<close>

definition alters :: "u64 \<Rightarrow> 's connection \<Rightarrow> 's connection \<Rightarrow> bool" where
  "alters sid c c' \<longleftrightarrow> incoming_streams c' = incoming_streams c \<and> id_limit c' = id_limit c \<and> (\<forall>i. i \<noteq> sid \<longrightarrow> view c' i = view c i)"

definition data_arrives :: "bytes \<Rightarrow> bool \<Rightarrow> recv_view \<Rightarrow> recv_view \<Rightarrow> bool" where
  "data_arrives p fin w w' \<longleftrightarrow> \<not> v_terminal w \<and> v_terminal w' = fin \<and> v_fin w' = (v_fin w \<or> fin) \<and> v_reset w' = v_reset w
     \<and> v_gone w' = v_gone w \<and> v_mode w' = v_mode w \<and> (\<not> v_gone w \<longrightarrow> chunk_bytes (v_chunks w') = chunk_bytes (v_chunks w) @ p)"

definition reset_arrives :: "recv_view \<Rightarrow> recv_view \<Rightarrow> bool" where
  "reset_arrives w w' \<longleftrightarrow> \<not> v_terminal w \<and> v_terminal w' \<and> v_fin w' \<and> v_reset w' \<noteq> None \<and> v_gone w' = v_gone w \<and> v_mode w' = v_mode w \<and> v_chunks w' = []"

lemma views_alters: "views d c' \<Longrightarrow> alters sid c d \<Longrightarrow> id_limit c' = id_limit d \<Longrightarrow> view c' = view d \<Longrightarrow> alters sid c c'"
  by (simp add: alters_def views_def)

lemma try_retire_frame:
  "view (try_retire_stream S sid c) = view c" "id_limit (try_retire_stream S sid c) = id_limit c"
  "incoming_streams (try_retire_stream S sid c) = incoming_streams c"
proof -
  have p: "view (release_open_permit S i c) = view c" for i and c :: "'a connection"
    by (auto simp: release_open_permit_def view_def fun_eq_iff option.map_comp comp_def view_of_def [abs_def] split: option.split)
  show "view (try_retire_stream S sid c) = view c"
    using p [of sid c] by (auto simp: try_retire_stream_def Let_def view_def fun_eq_iff split: option.split)
  show "id_limit (try_retire_stream S sid c) = id_limit c" "incoming_streams (try_retire_stream S sid c) = incoming_streams c"
    by (auto simp: try_retire_stream_def release_open_permit_def Let_def id_limit_def fun_eq_iff split: option.split)
qed

lemma on_remote_stream_view:
  assumes r: "on_remote_stream_frame S sid p fin c = (r, c')"
  shows "if r = Inr () then alters sid c c' \<and> (\<exists>w w'. view c sid = Some w \<and> view c' sid = Some w' \<and> data_arrives p fin w w') else views c c'"
proof (cases "lookup_stream sid c")
  case None
  then show ?thesis using r by (auto simp: on_remote_stream_frame_def)
next
  case (Some st)
  then have st: "objects c sid = Some st" by (auto simp: lookup_stream_def split: if_splits)
  show ?thesis
  proof (cases "recv_terminal st")
    case True
    then show ?thesis using r Some by (auto simp: on_remote_stream_frame_def ensure_peer_send_open_def)
  next
    case False
    obtain x d where x: "receive_both sid (length p) c = (x, d)" by fastforce
    have vd: "views c d" using views_receive_both [of c sid "length p"] x by simp
    show ?thesis
    proof (cases x)
      case (Inl e)
      then show ?thesis using r Some False x vd by (auto simp: on_remote_stream_frame_def ensure_peer_send_open_def and_then_def)
    next
      case (Inr u)
      obtain wi where d: "objects d sid = Some (st\<lparr>s_window := wi\<rparr>)" (is "_ = Some ?st") "id_limit d = id_limit c" "view d = view c"
        using x Inr st by (auto simp: receive_both_def Let_def view_def fun_eq_iff view_of_def id_limit_def split: prod.splits sum.splits)
      obtain y e where y: "(if p \<noteq> [] then push_inbound S sid p else ok ()) d = (y, e)" by fastforce
      have pv: "if y = Inr () then incoming_streams e = incoming_streams d \<and> id_limit e = id_limit d
          \<and> (\<forall>i. i \<noteq> sid \<longrightarrow> view e i = view d i) \<and> (\<exists>w'. view e sid = Some w' \<and> extends p (view_of ?st) w') else views d e"
      proof (cases "p = []")
        case True
        then have "e = d" "y = Inr ()" using y by (auto simp: ok_def)
        then show ?thesis using True d(1) by (simp add: view_def extends_def)
      next
        case False
        then show ?thesis using push_inbound_view [OF _ d(1), of S p y e] y by simp
      qed
      have rc: "r = y" "c' = (if y = Inr () \<and> fin then try_retire_stream S sid (mark_recv_terminal sid e) else e)"
        using r Some False x Inr y by (auto simp: on_remote_stream_frame_def ensure_peer_send_open_def and_then_def split: sum.splits)
      show ?thesis
      proof (cases "y = Inr ()")
        case True
        then obtain w' where w': "view e sid = Some w'" "extends p (view_of ?st) w'"
          and al: "alters sid c e" using pv d(2,3) vd by (auto simp: alters_def views_def)
        obtain st' where st': "objects e sid = Some st'" "w' = view_of st'" using view_someD [OF w'(1)] by blast
        have mt: "view (mark_recv_terminal sid e) sid = Some (w'\<lparr>v_fin := True, v_terminal := True\<rparr>)" "alters sid c (mark_recv_terminal sid e)"
          using st' al by (auto simp: mark_recv_terminal_def view_on_stream view_of_def alters_def id_limit_def fun_eq_iff)
        have w: "view c sid = Some (view_of st)" using st by (simp add: view_def)
        have "view_of ?st = view_of st" by (simp add: view_of_def)
        then have ar: "data_arrives p False (view_of st) w'" "data_arrives p True (view_of st) (w'\<lparr>v_fin := True, v_terminal := True\<rparr>)"
          using w'(2) False by (auto simp: extends_def data_arrives_def view_of_def)
        show ?thesis
        proof (cases fin)
          case True
          then have "c' = try_retire_stream S sid (mark_recv_terminal sid e)" using rc \<open>y = Inr ()\<close> by simp
          then show ?thesis using rc(1) True \<open>y = Inr ()\<close> mt w ar(2) by (auto simp: alters_def try_retire_frame)
        next
          case f: False
          then show ?thesis using rc \<open>y = Inr ()\<close> al w w'(1) ar(1) by auto
        qed
      qed (use rc pv vd in \<open>auto intro: views_trans\<close>)
    qed
  qed
qed

lemma on_remote_reset_view:
  assumes r: "on_remote_reset S sid code c = (r, c')"
  shows "if r = Inr () then alters sid c c' \<and> (\<exists>w w'. view c sid = Some w \<and> view c' sid = Some w' \<and> reset_arrives w w') else views c c'"
proof (cases "\<exists>st. lookup_stream sid c = Some st \<and> \<not> recv_terminal st")
  case True
  then obtain st where l: "lookup_stream sid c = Some st" "\<not> recv_terminal st" by blast
  then have st: "objects c sid = Some st" by (auto simp: lookup_stream_def split: if_splits)
  let ?d = "on_inbound sid (\<lambda>i. i\<lparr>reset_error := Some code, chunks := []\<rparr>) c"
  have f: "credit_frame ?d (mark_reset S sid code c)" using st by (simp add: mark_reset_def credit_frame_drops)
  have d: "objects ?d sid = Some (st\<lparr>inbound := (inbound st)\<lparr>reset_error := Some code, chunks := []\<rparr>\<rparr>)" using st by (simp add: on_inbound_def)
  obtain w t where m: "objects (mark_reset S sid code c) sid
      = Some (st\<lparr>inbound := (inbound st)\<lparr>reset_error := Some code, chunks := []\<rparr>, s_window := w, inbound_stream_bytes := t\<rparr>)"
    by (rule credit_frame_object [OF f d])
  have "view (mark_reset S sid code c) i = view c i" if "i \<noteq> sid" for i
    using view_credit [OF f] that by (simp add: on_inbound_def view_on_stream)
  then have al: "alters sid c (mark_reset S sid code c)"
    using f by (auto simp: alters_def credit_frame_def on_inbound_def id_limit_def fun_eq_iff)
  have "view (mark_recv_terminal sid (mark_reset S sid code c)) sid
      = Some \<lparr> v_chunks = [], v_reset = Some code, v_fin = True, v_terminal = True, v_gone = (recv_dropped st \<or> recv_discarded st), v_mode = recv_mode st \<rparr>"
    using m by (simp add: mark_recv_terminal_def view_on_stream view_of_def)
  moreover have "alters sid c (mark_recv_terminal sid (mark_reset S sid code c))"
    using al by (auto simp: mark_recv_terminal_def view_on_stream alters_def id_limit_def fun_eq_iff)
  moreover have "c' = try_retire_stream S sid (mark_recv_terminal sid (mark_reset S sid code c))" "r = Inr ()"
    using r l by (auto simp: on_remote_reset_def ensure_peer_send_open_def)
  moreover have "view c sid = Some (view_of st)" using st by (simp add: view_def)
  ultimately show ?thesis using l(2) by (auto simp: alters_def try_retire_frame reset_arrives_def view_of_def)
next
  case False
  then show ?thesis using r by (auto simp: on_remote_reset_def ensure_peer_send_open_def split: option.splits)
qed

lemma on_remote_open_view:
  assumes ids: "ids_inv c" and sid: "sid \<le> varint_MAX" and r: "on_remote_open S sid c = (r, c')"
  shows "sees c c' \<and> (if r = Inr () then incoming_streams c' = incoming_streams c @ [sid] \<and> id_limit c sid \<le> sid \<and> view c' sid = Some fresh_view
    else incoming_streams c' = incoming_streams c)"
proof -
  obtain x s where a: "sem_try_acquire S 1 (open_streams c) = (x, s)" by fastforce
  let ?d = "count_opened ((register_stream S sid (c\<lparr>open_streams := s\<rparr>))\<lparr>next_remote_stream_id := sid + 2\<rparr>)"
  have keep: "sees c (c\<lparr>open_streams := t\<rparr>)" for t by (rule views_sees [OF views_fields(5)]) simp
  have reg: "sees c ?d \<and> sees c (?d\<lparr>incoming_streams := xs\<rparr>) \<and> id_limit c sid \<le> sid \<and> view (?d\<lparr>incoming_streams := xs\<rparr>) sid = Some fresh_view"
    if "sid = next_remote_stream_id c" for xs
  proof -
    have new: "id_limit c sid \<le> sid" using next_ids_fresh(4) [OF ids] that by simp
    have mono: "id_limit c j \<le> id_limit ?d j" "id_limit c j \<le> id_limit (?d\<lparr>incoming_streams := xs\<rparr>) j" for j
      using next_id(4) [OF sid] that by (simp_all add: id_limit_def register_stream_def count_opened_def)
    have o: "objects ?d = objects (register_stream S sid c)" "objects (?d\<lparr>incoming_streams := xs\<rparr>) = objects (register_stream S sid c)"
      by (simp_all add: register_stream_def count_opened_def)
    show ?thesis using new sees_register [OF new mono(1) o(1)] sees_register [OF new mono(2) o(2)] by blast
  qed
  have "incoming_streams ?d = incoming_streams c" by (simp add: register_stream_def count_opened_def)
  then show ?thesis
    using r a keep [of "open_streams c"] keep reg
    by (cases x) (auto simp: on_remote_open_def Let_def sees_def split: if_splits)
qed

definition arrival :: "frame \<Rightarrow> bool \<Rightarrow> 's connection \<Rightarrow> 's connection \<Rightarrow> bool" where
  "arrival f accept c c' = (case f of
     Stream v fin p \<Rightarrow> if accept then alters (into_inner v) c c'
         \<and> (\<exists>w w'. view c (into_inner v) = Some w \<and> view c' (into_inner v) = Some w' \<and> data_arrives p fin w w')
       else views c c'
   | ResetStream v e \<Rightarrow> if accept then alters (into_inner v) c c'
         \<and> (\<exists>w w'. view c (into_inner v) = Some w \<and> view c' (into_inner v) = Some w' \<and> reset_arrives w w')
       else views c c'
   | OpenStream v \<Rightarrow> sees c c' \<and> (if accept then incoming_streams c' = incoming_streams c @ [into_inner v]
         \<and> id_limit c (into_inner v) \<le> into_inner v \<and> view c' (into_inner v) = Some fresh_view
       else incoming_streams c' = incoming_streams c)
   | _ \<Rightarrow> views c c')"

lemma accept_frame_view:
  assumes ids: "ids_inv c" and wf: "wf_frame f" and r: "accept_frame S f c = (r, c')"
  shows "arrival f (r = Inr True) c c'"
proof (cases "\<not> is_settings f \<and> \<not> peer_settings (writer c)")
  case True
  then have "r \<noteq> Inr True" "c' = c" using r by (auto simp: accept_frame_def)
  then show ?thesis by (auto simp: arrival_def views_sees split: frame.split)
next
  case False
  then have h: "handle_frame S f c = (r, c')" using r by (auto simp: accept_frame_def)
  have step: "\<exists>x. a c = (x, c') \<and> (r = Inr True \<longleftrightarrow> x = Inr ())" if "and_then a (\<lambda>_. ok True) c = (r, c')" for a :: "('a connection, fault, unit) action"
    using that by (cases "a c" rule: action_cases) (auto simp: and_then_def ok_def)
  have quiet: "views c c'" if "and_then a (\<lambda>_. ok True) c = (r, c')" "views c (snd (a c))" for a :: "('a connection, fault, unit) action"
    using step [OF that(1)] that(2) by auto
  show ?thesis
  proof (cases f)
    case (Stream v fin p)
    then obtain x where "on_remote_stream_frame S (into_inner v) p fin c = (x, c')" "r = Inr True \<longleftrightarrow> x = Inr ()" using step h by fastforce
    then show ?thesis using on_remote_stream_view [of S "into_inner v" p fin c x c'] Stream by (simp add: arrival_def)
  next
    case (ResetStream v e)
    then obtain x where "on_remote_reset S (into_inner v) (error_code_into_inner e) c = (x, c')" "r = Inr True \<longleftrightarrow> x = Inr ()" using step h by fastforce
    then show ?thesis using on_remote_reset_view [of S "into_inner v" "error_code_into_inner e" c x c'] ResetStream by (simp add: arrival_def)
  next
    case (OpenStream v)
    then obtain x where "on_remote_open S (into_inner v) c = (x, c')" "r = Inr True \<longleftrightarrow> x = Inr ()" using step h by fastforce
    moreover have "into_inner v \<le> varint_MAX" using wf OpenStream by (simp add: wf_varint_def)
    ultimately show ?thesis using on_remote_open_view [OF ids, of "into_inner v" S x c'] OpenStream by (simp add: arrival_def)
  next
    case (Settings a b d)
    then show ?thesis using h by (auto simp: arrival_def on_settings_def intro!: quiet views_on_queues)
  next
    case (MaxData m)
    then show ?thesis using h by (auto simp: arrival_def on_max_data_def intro!: views_on_queues)
  next
    case (MaxStreamData v m)
    then show ?thesis using h by (auto simp: arrival_def on_max_stream_data_def view_of_def intro!: quiet views_on_stream)
  next
    case (StopSending v)
    then show ?thesis using h by (auto simp: arrival_def on_stop_sending_def intro!: quiet views_reset)
  next
    case Ping
    then show ?thesis using h by (auto simp: arrival_def ok_def)
  next
    case (ConnectionClose e m)
    then show ?thesis using h by (auto simp: arrival_def intro!: views_closing)
  qed
qed

lemma arrival_after:
  assumes "arrival f accept c d" "views d c'" "\<not> accept"
  shows "arrival f accept c c'"
  using assms by (auto simp: arrival_def views_def intro: sees_trans split: frame.splits)

section \<open>Reading\<close>

definition reads_from :: "u64 \<Rightarrow> 's connection \<Rightarrow> 's connection \<Rightarrow> bool" where
  "reads_from sid c c' \<longleftrightarrow> alters sid c c' \<and> (\<forall>w. view c sid = Some w \<longrightarrow> (\<exists>w'. view c' sid = Some w' \<and> v_reset w' = v_reset w
     \<and> v_terminal w' = v_terminal w \<and> v_gone w' = v_gone w \<and> (v_mode w \<noteq> 0 \<longrightarrow> v_mode w' = v_mode w)
     \<and> (v_fin w' \<longrightarrow> v_fin w \<or> v_terminal w)))"

lemma reads_from_refl: "reads_from sid c c"
  by (auto simp: reads_from_def alters_def)

lemma reads_from_trans: "reads_from sid a b \<Longrightarrow> reads_from sid b c \<Longrightarrow> reads_from sid a c"
proof -
  assume ab: "reads_from sid a b" and bc: "reads_from sid b c"
  have "\<exists>w'. view c sid = Some w' \<and> v_reset w' = v_reset w \<and> v_terminal w' = v_terminal w \<and> v_gone w' = v_gone w
      \<and> (v_mode w \<noteq> 0 \<longrightarrow> v_mode w' = v_mode w) \<and> (v_fin w' \<longrightarrow> v_fin w \<or> v_terminal w)"
    if w: "view a sid = Some w" for w
  proof -
    obtain x where x: "view b sid = Some x" "v_reset x = v_reset w" "v_terminal x = v_terminal w" "v_gone x = v_gone w" "v_mode w \<noteq> 0 \<longrightarrow> v_mode x = v_mode w" "v_fin x \<longrightarrow> v_fin w \<or> v_terminal w"
      using ab w unfolding reads_from_def by blast
    then show ?thesis using bc unfolding reads_from_def by fastforce
  qed
  then show ?thesis using ab bc by (auto simp: reads_from_def alters_def)
qed

lemma reads_from_view:
  "view c' = view c \<Longrightarrow> incoming_streams c' = incoming_streams c \<Longrightarrow> id_limit c' = id_limit c \<Longrightarrow> reads_from sid c c'"
  by (auto simp: reads_from_def alters_def)

lemma reads_from_credit: "credit_frame c c' \<Longrightarrow> reads_from sid c c'"
  using view_credit [of c c'] by (intro reads_from_view) (auto simp: credit_frame_def id_limit_def fun_eq_iff)

lemma reads_from_read_chunk: "reads_from sid c (snd (read_chunk sid c))"
  by (auto simp: read_chunk_def on_inbound_def reads_from_def alters_def view_on_stream id_limit_def fun_eq_iff view_of_def view_def
      split: option.split list.split)

lemma reads_from_select: "reads_from sid c (snd (select_recv_mode sid m c))"
  by (auto simp: select_recv_mode_def select_mode_def reads_from_def alters_def view_on_stream id_limit_def fun_eq_iff view_of_def view_def
      split: option.split sum.split prod.split)

lemma reads_from_ops:
  shows "reads_from (rs_id h) c (snd (snd (poll_read S room h c)))" "reads_from (rs_id h) c (snd (recv_read_chunk S h c))"
proof -
  have loop: "reads_from (rs_id h) c (snd (snd (read_loop S room h c)))" for c :: "'a connection"
    by (rule read_loop_steps [of "reads_from (rs_id h)" "rs_id h"])
      (auto intro: reads_from_refl reads_from_trans reads_from_credit reads_from_read_chunk)
  show "reads_from (rs_id h) c (snd (snd (poll_read S room h c)))"
  proof (cases "select_recv_mode (rs_id h) 2 c" rule: action_cases)
    case (returned u d)
    then have d: "reads_from (rs_id h) c d" using reads_from_select [of "rs_id h" c 2] by simp
    show ?thesis using d reads_from_trans [OF d loop] by (simp add: poll_read_def returned)
  qed (use reads_from_select [of "rs_id h" c 2] in \<open>simp add: poll_read_def\<close>)
  show "reads_from (rs_id h) c (snd (recv_read_chunk S h c))"
  proof (cases "select_recv_mode (rs_id h) 1 c" rule: action_cases)
    case (returned u d)
    obtain r e where e: "read_chunk (rs_id h) d = (r, e)" by fastforce
    have "reads_from (rs_id h) c d" "reads_from (rs_id h) d e"
      using reads_from_select [of "rs_id h" c 1] returned reads_from_read_chunk [of "rs_id h" d] e by simp_all
    then have ce: "reads_from (rs_id h) c e" by (rule reads_from_trans)
    have "reads_from (rs_id h) c e'" if "chunk_into_bytes S (rs_id h) ch e = (bs, e')" for ch bs e'
      using reads_from_trans [OF ce reads_from_credit [OF credit_frame_into_bytes]] that by (metis snd_conv)
    then show ?thesis
      using ce unfolding recv_read_chunk_def returned by (auto simp: e split: poll.split sum.split option.split prod.split)
  qed (use reads_from_select [of "rs_id h" c 1] in \<open>simp add: recv_read_chunk_def\<close>)
qed

text \<open>The bytes that a read returns are those that the reader had not been given yet, in order; the end is reported only when
  there are none left on a stream that the peer has ended.\<close>

definition read_bytes :: "(io_fault + bytes) poll \<Rightarrow> bytes" where
  "read_bytes r = (case r of Ready (Inr bs) \<Rightarrow> bs | _ \<Rightarrow> [])"

definition at_end :: "u64 \<Rightarrow> 's connection \<Rightarrow> bool" where
  "at_end sid c \<longleftrightarrow> (\<exists>w. view c sid = Some w \<and> v_reset w = None \<and> (v_fin w \<or> v_terminal w))"

lemma read_loop_reads:
  assumes "0 < room" "read_loop S room h c = (r, h', c')" "r \<noteq> Ready (Inl IoPanicked)"
  shows "undelivered h c = read_bytes r @ undelivered h' c' \<and> (eof h' \<longrightarrow> eof h \<or> at_end (rs_id h) c \<and> undelivered h' c' = [])
    \<and> (r = Ready (Inr []) \<longrightarrow> eof h') \<and> rs_id h' = rs_id h"
  using assms
proof (induction S room h c rule: read_loop.induct)
  case (1 S room h c)
  note loop = 1(4) and room = 1(3) and np = 1(5)
  show ?case
  proof (cases "read_buf h")
    case (Some ch)
    show ?thesis
    proof (cases "min (length (rb_deref (data ch))) room = 0")
      case True
      then have e: "rb_deref (data ch) = []" using room by (simp add: min_def split: if_splits)
      have u: "undelivered (h\<lparr>read_buf := None\<rparr>) (drop_chunk S (rs_id h) ch c) = undelivered h c"
        using undelivered_credit [OF credit_frame_drop [of c S "rs_id h" ch], of "h\<lparr>read_buf := None\<rparr>" "h\<lparr>read_buf := None\<rparr>"] Some e
        by (simp add: undelivered_def)
      have "at_end (rs_id h) (drop_chunk S (rs_id h) ch c) = at_end (rs_id h) c"
        by (simp add: at_end_def view_credit [OF credit_frame_drop])
      then show ?thesis using 1(2) [OF Some True room _ np] loop Some e u by (auto simp: read_loop.simps [of S room h])
    next
      case False
      then obtain bs x where r: "read_from S (rs_id h) ch room c = (Done (bs, x), c')" "h' = h\<lparr>read_buf := x\<rparr>" "r = Ready (Inr bs)"
        using loop Some np by (auto simp: read_loop.simps [of S room h] min_def split: prod.splits run.splits if_splits)
      note b = read_from_bytes [OF r(1)]
      have "undelivered h' c' = undelivered h' c" using b(3) by (rule undelivered_credit) simp_all
      then have "undelivered h c = bs @ undelivered h' c'" using b(1) r(2) Some by (auto simp: undelivered_def split: option.splits)
      moreover have "bs \<noteq> []" using b(2) False by (metis list.size(3))
      ultimately show ?thesis using r by (simp add: read_bytes_def)
    qed
  next
    case None
    obtain x d where x: "read_chunk (rs_id h) c = (x, d)" by fastforce
    consider "eof h" | ch where "\<not> eof h" "x = Ready (Inr (Some ch))" | "\<not> eof h" "\<And>ch. x \<noteq> Ready (Inr (Some ch))" by blast
    then show ?thesis
    proof cases
      case 2
      let ?h = "h\<lparr>read_fut := False, read_buf := Some ch, read_pos := 0\<rparr>"
      have l: "read_loop S room ?h d = (r, h', c')" using loop None 2 x by (simp add: read_loop.simps [of S room h])
      have "at_end (rs_id h) d = at_end (rs_id h) c"
        using x 2(2) by (auto simp: at_end_def read_chunk_def on_inbound_def view_on_stream view_def view_of_def split: option.splits list.splits if_splits)
      then show ?thesis
        using 1(1) [OF None 2(1) x [symmetric] 2(2) _ _ room l np] room
          undelivered_read_chunk(1) [where h = h and c = c and c' = d and ch = ch and a = False and b = 0] x 2 None by auto
    next
      case 3
      have u: "undelivered (h\<lparr>read_fut := a\<rparr>) d = undelivered h c" "undelivered (h\<lparr>read_fut := a, eof := e\<rparr>) d = undelivered h c" for a e
        using x 3 by (auto simp: read_chunk_def undelivered_def on_inbound_def split: option.splits list.splits if_splits)
      have e: "at_end (rs_id h) c \<and> undelivered h c = []" if "x = Ready (Inr None)"
        using x that None by (auto simp: read_chunk_def undelivered_def at_end_def view_def view_of_def split: option.splits list.splits if_splits)
      show ?thesis
        using loop None x 3 u e
        by (cases x) (auto simp: read_loop.simps [of S room h] read_bytes_def split: sum.splits option.splits)
    qed (use loop None in \<open>auto simp: read_loop.simps [of S room h] read_bytes_def\<close>)
  qed
qed

lemma undelivered_view:
  "undelivered h c = (case read_buf h of None \<Rightarrow> [] | Some ch \<Rightarrow> rb_deref (data ch))
     @ (case view c (rs_id h) of None \<Rightarrow> [] | Some w \<Rightarrow> chunk_bytes (v_chunks w))"
  by (auto simp: undelivered_def view_def view_of_def split: option.splits)

lemma select_recv_view:
  assumes "select_recv_mode sid m c = (x, d)"
  shows "undelivered h d = undelivered h c" "at_end i d = at_end i c"
    "x = Inr () \<Longrightarrow> \<exists>w. view c sid = Some w \<and> view d sid = Some (w\<lparr>v_mode := m\<rparr>) \<and> (v_mode w = 0 \<or> v_mode w = m)"
proof -
  have v: "view d i = view c i \<or> (\<exists>w. view c i = Some w \<and> view d i = Some (w\<lparr>v_mode := m\<rparr>))" for i
    using assms by (auto simp: select_recv_mode_def select_mode_def view_on_stream view_of_def view_def split: option.splits if_splits)
  show "undelivered h d = undelivered h c" using v [of "rs_id h"] by (auto simp: undelivered_view)
  show "at_end i d = at_end i c" using v [of i] by (elim disjE) (auto simp: at_end_def)
  show "x = Inr () \<Longrightarrow> \<exists>w. view c sid = Some w \<and> view d sid = Some (w\<lparr>v_mode := m\<rparr>) \<and> (v_mode w = 0 \<or> v_mode w = m)"
    using assms by (auto simp: select_recv_mode_def select_mode_def view_on_stream view_of_def view_def split: option.splits if_splits)
qed

lemma poll_read_reads:
  assumes r: "poll_read S room h c = (r, h', c')" and np: "r \<noteq> Ready (Inl IoPanicked)"
  shows "undelivered h c = read_bytes r @ undelivered h' c'" "rs_id h' = rs_id h"
    "eof h' \<Longrightarrow> eof h \<or> at_end (rs_id h) c \<and> undelivered h' c' = []" "0 < room \<Longrightarrow> r = Ready (Inr []) \<Longrightarrow> eof h'"
proof -
  obtain x d where x: "select_recv_mode (rs_id h) 2 c = (x, d)" by fastforce
  note v = select_recv_view [OF x]
  have "undelivered h c = read_bytes r @ undelivered h' c' \<and> (eof h' \<longrightarrow> eof h \<or> at_end (rs_id h) c \<and> undelivered h' c' = [])
    \<and> (0 < room \<and> r = Ready (Inr []) \<longrightarrow> eof h') \<and> rs_id h' = rs_id h"
  proof (cases "x = Inr () \<and> 0 < room")
    case True
    then have l: "read_loop S room h d = (r, h', c')" using r x by (simp add: poll_read_def)
    show ?thesis using read_loop_reads [OF _ l np] True v(1,2) by simp
  next
    case False
    then show ?thesis using r x v(1) [of h] by (cases x) (auto simp: poll_read_def read_bytes_def)
  qed
  then show "undelivered h c = read_bytes r @ undelivered h' c'" "rs_id h' = rs_id h"
    "eof h' \<Longrightarrow> eof h \<or> at_end (rs_id h) c \<and> undelivered h' c' = []" "0 < room \<Longrightarrow> r = Ready (Inr []) \<Longrightarrow> eof h'" by blast+
qed

text \<open>\<open>read_chunk\<close> bypasses the remainder of \<open>AsyncRead\<close>; the modes keep the two apart.\<close>

lemma recv_read_chunk_reads:
  assumes r: "recv_read_chunk S h c = (r, c')" and b: "read_buf h = None"
  shows "undelivered h c = (case r of Ready (Inr (Some bs)) \<Rightarrow> bs | _ \<Rightarrow> []) @ undelivered h c'"
    "r = Ready (Inr None) \<Longrightarrow> at_end (rs_id h) c \<and> undelivered h c = []"
proof -
  obtain x d where x: "select_recv_mode (rs_id h) 1 c = (x, d)" by fastforce
  note v = select_recv_view [OF x]
  have "undelivered h c = (case r of Ready (Inr (Some bs)) \<Rightarrow> bs | _ \<Rightarrow> []) @ undelivered h c' \<and> (r = Ready (Inr None) \<longrightarrow> at_end (rs_id h) c \<and> undelivered h c = [])"
  proof (cases x)
    case (Inl e)
    then show ?thesis using r x v(1) [of h] by (auto simp: recv_read_chunk_def)
  next
    case (Inr u)
    obtain y e where y: "read_chunk (rs_id h) d = (y, e)" by fastforce
    have fin: "at_end (rs_id h) d \<and> undelivered h d = []" if "y = Ready (Inr None)"
      using y that b by (auto simp: read_chunk_def undelivered_def at_end_def view_def view_of_def split: option.splits list.splits if_splits)
    have same: "undelivered h e = undelivered h d" if "\<And>ch. y \<noteq> Ready (Inr (Some ch))"
      using y that by (auto simp: read_chunk_def undelivered_def on_inbound_def split: option.splits list.splits if_splits)
    have some: "undelivered h d = bs @ undelivered h e'" if "y = Ready (Inr (Some ch))" "chunk_into_bytes S (rs_id h) ch e = (bs, e')" for ch bs e'
    proof -
      have "undelivered h e' = undelivered h e"
        by (rule undelivered_credit) (use credit_frame_into_bytes [of e S "rs_id h" ch] that(2) in simp_all)
      moreover have "undelivered h d = rb_deref (data ch) @ undelivered h e"
        using y that(1) b by (auto simp: read_chunk_def undelivered_def on_inbound_def split: option.splits list.splits if_splits)
      moreover have "bs = rb_deref (data ch)"
        using that(2) by (cases "data ch") (auto simp: chunk_into_bytes_def chunk_consume_def Let_def split: prod.splits)
      ultimately show ?thesis by simp
    qed
    show ?thesis
      using r x Inr y v(1,2) fin same some by (auto simp: recv_read_chunk_def split: poll.splits sum.splits option.splits prod.splits)
  qed
  then show "undelivered h c = (case r of Ready (Inr (Some bs)) \<Rightarrow> bs | _ \<Rightarrow> []) @ undelivered h c'"
    "r = Ready (Inr None) \<Longrightarrow> at_end (rs_id h) c \<and> undelivered h c = []" by blast+
qed

lemma poll_read_mode:
  assumes r: "poll_read S room h c = (r, h', c')"
  shows "read_buf h' = read_buf h \<or> (\<exists>w. view c' (rs_id h) = Some w \<and> v_mode w = 2)"
proof (cases "select_recv_mode (rs_id h) 2 c" rule: action_cases)
  case (failed e d)
  then show ?thesis using r by (simp add: poll_read_def)
next
  case (returned u d)
  obtain w where w: "view d (rs_id h) = Some (w\<lparr>v_mode := 2\<rparr>)" using select_recv_view(3) [OF returned] by auto
  have "reads_from (rs_id h) d (snd (snd (read_loop S room h d)))"
    by (rule read_loop_steps [of "reads_from (rs_id h)" "rs_id h"])
      (auto intro: reads_from_refl reads_from_trans reads_from_credit reads_from_read_chunk)
  then show ?thesis using r w unfolding poll_read_def returned reads_from_def by (fastforce split: if_splits)
qed

lemma recv_read_chunk_mixed:
  "view c (rs_id h) = Some w \<Longrightarrow> v_mode w = 2 \<Longrightarrow> \<exists>e. recv_read_chunk S h c = (Ready (Inl (Fail e)), c)"
  by (auto simp: recv_read_chunk_def select_recv_mode_def select_mode_def view_def view_of_def)

section \<open>Dropped halves\<close>

text \<open>Dropping a receiving half and cleaning up after it concern no other reader.\<close>

definition keeps :: "'s connection \<Rightarrow> 's connection \<Rightarrow> bool" where
  "keeps c c' \<longleftrightarrow> (\<forall>i w. view c i = Some w \<and> \<not> v_gone w \<longrightarrow> view c' i = Some w) \<and> (\<forall>i. i < id_limit c i \<longrightarrow> i < id_limit c' i)"

lemma view_used: "used_ids c \<Longrightarrow> view c i = Some w \<Longrightarrow> i < id_limit c i"
  by (auto simp: used_ids_def view_def)

lemma sees_keeps: "used_ids c \<Longrightarrow> sees c c' \<Longrightarrow> keeps c c'"
  using view_used [of c] by (simp add: sees_def keeps_def)

lemma keeps_trans: "keeps a b \<Longrightarrow> keeps b c \<Longrightarrow> keeps a c"
  by (simp add: keeps_def)

lemma drop_recv_alters: "alters (rs_id h) c (drop_recv_stream S h c)"
proof -
  have r: "alters (rs_id h) c (release_recv (rs_id h) c)"
    by (simp add: alters_def release_recv_def view_on_stream id_limit_def fun_eq_iff)
  have "alters (rs_id h) c (drop_chunk S (rs_id h) ch (release_recv (rs_id h) c))" for ch
    using r reads_from_credit [OF credit_frame_drop [of "release_recv (rs_id h) c" S "rs_id h" ch], of "rs_id h"]
    by (auto simp: alters_def reads_from_def)
  then show ?thesis using r by (auto simp: drop_recv_stream_def Let_def split: option.split)
qed

definition spares :: "u64 \<Rightarrow> 's connection \<Rightarrow> 's connection \<Rightarrow> bool" where
  "spares sid c c' \<longleftrightarrow> incoming_streams c' = incoming_streams c
     \<and> (\<forall>i. i < id_limit c i \<longrightarrow> i < id_limit c' i \<and> (i \<noteq> sid \<longrightarrow> view c' i = view c i))"

lemma spares_trans: "spares sid a b \<Longrightarrow> spares sid b c \<Longrightarrow> spares sid a c"
  by (simp add: spares_def)

lemma views_spares: "views c c' \<Longrightarrow> spares sid c c'"
  by (simp add: views_def sees_def spares_def)

lemma alters_spares: "alters sid c c' \<Longrightarrow> spares sid c c'"
  by (simp add: alters_def spares_def)

lemma discard_alters: "alters sid c (discard_inbound S sid c)"
proof (cases "objects c sid")
  case (Some st)
  let ?d = "on_inbound sid (\<lambda>i. i\<lparr>chunks := []\<rparr>) (on_stream sid (\<lambda>st. st\<lparr>recv_discarded := True\<rparr>) c)"
  have f: "credit_frame ?d (discard_inbound S sid c)" using Some by (simp add: discard_inbound_def credit_frame_drops)
  have d: "alters sid c ?d" by (auto simp: alters_def on_inbound_def view_on_stream id_limit_def fun_eq_iff)
  have "reads_from sid ?d (discard_inbound S sid c)" by (rule reads_from_credit [OF f])
  then have "alters sid ?d (discard_inbound S sid c)" by (simp add: reads_from_def)
  with d show ?thesis unfolding alters_def by auto
qed (simp add: discard_inbound_def alters_def)

lemma cleanup_recv_spares:
  assumes st: "objects d sid = Some st" "recv_dropped st" and r: "cleanup_recv S sid d = (r, c')"
  shows "spares sid d c'"
proof -
  let ?e = "on_stream sid (\<lambda>st. st\<lparr>recv_dropped := False\<rparr>) d"
  have h: "handle_last_recv_drop S sid ?e = (r, c')" using r st by (simp add: cleanup_recv_def)
  have e: "spares sid d ?e" by (rule alters_spares) (simp add: alters_def view_on_stream id_limit_def fun_eq_iff)
  have x: "spares sid ?e (discard_inbound S sid ?e)" by (rule alters_spares [OF discard_alters])
  have "views (discard_inbound S sid ?e) c'"
    using h by (auto simp: handle_last_recv_drop_def Let_def case_prod_beta split: option.splits sum.splits if_splits
        intro!: views_try_retire views_closing views_flags)
  then show ?thesis using spares_trans [OF e spares_trans [OF x views_spares]] by blast
qed

lemma views_cleanup_send: "views c (snd (cleanup_send S sid c))"
proof (cases "objects c sid")
  case (Some st)
  let ?d = "on_stream sid (\<lambda>st. st\<lparr>send_dropped := False\<rparr>) c"
  have d: "views c ?d" by (rule views_on_stream) (simp_all add: view_of_def)
  have "views c (handle_last_send_drop S sid ?d)"
    unfolding handle_last_send_drop_def Let_def by (rule views_try_retire) (use d views_reset [OF d] in \<open>simp split: option.split\<close>)
  then show ?thesis using Some d by (simp add: cleanup_send_def Let_def)
qed (simp add: cleanup_send_def)

lemma cleanup_stream_cases:
  assumes ids: "used_ids c" and r: "cleanup_stream S sid c = (r, c')"
  shows "views c c' \<or> spares sid c c' \<and> (\<exists>w. view c sid = Some w \<and> v_gone w)"
proof (cases "cleanup_send S sid c" rule: action_cases)
  case (failed e d)
  then have "views c d" "c' = d" using views_cleanup_send [of c S sid] r by (simp_all add: cleanup_stream_def and_then_def)
  then show ?thesis by simp
next
  case (returned u d)
  then have d: "views c d" using views_cleanup_send [of c S sid] by simp
  have rc: "cleanup_recv S sid d = (r, c')" using r returned by (simp add: cleanup_stream_def and_then_def)
  have "objects c sid \<noteq> None" using returned by (auto simp: cleanup_send_def split: option.splits)
  then have "sid < id_limit c sid" using ids by (auto simp: used_ids_def)
  then have same: "view c sid = view d sid" using d by (simp add: views_def sees_def)
  show ?thesis
  proof (cases "\<exists>st. objects d sid = Some st \<and> recv_dropped st")
    case True
    then obtain st where st: "objects d sid = Some st" "recv_dropped st" by blast
    have "view c sid = Some (view_of st)" "v_gone (view_of st)" using same st by (simp_all add: view_def view_of_def)
    then show ?thesis using spares_trans [OF views_spares [OF d] cleanup_recv_spares [OF st rc]] by blast
  next
    case False
    let ?e = "on_stream sid (\<lambda>st. st\<lparr>recv_dropped := False\<rparr>) d"
    have c': "c' = d \<or> c' = ?e" using rc False by (cases "objects d sid") (auto simp: cleanup_recv_def Let_def)
    have "view ?e = view d" using False by (cases "objects d sid") (auto simp: view_on_stream fun_eq_iff view_def view_of_def)
    then have "views c ?e" by (intro viewsI [OF d]) (simp_all add: id_limit_def fun_eq_iff)
    then show ?thesis using c' d by blast
  qed
qed

lemma spares_keeps:
  assumes ids: "used_ids c" and sp: "spares sid c c'" and w: "view c sid = Some w" "v_gone w"
  shows "keeps c c'"
proof -
  have "view c' i = Some w'" if "view c i = Some w'" "\<not> v_gone w'" for i w'
  proof -
    have "i < id_limit c i" by (rule view_used [OF ids that(1)])
    moreover have "i \<noteq> sid" using that w by auto
    ultimately show ?thesis using sp that(1) by (simp add: spares_def)
  qed
  then show ?thesis using sp by (simp add: keeps_def spares_def)
qed

lemma cleanup_keeps:
  assumes ids: "used_ids c" and r: "cleanup_stream S sid c = (r, c')"
  shows "keeps c c'" "incoming_streams c' = incoming_streams c"
  using cleanup_stream_cases [OF assms] sees_keeps [OF ids] spares_keeps [OF ids]
  unfolding views_def spares_def by blast+

end
