(* ===== verification/Read_Order.thy ===== *)
theory Read_Order
  imports Wire_Order Transfer_In
begin

text \<open>
  The bytes handed to the application are, stream by stream, those of the received frames, in order and without gaps,
  and the end of a stream is reported only after all bytes up to a FIN.
\<close>

section \<open>The invariant of the readers\<close>

text \<open>A half that the application holds, or that it will get from \<open>accept_bi\<close>.\<close>

definition readers :: "('s, 'o) system \<Rightarrow> recv_stream list" where
  "readers s = recvs s @ map recv_stream_new (incoming_streams (conn s))"

lemma readers_ids: "map rs_id (readers s) = map rs_id (recvs s) @ incoming_streams (conn s)"
  by (simp add: readers_def comp_def recv_stream_new_def)

text \<open>\<open>x\<close> is all the data of the stream up to a FIN.\<close>

definition ends :: "frame list \<Rightarrow> u64 \<Rightarrow> bytes \<Rightarrow> bool" where
  "ends fs sid x \<longleftrightarrow> (\<exists>gs hs. fs = gs @ hs \<and> has_fin gs sid \<and> x = payloads gs sid)"

definition reader_ok :: "frame list \<Rightarrow> bool \<Rightarrow> bytes \<Rightarrow> bool \<Rightarrow> recv_view \<Rightarrow> recv_stream \<Rightarrow> bytes \<Rightarrow> bool" where
  "reader_ok fs live del fin w h rest \<longleftrightarrow> \<not> v_gone w \<and> (v_fin w \<longrightarrow> v_terminal w) \<and> (v_reset w \<noteq> None \<longrightarrow> v_terminal w)
     \<and> (read_buf h \<noteq> None \<longrightarrow> v_mode w = 2)
     \<and> prefix (del @ rest) (payloads fs (rs_id h))
     \<and> (live \<and> \<not> v_terminal w \<longrightarrow> del @ rest = payloads fs (rs_id h))
     \<and> (v_terminal w \<and> v_reset w = None \<longrightarrow> ends fs (rs_id h) (del @ rest))
     \<and> (eof h \<or> fin \<longrightarrow> v_terminal w \<and> v_reset w = None \<and> rest = [])"

definition in_inv :: "frame list \<Rightarrow> bool \<Rightarrow> (u64 \<Rightarrow> bytes) \<Rightarrow> (u64 \<Rightarrow> bool) \<Rightarrow> recv_stream list \<Rightarrow> 's connection \<Rightarrow> bool" where
  "in_inv fs live del fin hs c \<longleftrightarrow> distinct (map rs_id hs)
     \<and> (\<forall>h \<in> set hs. \<exists>w. view c (rs_id h) = Some w \<and> reader_ok fs live (del (rs_id h)) (fin (rs_id h)) w h (undelivered h c))
     \<and> (\<forall>sid. prefix (del sid) (payloads fs sid) \<and> (fin sid \<longrightarrow> ends fs sid (del sid)))
     \<and> (\<forall>sid. \<not> sid < id_limit c sid \<longrightarrow> del sid = [] \<and> \<not> fin sid \<and> (live \<longrightarrow> payloads fs sid = []))"

lemma in_invD:
  assumes "in_inv fs live del fin hs c"
  shows "distinct (map rs_id hs)"
    "h \<in> set hs \<Longrightarrow> \<exists>w. view c (rs_id h) = Some w \<and> reader_ok fs live (del (rs_id h)) (fin (rs_id h)) w h (undelivered h c)"
    "prefix (del sid) (payloads fs sid)" "fin sid \<Longrightarrow> ends fs sid (del sid)"
    "\<not> sid < id_limit c sid \<Longrightarrow> del sid = [] \<and> \<not> fin sid \<and> (live \<longrightarrow> payloads fs sid = [])"
  using assms unfolding in_inv_def by blast+

lemma ends_more: "ends fs sid x \<Longrightarrow> ends (fs @ gs) sid x"
  unfolding ends_def by (metis append.assoc)

lemma reader_ok_more:
  assumes "reader_ok fs live del fin w h rest"
  shows "reader_ok (fs @ gs) False del fin w h rest"
  using assms by (auto simp: reader_ok_def ends_more)

text \<open>More frames that are not accepted, and the end of reading.\<close>

lemma in_inv_more:
  assumes inv: "in_inv fs live del fin hs c"
  shows "in_inv (fs @ gs) False del fin hs c"
  using in_invD [OF inv] reader_ok_more unfolding in_inv_def by (fastforce simp: ends_more)

lemma undelivered_same: "view c' (rs_id h) = view c (rs_id h) \<Longrightarrow> undelivered h c' = undelivered h c"
  by (simp add: undelivered_view)

text \<open>Readers that see what they saw before.\<close>

lemma in_inv_keeps_on:
  assumes inv: "in_inv fs live del fin hs c"
    and k: "\<And>h w. h \<in> set hs' \<Longrightarrow> view c (rs_id h) = Some w \<Longrightarrow> \<not> v_gone w \<Longrightarrow> view c' (rs_id h) = Some w" "\<And>i. i < id_limit c i \<Longrightarrow> i < id_limit c' i"
    and hs: "set hs' \<subseteq> set hs" "distinct (map rs_id hs')" and l: "live' \<Longrightarrow> live"
  shows "in_inv fs live' del fin hs' c'"
proof -
  have "\<exists>w. view c' (rs_id h) = Some w \<and> reader_ok fs live' (del (rs_id h)) (fin (rs_id h)) w h (undelivered h c')" if h: "h \<in> set hs'" for h
  proof -
    obtain w where w: "view c (rs_id h) = Some w" "reader_ok fs live (del (rs_id h)) (fin (rs_id h)) w h (undelivered h c)"
      using in_invD(2) [OF inv] h hs(1) by blast
    then have "view c' (rs_id h) = Some w" using k(1) [OF h] by (simp add: reader_ok_def)
    then show ?thesis using w l undelivered_same [of c' h c] by (auto simp: reader_ok_def)
  qed
  moreover have "del sid = [] \<and> \<not> fin sid \<and> (live' \<longrightarrow> payloads fs sid = [])" if "\<not> sid < id_limit c' sid" for sid
    using in_invD(5) [OF inv, of sid] k(2) [of sid] that l by auto
  ultimately show ?thesis using in_invD(3,4) [OF inv] hs(2) unfolding in_inv_def by blast
qed

lemma in_inv_keeps:
  assumes "in_inv fs live del fin hs c" "keeps c c'" "set hs' \<subseteq> set hs" "distinct (map rs_id hs')" "live' \<Longrightarrow> live"
  shows "in_inv fs live' del fin hs' c'"
  using assms(2) by (intro in_inv_keeps_on [OF assms(1) _ _ assms(3-5)]) (auto simp: keeps_def)

text \<open>A new stream.\<close>

lemma undelivered_new: "view c sid = Some fresh_view \<Longrightarrow> undelivered (recv_stream_new sid) c = []"
  by (simp add: undelivered_view recv_stream_new_def fresh_view_def)

lemma in_inv_opened:
  assumes inv: "in_inv fs live del fin hs c" and ids: "used_ids c" and k: "sees c c'"
    and new: "id_limit c sid \<le> sid" "view c' sid = Some fresh_view" and hs': "set hs' = insert (recv_stream_new sid) (set hs)" "distinct (map rs_id hs')"
  shows "in_inv fs live del fin hs' c'"
proof -
  have old: "in_inv fs live del fin hs c'" by (rule in_inv_keeps [OF inv sees_keeps [OF ids k]]) (use in_invD(1) [OF inv] in simp_all)
  have z: "del sid = []" "\<not> fin sid" "live \<longrightarrow> payloads fs sid = []" using in_invD(5) [OF inv, of sid] new(1) by (auto simp: leD)
  have "reader_ok fs live (del sid) (fin sid) fresh_view (recv_stream_new sid) (undelivered (recv_stream_new sid) c')"
    using z undelivered_new [OF new(2)] by (simp add: reader_ok_def fresh_view_def recv_stream_new_def)
  moreover have "rs_id (recv_stream_new sid) = sid" by (simp add: recv_stream_new_def)
  ultimately show ?thesis using old new(2) hs' unfolding in_inv_def by auto
qed

text \<open>A read hands over the next bytes.\<close>

lemma reader_ok_read:
  assumes ok: "reader_ok fs live del fin w h rest"
    and w': "v_reset w' = v_reset w" "v_terminal w' = v_terminal w" "v_gone w' = v_gone w" "v_mode w \<noteq> 0 \<longrightarrow> v_mode w' = v_mode w"
      "v_fin w' \<longrightarrow> v_fin w \<or> v_terminal w"
    and h': "rs_id h' = rs_id h" "rest = bs @ rest'" "read_buf h' = None \<or> read_buf h' = read_buf h \<or> v_mode w' = 2"
    and stop: "eof h' \<or> b \<Longrightarrow> eof h \<or> fin \<or> v_reset w = None \<and> (v_fin w \<or> v_terminal w) \<and> rest' = []"
  shows "reader_ok fs live (del @ bs) (fin \<or> b) w' h' rest'"
proof -
  have o: "\<not> v_gone w" "v_fin w \<longrightarrow> v_terminal w" "v_reset w \<noteq> None \<longrightarrow> v_terminal w" "read_buf h \<noteq> None \<longrightarrow> v_mode w = 2"
    "prefix (del @ rest) (payloads fs (rs_id h))" "live \<and> \<not> v_terminal w \<longrightarrow> del @ rest = payloads fs (rs_id h)"
    "v_terminal w \<and> v_reset w = None \<longrightarrow> ends fs (rs_id h) (del @ rest)" "eof h \<or> fin \<longrightarrow> v_terminal w \<and> v_reset w = None \<and> rest = []"
    using ok unfolding reader_ok_def by blast+
  have eq: "(del @ bs) @ rest' = del @ rest" by (simp add: h'(2))
  have "read_buf h' \<noteq> None \<longrightarrow> v_mode w' = 2" using o(4) w'(4) h'(3) by auto
  moreover have "eof h' \<or> fin \<or> b \<longrightarrow> v_terminal w \<and> v_reset w = None \<and> rest' = []" using stop o(2,8) h'(2) by auto
  moreover have "v_fin w' \<longrightarrow> v_terminal w" using w'(5) o(2) by blast
  ultimately show ?thesis using o(1,3,5-7) unfolding reader_ok_def eq w'(1-3) h'(1) by blast
qed

lemma list_other:
  assumes "distinct (map f xs)" "j < length xs" "x \<in> set (xs[j := y])" "x \<noteq> y"
  shows "x \<in> set xs \<and> f x \<noteq> f (xs ! j)"
proof -
  obtain i where i: "i < length xs" "x = xs[j := y] ! i" using assms(3) by (auto simp: in_set_conv_nth)
  then have "i \<noteq> j" "x = xs ! i" using assms(2,4) by (auto simp: nth_list_update split: if_splits)
  then show ?thesis using assms(1,2) i(1) by (auto simp: distinct_conv_nth)
qed

lemma in_inv_read:
  assumes inv: "in_inv fs live del fin hs c" and ids: "used_ids c" and j: "j < length hs"
    and r: "reads_from (rs_id (hs ! j)) c c'"
    and h': "rs_id h' = rs_id (hs ! j)" "undelivered (hs ! j) c = bs @ undelivered h' c'"
      "read_buf h' = None \<or> read_buf h' = read_buf (hs ! j) \<or> (\<exists>w. view c' (rs_id (hs ! j)) = Some w \<and> v_mode w = 2)"
    and stop: "eof h' \<or> b \<Longrightarrow> eof (hs ! j) \<or> at_end (rs_id (hs ! j)) c \<and> undelivered h' c' = []"
    and del': "\<And>i. del' i = (if i = rs_id (hs ! j) then del i @ bs else del i)"
    and fin': "\<And>i. fin' i \<longleftrightarrow> fin i \<or> i = rs_id (hs ! j) \<and> b"
  shows "in_inv fs live del' fin' (hs[j := h']) c'"
proof -
  let ?h = "hs ! j" let ?sid = "rs_id ?h"
  have mem: "?h \<in> set hs" using j by simp
  obtain w where w: "view c ?sid = Some w" "reader_ok fs live (del ?sid) (fin ?sid) w ?h (undelivered ?h c)"
    using in_invD(2) [OF inv mem] by blast
  obtain w' where w': "view c' ?sid = Some w'" "v_reset w' = v_reset w" "v_terminal w' = v_terminal w" "v_gone w' = v_gone w"
      "v_mode w \<noteq> 0 \<longrightarrow> v_mode w' = v_mode w" "v_fin w' \<longrightarrow> v_fin w \<or> v_terminal w"
    using r w(1) unfolding reads_from_def by blast
  have ok': "reader_ok fs live (del' ?sid) (fin' ?sid) w' h' (undelivered h' c')"
    using reader_ok_read [OF w(2) w'(2-6) h'(1,2), of b] h'(3) stop w w'(1) by (auto simp: del' fin' at_end_def)
  have others: "view c' i = view c i" if "i \<noteq> ?sid" for i using r that by (simp add: reads_from_def alters_def)
  have lim: "id_limit c' = id_limit c" using r by (simp add: reads_from_def alters_def)
  have "distinct (map rs_id (hs[j := h']))" using in_invD(1) [OF inv] h'(1) by (metis list_update_id map_update)
  moreover have "\<exists>w. view c' (rs_id g) = Some w \<and> reader_ok fs live (del' (rs_id g)) (fin' (rs_id g)) w g (undelivered g c')"
    if g: "g \<in> set (hs[j := h'])" for g
  proof (cases "g = h'")
    case True
    then show ?thesis using ok' w'(1) h'(1) by auto
  next
    case False
    then have g: "g \<in> set hs" "rs_id g \<noteq> ?sid" using list_other [OF in_invD(1) [OF inv] j g] by auto
    then show ?thesis using in_invD(2) [OF inv g(1)] others [OF g(2)] undelivered_same [of c' g c] by (simp add: del' fin')
  qed
  moreover have "prefix (del' i) (payloads fs i) \<and> (fin' i \<longrightarrow> ends fs i (del' i))" for i
  proof (cases "i = ?sid")
    case True
    have "prefix (del' i) (payloads fs i)" using ok' h'(1) True unfolding reader_ok_def by (auto dest: append_prefixD)
    moreover have "ends fs i (del' i)" if "fin' i" using ok' h'(1) True that unfolding reader_ok_def by auto
    ultimately show ?thesis by blast
  qed (use in_invD(3,4) [OF inv] in \<open>simp add: del' fin'\<close>)
  moreover have "del' i = [] \<and> \<not> fin' i \<and> (live \<longrightarrow> payloads fs i = [])" if "\<not> i < id_limit c' i" for i
  proof -
    have "i \<noteq> ?sid" using that view_used [OF ids w(1)] lim by auto
    then show ?thesis using in_invD(5) [OF inv, of i] that lim by (simp add: del' fin')
  qed
  ultimately show ?thesis unfolding in_inv_def by blast
qed

text \<open>A frame that the connection accepts.\<close>

lemma reader_ok_frame:
  assumes "reader_ok fs live del fin w h rest" "payload_on f (rs_id h) = []"
  shows "reader_ok (fs @ [f]) live del fin w h rest"
  using assms ends_more [of fs "rs_id h" _ "[f]"] unfolding reader_ok_def by simp

lemma in_inv_frame:
  assumes inv: "in_inv fs True del fin hs c" and ids: "used_ids c" and al: "alters sid c c'"
    and sid: "sid < id_limit c sid" and f: "\<And>i. i \<noteq> sid \<Longrightarrow> payload_on f i = []"
    and here: "\<And>h. h \<in> set hs \<Longrightarrow> rs_id h = sid \<Longrightarrow>
      \<exists>w. view c' sid = Some w \<and> reader_ok (fs @ [f]) True (del sid) (fin sid) w h (undelivered h c')"
  shows "in_inv (fs @ [f]) True del fin hs c'"
proof -
  have "\<exists>w. view c' (rs_id h) = Some w \<and> reader_ok (fs @ [f]) True (del (rs_id h)) (fin (rs_id h)) w h (undelivered h c')" if h: "h \<in> set hs" for h
  proof (cases "rs_id h = sid")
    case False
    then have "view c' (rs_id h) = view c (rs_id h)" using al by (simp add: alters_def)
    then show ?thesis using in_invD(2) [OF inv h] reader_ok_frame f [OF False] undelivered_same [of c' h c] by auto
  qed (use here [OF h] in auto)
  moreover have "prefix (del i) (payloads (fs @ [f]) i) \<and> (fin i \<longrightarrow> ends (fs @ [f]) i (del i))" for i
    using in_invD(3,4) [OF inv, of i] by (auto intro: ends_more)
  moreover have "del i = [] \<and> \<not> fin i \<and> (True \<longrightarrow> payloads (fs @ [f]) i = [])" if "\<not> i < id_limit c' i" for i
  proof -
    have "\<not> i < id_limit c i" "i \<noteq> sid" using that al sid by (auto simp: alters_def)
    then show ?thesis using in_invD(5) [OF inv, of i] f by simp
  qed
  ultimately show ?thesis using in_invD(1) [OF inv] unfolding in_inv_def by blast
qed

lemma reader_ok_data:
  assumes ok: "reader_ok fs True del fin w h rest" and d: "data_arrives p e w w'" and sid: "into_inner v = rs_id h"
  shows "reader_ok (fs @ [Stream v e p]) True del fin w' h (rest @ p)"
proof -
  have o: "\<not> v_gone w" "v_fin w \<longrightarrow> v_terminal w" "read_buf h \<noteq> None \<longrightarrow> v_mode w = 2" "v_reset w \<noteq> None \<longrightarrow> v_terminal w"
    "\<not> v_terminal w \<longrightarrow> del @ rest = payloads fs (rs_id h)" "eof h \<or> fin \<longrightarrow> v_terminal w"
    using ok unfolding reader_ok_def by blast+
  have a: "\<not> v_terminal w" "v_terminal w' = e" "v_fin w' = (v_fin w \<or> e)" "v_reset w' = v_reset w" "v_gone w' = v_gone w" "v_mode w' = v_mode w"
    using d unfolding data_arrives_def by blast+
  have eq: "del @ rest @ p = payloads (fs @ [Stream v e p]) (rs_id h)" using o(5) a(1) sid by simp
  have "ends (fs @ [Stream v e p]) (rs_id h) (del @ rest @ p)" if e
    unfolding eq ends_def using that sid by (intro exI [of _ "fs @ [Stream v e p]"] exI [of _ "[]"]) simp
  then show ?thesis using o a eq unfolding reader_ok_def by auto
qed

lemma reader_ok_reset:
  assumes ok: "reader_ok fs True del fin w h rest" and d: "reset_arrives w w'" and rest: "prefix rest' rest" and f: "payload_on f (rs_id h) = []"
  shows "reader_ok (fs @ [f]) True del fin w' h rest'"
proof -
  have o: "\<not> v_gone w" "read_buf h \<noteq> None \<longrightarrow> v_mode w = 2" "prefix (del @ rest) (payloads fs (rs_id h))" "eof h \<or> fin \<longrightarrow> v_terminal w"
    using ok unfolding reader_ok_def by blast+
  have a: "\<not> v_terminal w" "v_terminal w'" "v_fin w'" "v_reset w' \<noteq> None" "v_gone w' = v_gone w" "v_mode w' = v_mode w"
    using d unfolding reset_arrives_def by blast+
  have "prefix (del @ rest') (payloads (fs @ [f]) (rs_id h))"
    using o(3) rest f by (simp add: prefix_order.trans [of "del @ rest'" "del @ rest"])
  then show ?thesis using o a unfolding reader_ok_def by auto
qed

lemma in_inv_arrival:
  assumes inv: "in_inv fs True del fin hs c" and ids: "used_ids c" and a: "arrival f True c c'"
    and hs': "if \<exists>v. f = OpenStream v then (\<exists>v. f = OpenStream v \<and> hs' = hs @ [recv_stream_new (into_inner v)]) else hs' = hs"
  shows "in_inv (fs @ [f]) True del fin hs' c'"
proof -
  have silent: "in_inv (fs @ [f]) True del fin hs c" if pf: "\<And>i. payload_on f i = []"
  proof -
    have "\<exists>w. view c (rs_id h) = Some w \<and> reader_ok (fs @ [f]) True (del (rs_id h)) (fin (rs_id h)) w h (undelivered h c)" if h: "h \<in> set hs" for h
      using in_invD(2) [OF inv h] reader_ok_frame [OF _ pf] by blast
    then show ?thesis using in_invD(1,3-5) [OF inv] ends_more [of fs _ _ "[f]"] pf unfolding in_inv_def by simp
  qed
  have quiet: "in_inv (fs @ [f]) True del fin hs c'" if "\<And>i. payload_on f i = []" "views c c'"
    by (rule in_inv_keeps [OF silent [OF that(1)] sees_keeps [OF ids views_sees [OF that(2)]]]) (use in_invD(1) [OF inv] in simp_all)
  show ?thesis
  proof (cases f)
    case (Stream v e p)
    then obtain w w' where al: "alters (into_inner v) c c'" and w: "view c (into_inner v) = Some w" "view c' (into_inner v) = Some w'" "data_arrives p e w w'"
      using a by (auto simp: arrival_def)
    have "in_inv (fs @ [f]) True del fin hs c'"
    proof (rule in_inv_frame [OF inv ids al view_used [OF ids w(1)]])
      fix h assume h: "h \<in> set hs" "rs_id h = into_inner v"
      have ok: "reader_ok fs True (del (rs_id h)) (fin (rs_id h)) w h (undelivered h c)" using in_invD(2) [OF inv h(1)] w(1) h(2) by auto
      have "undelivered h c' = undelivered h c @ p"
        using w h(2) ok by (simp add: undelivered_view data_arrives_def reader_ok_def)
      then show "\<exists>w. view c' (into_inner v) = Some w \<and> reader_ok (fs @ [f]) True (del (into_inner v)) (fin (into_inner v)) w h (undelivered h c')"
        using reader_ok_data [OF ok w(3)] w(2) h(2) Stream by auto
    qed (use Stream in simp)
    then show ?thesis using hs' Stream by simp
  next
    case (ResetStream v e)
    then obtain w w' where al: "alters (into_inner v) c c'" and w: "view c (into_inner v) = Some w" "view c' (into_inner v) = Some w'" "reset_arrives w w'"
      using a by (auto simp: arrival_def)
    have "in_inv (fs @ [f]) True del fin hs c'"
    proof (rule in_inv_frame [OF inv ids al view_used [OF ids w(1)]])
      fix h assume h: "h \<in> set hs" "rs_id h = into_inner v"
      have ok: "reader_ok fs True (del (rs_id h)) (fin (rs_id h)) w h (undelivered h c)" using in_invD(2) [OF inv h(1)] w(1) h(2) by auto
      have "prefix (undelivered h c') (undelivered h c)"
        using w h(2) by (simp add: undelivered_view reset_arrives_def)
      then show "\<exists>w. view c' (into_inner v) = Some w \<and> reader_ok (fs @ [f]) True (del (into_inner v)) (fin (into_inner v)) w h (undelivered h c')"
        using reader_ok_reset [OF ok w(3)] w(2) h(2) ResetStream by auto
    qed (use ResetStream in simp)
    then show ?thesis using hs' ResetStream by simp
  next
    case (OpenStream v)
    then have o: "sees c c'" "id_limit c (into_inner v) \<le> into_inner v" "view c' (into_inner v) = Some fresh_view" and h: "hs' = hs @ [recv_stream_new (into_inner v)]"
      using a hs' by (auto simp: arrival_def)
    have "rs_id g \<noteq> into_inner v" if g: "g \<in> set hs" for g
    proof -
      obtain w where "view c (rs_id g) = Some w" using in_invD(2) [OF inv g] by blast
      from view_used [OF ids this] show ?thesis using o(2) by auto
    qed
    then have "into_inner v \<notin> rs_id ` set hs" by (metis imageE)
    then have "distinct (map rs_id hs')" using in_invD(1) [OF inv] h by (simp add: recv_stream_new_def)
    then show ?thesis by (intro in_inv_opened [OF silent ids o]) (use OpenStream h in auto)
  qed (use a hs' quiet in \<open>auto simp: arrival_def\<close>)
qed

section \<open>Events\<close>

definition frames_of :: "'b buf_ops \<Rightarrow> 'b list \<Rightarrow> frame list" where
  "frames_of B bs = concat (map (\<lambda>b. case fst (frame_decode B b) of Inl _ \<Rightarrow> [] | Inr f \<Rightarrow> [f]) bs)"

lemma frames_of_append [simp]: "frames_of B (xs @ ys) = frames_of B xs @ frames_of B ys" "frames_of B [] = []"
  by (simp_all add: frames_of_def)

definition read_inv :: "'b buf_ops \<Rightarrow> 'b history \<Rightarrow> ('s, 'o) system \<Rightarrow> bool" where
  "read_inv B h s \<longleftrightarrow> in_inv (frames_of B (items h)) (reading s) (delivered h) (finished h) (readers s) (conn s)"

text \<open>Events that neither read nor receive.\<close>

definition readers_step :: "('s, 'o) system \<Rightarrow> ('s, 'o) system \<Rightarrow> bool" where
  "readers_step s s' \<longleftrightarrow> keeps (conn s) (conn s') \<and> recvs s' = recvs s \<and> incoming_streams (conn s') = incoming_streams (conn s)
     \<and> (reading s' \<longrightarrow> reading s)"

lemma readers_step_refl [simp]: "readers_step s s"
  by (simp add: readers_step_def keeps_def)

fun reader_event :: "'b event \<Rightarrow> bool" where
  "reader_event (PollOpen i) = True"
| "reader_event AcceptBi = True"
| "reader_event (PollRead j room) = True"
| "reader_event (ReadChunk j) = True"
| "reader_event (DropRecv j) = True"
| "reader_event (Incoming bytes) = True"
| "reader_event Join = True"
| "reader_event (DropState sid) = True"
| "reader_event e = False"

lemma observe_quiet:
  assumes "read_by S e s = None" "taken_by B e s = []"
  shows "items (observe B S e s h) = items h" "delivered (observe B S e s h) = delivered h" "finished (observe B S e s h) = finished h"
  using assms by (simp_all add: observe_def)

lemma not_reader_event: "\<not> reader_event e \<Longrightarrow> read_by S e s = None \<and> taken_by B e s = []"
  by (cases e) simp_all

lemma read_inv_step:
  assumes inv: "read_inv B h s" and s: "readers_step s s'" and o: "read_by S e s = None" "taken_by B e s = []"
  shows "read_inv B (observe B S e s h) s'"
proof -
  have r: "readers s' = readers s" using s by (simp add: readers_step_def readers_def)
  have "in_inv (frames_of B (items h)) (reading s') (delivered h) (finished h) (readers s) (conn s')"
    by (rule in_inv_keeps [OF inv [unfolded read_inv_def]])
      (use s in_invD(1) [OF inv [unfolded read_inv_def]] in \<open>simp_all add: readers_step_def\<close>)
  then show ?thesis by (simp add: read_inv_def r observe_quiet [OF o])
qed

context semaphore
begin

lemma readers_stepI:
  assumes "sys_inv free waiting written l s" "views (conn s) (conn s')" "recvs s' = recvs s" "reading s' \<longrightarrow> reading s"
  shows "readers_step s s'"
  using assms sees_keeps [OF conn_inv_used_ids [OF sys_inv_conn_inv [OF assms(1)]]] by (simp add: readers_step_def views_def)

lemma readers_send:
  assumes "sys_inv free waiting written l s" "send_event j f s = Done s'" "\<And>h. views (conn s) (snd (snd (f h (conn s))))"
  shows "readers_step s s'"
  using assms(2) assms(3) [of "sends s ! j"] by (auto simp: send_event_def split: if_splits prod.splits intro!: readers_stepI [OF assms(1)])

lemma exec_readers:
  assumes inv: "sys_inv free waiting written l s" and e: "exec B W S e s = Done s'" and n: "\<not> reader_event e"
  shows "readers_step s s'"
proof -
  note ids = conn_inv_used_ids [OF sys_inv_conn_inv [OF inv]]
  note I = readers_stepI [OF inv]
  note send = readers_send [OF inv]
  show ?thesis
  proof (cases e)
    case CleanupNext
    then show ?thesis
      using e cleanup_keeps [OF ids] by (auto simp: cleanup_event_def readers_step_def keeps_def split: option.splits list.splits prod.splits)
  next
    case (TakeFrame order)
    have "views (conn s) (snd (next_frame order S (conn s)))"
      by (rule views_next_frame) (use sys_inv_conn_inv [OF inv] in \<open>simp_all add: conn_inv_def\<close>)
    then show ?thesis
      using e TakeFrame by (auto simp: take_event_def writer_take_def split: writer_task.splits prod.splits pass.splits option.splits sum.splits intro!: I)
  next
    case (Sent sent)
    then show ?thesis
      using e views_tasks(5) [of "conn s" W S] by (auto simp: sent_event_def Let_def split: writer_task.splits prod.splits intro!: I) (metis snd_conv)+
  next
    case (PollCall i)
    then show ?thesis
      using e views_send_call(1) [of "conn s" S] by (auto simp: call_event_def split: if_splits prod.splits sum.splits intro!: I) (metis snd_conv)+
  next
    case (PollWrite j src)
    then show ?thesis using e send views_send_call(3) by (metis exec.simps(10))
  next
    case (PollFlush j)
    then show ?thesis using e send views_send_call(2) by (metis exec.simps(11))
  next
    case (PollShutdown j)
    then show ?thesis using e send views_send_call(4) by (metis exec.simps(12))
  next
    case (ResetSend j code)
    then show ?thesis
      using e views_reset [OF views_refl, of "conn s" S] by (auto simp: reset_send_def split: if_splits prod.splits intro!: I) (metis snd_conv)+
  next
    case (Close reason)
    then show ?thesis
      using e views_calls(1) [of "conn s" S reason] by (auto split: if_splits prod.splits intro!: I)
  next
    case Tick
    then show ?thesis using e views_tasks(1) [of "conn s" S] by (auto simp: Let_def case_prod_beta split: if_splits intro!: I)
  next
    case (DropCall i)
    then show ?thesis using e by (auto split: prod.splits if_splits intro!: I views_calls)
  next
    case WriterExit
    then show ?thesis using e by (auto split: writer_task.splits intro!: I views_tasks)
  qed (use e n in \<open>auto split: if_splits intro!: I views_calls views_tasks\<close>)
qed

text \<open>The handles that come and go.\<close>

lemma read_inv_open:
  assumes inv: "sys_inv free waiting written l s" and i: "read_inv B h s" and e: "exec B W S (PollOpen i) s = Done s'"
  shows "read_inv B (observe B S (PollOpen i) s h) s'"
proof (cases "i < length (opens s)")
  case True
  have ci: "conn_inv free waiting (holds (recvs s)) (conn s)" by (rule sys_inv_conn_inv [OF inv])
  then have ids: "ids_inv (conn s)" by (simp add: conn_inv_def streams_inv_def)
  obtain r c where r: "poll_open_bi S (opens s ! i) (conn s) = (r, c)" by fastforce
  note v = poll_open_views [OF ids r]
  note o = observe_quiet [of S "PollOpen i" s B h]
  show ?thesis
  proof (cases "\<exists>sid. r = Inl (Inr sid)")
    case True
    then obtain sid where sid: "r = Inl (Inr sid)" by blast
    have s': "conn s' = c" "readers s' = recvs s @ [recv_stream_new sid] @ map recv_stream_new (incoming_streams (conn s))" "reading s' = reading s"
      using e \<open>i < length (opens s)\<close> r sid v(1) by (auto simp: open_event_def Let_def new_handles_def readers_def views_def)
    note n = v(2) [OF sid]
    note ii = i [unfolded read_inv_def]
    have used: "rs_id g < id_limit (conn s) (rs_id g)" if "g \<in> set (readers s)" for g
      using in_invD(2) [OF ii that] view_used [OF conn_inv_used_ids [OF ci]] by blast
    have "sid \<notin> set (map rs_id (readers s))" using used n by (metis imageE leD set_map)
    moreover have "map rs_id (readers s') = map rs_id (recvs s) @ [sid] @ incoming_streams (conn s)"
      by (simp add: s'(2) comp_def recv_stream_new_def)
    ultimately have "distinct (map rs_id (readers s'))" using in_invD(1) [OF ii] unfolding readers_ids [of s] by auto
    moreover have "set (readers s') = insert (recv_stream_new sid) (set (readers s))"
      unfolding s'(2) readers_def [of s] by auto
    ultimately have "in_inv (frames_of B (items h)) (reading s) (delivered h) (finished h) (readers s') c"
      by (intro in_inv_opened [OF ii conn_inv_used_ids [OF ci] views_sees [OF v(1)] conjunct1 [OF n] conjunct2 [OF n]]) auto
    then show ?thesis by (simp add: read_inv_def s' o)
  next
    case False
    have "readers_step s s'"
      using e True r v(1) False by (auto simp: open_event_def Let_def split: sum.splits intro!: readers_stepI [OF inv])
    then show ?thesis by (rule read_inv_step [OF i]) simp_all
  qed
next
  case False
  then have "s' = s" using e by simp
  then show ?thesis using read_inv_step [OF i readers_step_refl, of S "PollOpen i"] by simp
qed

lemma read_inv_accept:
  assumes inv: "sys_inv free waiting written l s" and i: "read_inv B h s" and e: "accept_event s = Done s'"
  shows "read_inv B (observe B S AcceptBi s h) s'"
proof -
  have ids: "used_ids (conn s)" by (rule conn_inv_used_ids [OF sys_inv_conn_inv [OF inv]])
  have "sees (conn s) (add_handles sid (conn s\<lparr>incoming_streams := xs\<rparr>))" for sid xs
  proof -
    have "views (conn s\<lparr>incoming_streams := xs\<rparr>) (add_handles sid (conn s\<lparr>incoming_streams := xs\<rparr>))" by (rule views_flags) simp
    moreover have "sees (conn s) (conn s\<lparr>incoming_streams := xs\<rparr>)" by (simp add: sees_def view_def id_limit_def)
    ultimately show ?thesis using sees_trans views_sees by blast
  qed
  moreover have "(conn s' = conn s \<or> (\<exists>sid xs. conn s' = add_handles sid (conn s\<lparr>incoming_streams := xs\<rparr>)))
      \<and> readers s' = readers s \<and> reading s' = reading s"
    using e by (auto simp: accept_event_def accept_bi_def readers_def new_handles_def add_handles_def
        split: sum.splits list.splits prod.splits poll.splits)
  moreover have "keeps (conn s) (conn s)" by (simp add: keeps_def)
  ultimately have "keeps (conn s) (conn s') \<and> readers s' = readers s \<and> reading s' = reading s"
    using sees_keeps [OF ids] by metis
  then have "in_inv (frames_of B (items h)) (reading s') (delivered h) (finished h) (readers s') (conn s')"
    using in_inv_keeps [OF i [unfolded read_inv_def], of "conn s'" "readers s" "reading s"] in_invD(1) [OF i [unfolded read_inv_def]] by simp
  then show ?thesis by (simp add: read_inv_def observe_quiet)
qed

lemma read_inv_shrink:
  assumes i: "read_inv B h s" and o: "read_by S e s = None" "taken_by B e s = []"
    and k: "\<And>h w. h \<in> set (readers s') \<Longrightarrow> view (conn s) (rs_id h) = Some w \<Longrightarrow> \<not> v_gone w \<Longrightarrow> view (conn s') (rs_id h) = Some w"
      "\<And>i. i < id_limit (conn s) i \<Longrightarrow> i < id_limit (conn s') i"
    and r: "set (readers s') \<subseteq> set (readers s)" "distinct (map rs_id (readers s'))" "reading s' = reading s"
  shows "read_inv B (observe B S e s h) s'"
  using in_inv_keeps_on [OF i [unfolded read_inv_def] k r(1,2), of "reading s"] by (simp add: read_inv_def r(3) observe_quiet [OF o])

lemma remove_nth_other:
  assumes "distinct (map f (xs @ ys))" "j < length xs"
  shows "distinct (map f (remove_nth j xs @ ys))"
    "x \<in> set (remove_nth j xs @ ys) \<Longrightarrow> x \<in> set (xs @ ys) \<and> f x \<noteq> f (xs ! j)"
proof -
  have "xs = take j xs @ xs ! j # drop (Suc j) xs" by (rule id_take_nth_drop [OF assms(2)])
  then obtain as y bs where d: "xs = as @ y # bs" "remove_nth j xs = as @ bs" "xs ! j = y" unfolding remove_nth_def by metis
  show "distinct (map f (remove_nth j xs @ ys))" using assms(1) unfolding d(2) by (auto simp: d(1))
  show "x \<in> set (remove_nth j xs @ ys) \<Longrightarrow> x \<in> set (xs @ ys) \<and> f x \<noteq> f (xs ! j)"
    using assms(1) unfolding d(2,3) by (auto simp: d(1) rev_image_eqI)
qed

lemma read_inv_drop_recv:
  assumes i: "read_inv B h s" and e: "exec B W S (DropRecv j) s = Done s'"
  shows "read_inv B (observe B S (DropRecv j) s h) s'"
proof (cases "j < length (recvs s)")
  case True
  let ?h = "recvs s ! j" let ?c = "drop_recv_stream S ?h (conn s)"
  have s': "s' = s\<lparr>conn := ?c, recvs := remove_nth j (recvs s)\<rparr>" using e True by simp
  have al: "alters (rs_id ?h) (conn s) ?c" by (rule drop_recv_alters)
  then have r: "readers s' = remove_nth j (recvs s) @ map recv_stream_new (incoming_streams (conn s))"
    by (simp add: readers_def s' alters_def)
  note o = remove_nth_other [OF in_invD(1) [OF i [unfolded read_inv_def], unfolded readers_def] True]
  show ?thesis
  proof (rule read_inv_shrink [OF i])
    fix g w assume g: "g \<in> set (readers s')" "view (conn s) (rs_id g) = Some w"
    then have "rs_id g \<noteq> rs_id ?h" using o(2) unfolding r by blast
    then show "view (conn s') (rs_id g) = Some w" using al g(2) by (simp add: s' alters_def)
  qed (use o al in \<open>auto simp: s' r [unfolded s'] alters_def readers_def [of s]\<close>)
qed (use e read_inv_step [OF i readers_step_refl, of S "DropRecv j"] in simp)

lemma release_open_permit_view:
  "view (release_open_permit S i c) = view c" "id_limit (release_open_permit S i c) = id_limit c"
  "incoming_streams (release_open_permit S i c) = incoming_streams c"
  by (auto simp: release_open_permit_def view_def id_limit_def fun_eq_iff option.map_comp comp_def view_of_def [abs_def] split: option.split)

lemma alters_removed: "alters sid c d \<Longrightarrow> alters sid c (d\<lparr>objects := (objects d)(sid := None)\<rparr>)"
proof -
  have "id_limit (d\<lparr>objects := (objects d)(sid := None)\<rparr>) = id_limit d" by (simp add: id_limit_def fun_eq_iff)
  then show "alters sid c d \<Longrightarrow> alters sid c (d\<lparr>objects := (objects d)(sid := None)\<rparr>)" by (simp add: alters_def view_def)
qed

lemma read_inv_drop_state:
  assumes i: "read_inv B h s" and e: "exec B W S (DropState sid) s = Done s'"
  shows "read_inv B (observe B S (DropState sid) s h) s'"
proof (cases "unreferenced sid s")
  case True
  then have s': "s' = s\<lparr>conn := drop_state S sid (conn s)\<rparr>" using e by simp
  have al: "alters sid (conn s) (drop_state S sid (conn s))"
  proof (cases "objects (conn s) sid")
    case (Some st)
    let ?d = "on_inbound sid (\<lambda>i. i\<lparr>chunks := []\<rparr>) (conn s)"
    let ?e = "drop_chunks S sid (chunks (inbound st)) ?d"
    have d: "alters sid (conn s) ?d" by (simp add: alters_def on_inbound_def view_on_stream id_limit_def fun_eq_iff)
    have "reads_from sid ?d ?e" by (rule reads_from_credit [OF credit_frame_drops])
    then have "alters sid (conn s) ?e" using d by (simp add: reads_from_def alters_def)
    then have "alters sid (conn s) (release_open_permit S sid ?e)" by (simp add: alters_def release_open_permit_view)
    then have "alters sid (conn s) ((release_open_permit S sid ?e)\<lparr>objects := (objects (release_open_permit S sid ?e))(sid := None)\<rparr>)"
      by (rule alters_removed)
    then show ?thesis using Some by (simp add: drop_state_def Let_def)
  qed (simp add: drop_state_def alters_def)
  have r: "readers s' = readers s" using al by (simp add: readers_def s' alters_def)
  have "sid \<notin> rs_id ` set (readers s)" using True by (auto simp: unreferenced_def readers_def recv_stream_new_def)
  then show ?thesis
    using al in_invD(1) [OF i [unfolded read_inv_def]] r
    by (intro read_inv_shrink [OF i]) (auto simp: s' alters_def)
qed (use e read_inv_step [OF i readers_step_refl, of S "DropState sid"] in simp)

lemma read_inv_join:
  assumes i: "read_inv B h s" and inv: "sys_inv free waiting written l s" and e: "exec B W S Join s = Done s'"
  shows "read_inv B (observe B S Join s h) s'"
proof (cases "s' = s")
  case False
  then have s': "s' = s\<lparr>conn := supervisor_finish S (conn s)\<rparr>" using e by (auto split: writer_task.splits if_splits)
  have ids: "used_ids (conn s)" by (rule conn_inv_used_ids [OF sys_inv_conn_inv [OF inv]])
  have "sees (conn s) (mark_closed S (conn s))" by (rule views_sees [OF views_closing(1)]) simp
  then have "keeps (conn s) (mark_closed S (conn s))" by (rule sees_keeps [OF ids])
  moreover have "view (conn s') = view (mark_closed S (conn s))" "id_limit (conn s') = id_limit (mark_closed S (conn s))"
    by (simp_all add: s' supervisor_finish_def view_def id_limit_def fun_eq_iff)
  ultimately have "keeps (conn s) (conn s')" by (simp add: keeps_def)
  then show ?thesis
    using in_invD(1) [OF i [unfolded read_inv_def]]
    by (intro read_inv_shrink [OF i]) (auto simp: s' readers_def supervisor_finish_def keeps_def)
qed (use read_inv_step [OF i readers_step_refl, of S Join] in simp)

text \<open>Reading.\<close>

lemma read_inv_poll_read:
  assumes i: "read_inv B h s" and inv: "sys_inv free waiting written l s" and e: "exec B W S (PollRead j room) s = Done s'"
  shows "read_inv B (observe B S (PollRead j room) s h) s'"
proof (cases "j < length (recvs s)")
  case True
  let ?h = "recvs s ! j"
  obtain r h' c' where r: "poll_read S room ?h (conn s) = (r, h', c')" by (metis prod_cases3)
  then have np: "r \<noteq> Ready (Inl IoPanicked)" and s': "s' = s\<lparr>conn := c', recvs := (recvs s)[j := h']\<rparr>"
    using e True by (auto simp: recv_event_def settle_io_def split: poll.splits sum.splits io_fault.splits)
  have rf: "reads_from (rs_id ?h) (conn s) c'" using reads_from_ops(1) [of ?h "conn s" S room] r by simp
  have nth: "readers s ! j = ?h" "j < length (readers s)" using True by (simp_all add: readers_def nth_append)
  have rs: "readers s' = (readers s)[j := h']"
    using rf True by (simp add: s' readers_def reads_from_def alters_def list_update_append1)
  note p = poll_read_reads [OF r np]
  have "in_inv (frames_of B (items h)) (reading s) (delivered (observe B S (PollRead j room) s h)) (finished (observe B S (PollRead j room) s h))
      ((readers s)[j := h']) c'"
  proof (rule in_inv_read [OF i [unfolded read_inv_def] conn_inv_used_ids [OF sys_inv_conn_inv [OF inv]] nth(2), unfolded nth(1)])
    show "reads_from (rs_id ?h) (conn s) c'" by (rule rf)
    show "undelivered ?h (conn s) = read_bytes r @ undelivered h' c'" by (rule p(1))
    show "read_buf h' = None \<or> read_buf h' = read_buf ?h \<or> (\<exists>w. view c' (rs_id ?h) = Some w \<and> v_mode w = 2)"
      using poll_read_mode [OF r] by blast
    show "eof ?h \<or> at_end (rs_id ?h) (conn s) \<and> undelivered h' c' = []" if "eof h' \<or> r = Ready (Inr []) \<and> 0 < room"
      using that p(3,4) by blast
  qed (use True r p(2) in \<open>auto simp: observe_def read_bytes_def split: poll.splits sum.splits\<close>)
  then show ?thesis using s' rs by (simp add: read_inv_def observe_def)
qed (use e read_inv_step [OF i readers_step_refl, of S "PollRead j room"] in \<open>simp add: recv_event_def\<close>)

lemma read_inv_read_chunk:
  assumes i: "read_inv B h s" and inv: "sys_inv free waiting written l s" and e: "exec B W S (ReadChunk j) s = Done s'"
  shows "read_inv B (observe B S (ReadChunk j) s h) s'"
proof (cases "j < length (recvs s)")
  case True
  let ?h = "recvs s ! j"
  obtain r c' where r: "recv_read_chunk S ?h (conn s) = (r, c')" by fastforce
  then have s': "s' = s\<lparr>conn := c'\<rparr>" using e True by (auto simp: settle_def split: poll.splits sum.splits fault.splits)
  have nth: "readers s ! j = ?h" "j < length (readers s)" using True by (simp_all add: readers_def nth_append)
  then obtain w where w: "view (conn s) (rs_id ?h) = Some w" "read_buf ?h \<noteq> None \<longrightarrow> v_mode w = 2"
    using in_invD(2) [OF i [unfolded read_inv_def]] unfolding reader_ok_def by (metis nth_mem)
  show ?thesis
  proof (cases "v_mode w = 2")
    case True
    obtain x where "recv_read_chunk S ?h (conn s) = (Ready (Inl (Fail x)), conn s)" using recv_read_chunk_mixed [OF w(1) True] by blast
    then have "s' = s" "read_by S (ReadChunk j) s = None" using r s' by auto
    then show ?thesis using read_inv_step [OF i readers_step_refl, of S "ReadChunk j"] by simp
  next
    case False
    then have b: "read_buf ?h = None" using w(2) by simp
    have rf: "reads_from (rs_id ?h) (conn s) c'" using reads_from_ops(2) [of ?h "conn s" S] r by simp
    have rs: "readers s' = (readers s)[j := ?h]"
      using rf nth by (metis (no_types, lifting) alters_def list_update_id readers_def reads_from_def s' system.select_convs(1,3) system.simps(14) system.surjective system.update_convs(1))
    note p = recv_read_chunk_reads [OF r b]
    have "in_inv (frames_of B (items h)) (reading s) (delivered (observe B S (ReadChunk j) s h)) (finished (observe B S (ReadChunk j) s h))
        ((readers s)[j := ?h]) c'"
    proof (rule in_inv_read [OF i [unfolded read_inv_def] conn_inv_used_ids [OF sys_inv_conn_inv [OF inv]] nth(2), unfolded nth(1)])
      show "reads_from (rs_id ?h) (conn s) c'" by (rule rf)
      show "undelivered ?h (conn s) = (case r of Ready (Inr (Some bs)) \<Rightarrow> bs | _ \<Rightarrow> []) @ undelivered ?h c'" by (rule p(1))
      show "eof ?h \<or> at_end (rs_id ?h) (conn s) \<and> undelivered ?h c' = []" if "eof ?h \<or> r = Ready (Inr None)"
        using that p by auto
    qed (use True r in \<open>auto simp: observe_def split: poll.splits sum.splits option.splits\<close>)
    then show ?thesis using s' rs by (simp add: read_inv_def observe_def)
  qed
qed (use e read_inv_step [OF i readers_step_refl, of S "ReadChunk j"] in simp)

text \<open>An item from the transport.\<close>

lemma reader_frame_arrival:
  assumes ids: "ids_inv c" and B: "buf B unread" and r: "reader_frame B S bytes n c = (Done b, c')"
  shows "case fst (frame_decode B bytes) of Inl _ \<Rightarrow> \<not> b \<and> views c c' | Inr f \<Rightarrow> arrival f b c c'"
proof -
  obtain x rest where d: "frame_decode B bytes = (x, rest)" by fastforce
  let ?c = "record_received n c"
  have v: "views c ?c" by (rule views_flags) simp
  have stop: "views d c'" "\<not> b" if "handle_incoming_frame B S bytes ?c = (y, d)" "y \<noteq> Inr True" for y d
    using that r by (auto simp: reader_frame_def split: sum.splits bool.splits fault.splits intro!: views_closing)
  show ?thesis
  proof (cases x)
    case (Inl y)
    then have "handle_incoming_frame B S bytes ?c = (Inl (Fail (Wire y)), ?c)" using d by (simp add: handle_incoming_frame_def)
    then show ?thesis using stop v views_trans d Inl by fastforce
  next
    case (Inr f)
    obtain y e where a: "accept_frame S f ?c = (y, e)" by fastforce
    have h: "handle_incoming_frame B S bytes ?c = (y, e)" using d Inr a by (simp add: handle_incoming_frame_def)
    have "wf_frame f" using buf.frame_decode_consumes [OF B] d Inr by blast
    moreover have "ids_inv ?c" using ids by (auto simp: record_received_def ids_inv_def id_limit_def split: if_splits)
    ultimately have "arrival f (y = Inr True) ?c e" using accept_frame_view a by blast
    moreover have eq: "view ?c = view c" "id_limit ?c = id_limit c" "incoming_streams ?c = incoming_streams c"
      by (simp_all add: record_received_def view_def id_limit_def fun_eq_iff)
    ultimately have "arrival f (y = Inr True) c e" unfolding arrival_def alters_def sees_def views_def eq by blast
    then have "arrival f b c c'" using arrival_after stop [OF h] r h by (cases "y = Inr True") (auto simp: reader_frame_def)
    then show ?thesis using d Inr by simp
  qed
qed

lemma arrival_keeps:
  assumes "used_ids c" "arrival f False c c'"
  shows "keeps c c'" "incoming_streams c' = incoming_streams c"
  using assms sees_keeps by (auto simp: arrival_def views_def split: frame.splits)

lemma read_inv_incoming:
  assumes i: "read_inv B h s" and inv: "sys_inv free waiting written l s" and B: "buf B unread"
    and e: "exec B W S (Incoming bytes) s = Done s'"
  shows "read_inv B (observe B S (Incoming bytes) s h) s'"
proof (cases "reading s \<and> remaining B bytes \<le> max_frame_size (limits (conn s))")
  case True
  have ci: "conn_inv free waiting (holds (recvs s)) (conn s)" by (rule sys_inv_conn_inv [OF inv])
  then have ids: "ids_inv (conn s)" by (simp add: conn_inv_def streams_inv_def)
  note used = conn_inv_used_ids [OF ci]
  obtain b c where r: "reader_frame B S bytes (remaining B bytes) (conn s) = (Done b, c)" and s': "s' = s\<lparr>conn := c, reading := b\<rparr>"
    using e True by (auto simp: incoming_event_def split: prod.splits run.splits)
  note a = reader_frame_arrival [OF ids B r]
  note ii = i [unfolded read_inv_def]
  let ?fs = "frames_of B (items h)"
  have stop: "in_inv (?fs @ gs) False (delivered h) (finished h) (readers s') c"
    if "keeps (conn s) c" "incoming_streams c = incoming_streams (conn s)" for gs
    by (rule in_inv_keeps [OF in_inv_more [OF ii] that(1)]) (use that(2) in_invD(1) [OF ii] in \<open>simp_all add: readers_def s'\<close>)
  have "in_inv (?fs @ frames_of B [bytes]) b (delivered h) (finished h) (readers s') c"
  proof (cases "fst (frame_decode B bytes)")
    case (Inl x)
    then have "\<not> b" "keeps (conn s) c" "incoming_streams c = incoming_streams (conn s)"
      using a sees_keeps [OF used] by (auto simp: views_def)
    then show ?thesis using stop by simp
  next
    case (Inr f)
    then have a: "arrival f b (conn s) c" using a by simp
    show ?thesis
    proof (cases b)
      case b: True
      have "in_inv (?fs @ [f]) True (delivered h) (finished h) (readers s') c"
        by (rule in_inv_arrival [OF _ used]) (use ii True b a in \<open>auto simp: readers_def s' arrival_def alters_def views_def split: frame.splits\<close>)
      then show ?thesis using Inr b by (simp add: frames_of_def)
    next
      case False
      then show ?thesis using stop arrival_keeps [OF used] a by simp
    qed
  qed
  then show ?thesis using True s' by (simp add: read_inv_def observe_def)
next
  case False
  then have "s' = s" "taken_by B (Incoming bytes) s = []" using e by (auto simp: incoming_event_def split: if_splits)
  then show ?thesis using read_inv_step [OF i readers_step_refl, of S "Incoming bytes"] by simp
qed

section \<open>All events\<close>

lemma read_inv_exec:
  assumes i: "read_inv B h s" and inv: "sys_inv free waiting written l s" and B: "buf B unread" and W: "writer_buffer W written"
    and e: "exec B W S ev s = Done s'"
  shows "read_inv B (observe B S ev s h) s'"
proof (cases "reader_event ev")
  case True
  then show ?thesis
    using e read_inv_open [OF inv i] read_inv_accept [OF inv i] read_inv_poll_read [OF i inv] read_inv_read_chunk [OF i inv]
      read_inv_drop_recv [OF i] read_inv_incoming [OF i inv B] read_inv_join [OF i inv] read_inv_drop_state [OF i]
    by (cases ev) auto
next
  case False
  then show ?thesis using read_inv_step [OF i exec_readers [OF inv e False]] not_reader_event by blast
qed

lemma read_inv_new:
  assumes "connection_new S m l is_client certs = Inr c"
  shows "read_inv B history_new (system_new c keepalive)"
proof -
  have "incoming_streams c = []" using assms by (auto simp: connection_new_def Let_def split: sum.splits option.splits)
  then show ?thesis by (simp add: read_inv_def in_inv_def system_new_def history_new_def readers_def)
qed

theorem recorded_read:
  assumes "recorded B W S m l s h" "buf B unread" "writer_buffer W written"
  shows "read_inv B h s"
  using assms(1)
proof (induction rule: recorded.induct)
  case (event s h e s')
  have "sys_inv free waiting written l s" by (rule reachable_inv [OF recorded_reachable [OF event(1)] assms(2,3)])
  then show ?case using read_inv_exec event assms by blast
qed (rule read_inv_new)

end

end
