(* ===== verification/End_To_End.thy ===== *)
theory End_To_End
  imports System_Props Read_Order
begin

text \<open>
  From the application on one side to the application on the other: two endpoints, each with its own tasks, callers and
  limits, and a transport that hands the encoded frames over in order. What one side reads of a stream is what the other
  side wrote to it.
\<close>

section \<open>Runs with their history\<close>

fun record_events :: "'b buf_ops \<Rightarrow> 'o writer_buf \<Rightarrow> 's sem_ops \<Rightarrow> 'b event list \<Rightarrow> ('s, 'o) system \<Rightarrow> 'b history \<Rightarrow> (('s, 'o) system \<times> 'b history) run" where
  "record_events B W S [] s h = Done (s, h)"
| "record_events B W S (e # es) s h =
     (case exec B W S e s of Done s' \<Rightarrow> record_events B W S es s' (observe B S e s h) | Panic \<Rightarrow> Panic)"

lemma recorded_events:
  "recorded B W S m l s h \<Longrightarrow> record_events B W S es s h = Done (s', h') \<Longrightarrow> recorded B W S m l s' h'"
  by (induction es arbitrary: s h) (auto split: run.splits intro: recorded.event)

lemma observe_code [code]:
  "observe B S e s h = h\<lparr> items := items h @ taken_by B e s,
     accepted := (\<lambda>sid. accepted h sid @ on_id (accepted_by S e s) sid),
     delivered := (\<lambda>sid. delivered h sid @ on_id (map_option (\<lambda>(i, bs, _). (i, bs)) (read_by S e s)) sid),
     finished := (\<lambda>sid. finished h sid \<or> (case read_by S e s of None \<Rightarrow> False | Some (i, _, b) \<Rightarrow> i = sid \<and> b)) \<rparr>"
  by (auto simp: observe_def fun_eq_iff split: option.split)

section \<open>What the transport carries\<close>

lemma frames_of_encodings:
  assumes B: "buf B unread" and w: "list_all2 (\<lambda>b f. unread b = frame_bytes f \<and> wf_frame f) bs fs"
  shows "frames_of B bs = fs"
  using w
proof (induction rule: list_all2_induct)
  case (Cons b bs f fs)
  have "fst (frame_decode B b) = Inr f" using buf.frame_decode_bytes [OF B, of f b] Cons(1) by blast
  then show ?case using Cons by (simp add: frames_of_def)
qed simp

lemma frames_of_wire:
  assumes B: "buf B unread" and ok: "list_all (wire_ok written l) ws" and p: "prefix (map unread bs) (map (written \<circ> snd) ws)"
  shows "\<exists>us. ws = take (length bs) ws @ us \<and> frames_of B bs = map fst (take (length bs) ws)"
proof -
  have "map unread bs = map (written \<circ> snd) (take (length bs) ws)" using p by (metis append_eq_conv_conj length_map prefixE take_map)
  then have eq: "list_all2 (\<lambda>b x. unread b = written (snd x)) bs (take (length bs) ws)"
    by (simp add: list_all2_conv_all_nth list_eq_iff_nth_eq)
  have "list_all (wire_ok written l) (take (length bs) ws)" using ok by (metis append_take_drop_id list_all_append)
  with eq have "list_all2 (\<lambda>b f. unread b = frame_bytes f \<and> wf_frame f) bs (map fst (take (length bs) ws))"
    by (auto simp: list_all2_conv_all_nth list_all_length wire_ok_def split_def)
  from frames_of_encodings [OF B this] show ?thesis by (metis append_take_drop_id)
qed

lemma sent_on_wire:
  assumes "sent_inv acc s"
  shows "prefix (payloads (map fst (wire s)) sid) (acc sid)"
    "map fst (wire s) = gs @ hs \<Longrightarrow> has_fin gs sid \<Longrightarrow> payloads gs sid = acc sid"
proof -
  have inv: "out_inv acc (out_frames s) (active (writing s)) (conn s)" using assms by (simp add: sent_inv_def)
  obtain fs where fs: "out_frames s = map fst (wire s) @ fs" by (simp add: out_frames_def)
  show "prefix (payloads (map fst (wire s)) sid) (acc sid)"
    using out_invD(1) [OF inv, of sid] unfolding fs by (auto dest: append_prefixD)
  show "map fst (wire s) = gs @ hs \<Longrightarrow> has_fin gs sid \<Longrightarrow> payloads gs sid = acc sid"
    using out_invD(3) [OF inv, of gs "hs @ fs" sid] fs by simp
qed

lemma payloads_prefix: "prefix fs gs \<Longrightarrow> prefix (payloads fs sid) (payloads gs sid)"
  by (auto simp: prefix_def)

section \<open>A run of two endpoints\<close>

text \<open>A client opens a stream, writes three bytes and finishes it; its writer sends four frames. A server receives
  them, accepts the stream and reads it to its end.\<close>

abbreviation demo_settings :: frame where
  "demo_settings \<equiv> Settings (VarInt 4194304) (VarInt 262144) (VarInt 65536)"

abbreviation demo_wire :: "bytes list" where
  "demo_wire \<equiv> [[5, 128, 64, 0, 0, 128, 4, 0, 0, 128, 1, 0, 0], [4, 0], [0, 0, 0, 3, 1, 2, 3], [0, 0, 1, 0]]"

definition demo_sending :: "bytes event list" where
  "demo_sending = [OpenBi, PollOpen 0, WriteChunk 0 [1, 2, 3], PollCall 0, Finish 0, PollCall 0, Incoming (demo_wire ! 0),
     TakeFrame (\<lambda>_. [0]), Sent True, TakeFrame (\<lambda>_. [0]), Sent True, TakeFrame (\<lambda>_. [0]), Sent True, TakeFrame (\<lambda>_. [0]), Sent True]"

definition demo_reading :: "bytes event list" where
  "demo_reading = map Incoming demo_wire @ [AcceptBi, ReadChunk 0, ReadChunk 0]"

definition demo_server :: "(nat \<times> bool) connection" where
  "demo_server = demo_client\<lparr>local_parity := 1, next_local_stream_id := 1, next_remote_stream_id := 0\<rparr>"

lemma demo_server_new: "connection_new counting_ops (2 ^ 61 - 1) default_limits False None = Inr demo_server"
proof -
  have v: "validate (2 ^ 61 - 1) default_limits = Inr ()" by (rule default_limits_valid) simp
  have f: "settings_frame default_limits = Some demo_settings"
    by (simp add: settings_frame_def default_limits_def from_u64_def varint_MAX_def as_u64_def)
  show ?thesis
    unfolding demo_server_def demo_client_eq connection_new_def v f by (simp add: Let_def default_limits_def counting_simps)
qed

lemma demo_encodings:
  "frame_bytes demo_settings = [5, 128, 64, 0, 0, 128, 4, 0, 0, 128, 1, 0, 0]" "frame_bytes (OpenStream (VarInt 0)) = [4, 0]"
  "frame_bytes (Stream (VarInt 0) False [1, 2, 3]) = [0, 0, 0, 3, 1, 2, 3]" "frame_bytes (Stream (VarInt 0) True []) = [0, 0, 1, 0]"
  by code_simp+

lemma decode_bytes: "frame_bytes f = bs \<Longrightarrow> wf_frame f \<Longrightarrow> frame_decode bytes_ops bs = (Inr f, [])"
  using bytes_buf.frame_decode_bytes [of f bs] by (auto simp: prod_eq_iff)

lemma encode_bytes: "wf_frame f \<Longrightarrow> frame_encode (wb_ops bytes_writer) f (wb_new bytes_writer) = (Inr (), frame_bytes f)"
  using bw.encode_new [of f] by (cases "frame_encode (wb_ops bytes_writer) f (wb_new bytes_writer)") simp

lemma demo_frames:
  "wf_frame demo_settings" "wf_frame (OpenStream (VarInt 0))" "wf_frame (Stream (VarInt 0) False [1, 2, 3])" "wf_frame (Stream (VarInt 0) True [])"
  by (simp_all add: wf_varint_def varint_MAX_def)

lemmas demo_decodings = demo_encodings(1) [THEN decode_bytes, OF demo_frames(1)] demo_encodings(2) [THEN decode_bytes, OF demo_frames(2)]
  demo_encodings(3) [THEN decode_bytes, OF demo_frames(3)] demo_encodings(4) [THEN decode_bytes, OF demo_frames(4)]

lemma as_u32_three: "as_u32 (Suc (Suc (Suc 0))) = 3"
  by (simp add: as_u32_def)

lemmas run_state = counting_simps Let_def on_stream_def on_queues_def settle_def remove_nth_def held_def default_limits_def stream_state_new_def
  queues_new_def history_new_def observe_code MIN_FRAME_SIZE_def u32_max_def as_u64_def as_u32_three from_u64_def varint_MAX_def wf_varint_def
  length_varint_def varint_encoded_len_def u64_try_from_usize_def map_err_def saturating_sub_def and_then_def ok_def

lemmas run_open = open_event_def open_lock_stage_def open_permit_stage_def open_finish_def take_stream_id_def new_handles_def add_handles_def
  count_opened_def register_stream_def frames_per_stream_def ensure_open_def send_stream_new_def recv_stream_new_def

lemmas run_send = call_event_def poll_send_def queue_lock_def queue_checks_def queue_stream_frame_def queue_stream_bytes_def queue_conn_frame_def
  queue_conn_bytes_def queue_finish_def byte_permit_def set_send_locked_def select_send_mode_def select_mode_def continue_call_def
  enqueue_data_def queue_of_def

lemmas run_writer = take_event_def sent_event_def writer_take_def writer_sent_def next_frame.simps next_pass_def control_pass_def control_done_def
  data_pass_def send_count_def dispatch_def frame_sent_def record_sent_def drop_out_chunk_def try_retire_stream_def
  rw_update_def next_limit_def needs_update_def rw_new_def saturating_add_def encode_bytes demo_encodings bw.len_written

lemmas run_receive = incoming_event_def reader_frame_def handle_incoming_frame_def accept_frame_def record_received_def on_settings_def demo_decodings
  ensure_peer_send_open_def lookup_stream_def on_remote_open_def on_remote_stream_frame_def receive_both_def rw_receive_def checked_add_def push_inbound_def
  acquire_inbound_def store_inbound_def store_chunk_def open_page_def on_inbound_def mark_recv_terminal_def usize_div_ceil_def

lemmas run_read = accept_event_def accept_bi_def recv_read_chunk_def select_recv_mode_def select_mode_def read_chunk_def chunk_into_bytes_def
  chunk_consume_def permit_split_def release_inbound_def rw_consume_def rb_default_def drop_chunk_def div_ceil_def

lemma demo_sending_run:
  "\<exists>s h. record_events bytes_ops bytes_writer counting_ops demo_sending (system_new demo_client False) history_new = Done (s, h)
     \<and> map snd (wire s) = demo_wire \<and> accepted h 0 = [1, 2, 3]"
  unfolding demo_sending_def system_new_def demo_client_eq
  by (simp add: run_state run_open run_send run_writer run_receive del: frame_bytes.simps frame_encode.simps)

lemma demo_reading_run:
  "\<exists>s h. record_events bytes_ops bytes_writer counting_ops demo_reading (system_new demo_server False) history_new = Done (s, h)
     \<and> items h = demo_wire \<and> delivered h 0 = [1, 2, 3] \<and> finished h 0"
  unfolding demo_reading_def system_new_def demo_server_def demo_client_eq
  by (simp add: run_state run_open run_writer run_receive run_read del: frame_bytes.simps frame_encode.simps)

text \<open>The two endpoints after the run.\<close>

lemma demo_transfer:
  obtains s h s' h' where "recorded bytes_ops bytes_writer counting_ops (2 ^ 61 - 1) default_limits s h"
    "recorded bytes_ops bytes_writer counting_ops (2 ^ 61 - 1) default_limits s' h'"
    "map snd (wire s) = demo_wire" "accepted h 0 = [1, 2, 3]" "items h' = demo_wire" "delivered h' 0 = [1, 2, 3]" "finished h' 0"
  using demo_sending_run demo_reading_run
    recorded_events [OF recorded.start [OF demo_client_new]] recorded_events [OF recorded.start [OF demo_server_new]] by metis

section \<open>Properties\<close>

text \<open>C7 (invariant): what is sent of a stream is what was written to it, in order, without loss or duplication. In every
  reachable state, for every stream, the payloads of the frames that the transport took are a prefix of the bytes whose
  write was reported as done; once a frame with FIN was sent they are all of them. While the writer is running, the rest is still in the
  stream's queue, unless the stream was reset or the connection is closing.\<close>

theorem sent_in_order:
  assumes "semaphore S free is_closed waiting" "buf B unread" "writer_buffer W written" "recorded B W S m l s h"
  shows "prefix (payloads (map fst (wire s)) sid) (accepted h sid)
    \<and> (has_fin (map fst (wire s)) sid \<longrightarrow> payloads (map fst (wire s)) sid = accepted h sid)
    \<and> (active (writing s) \<and> \<not> closing (writer (conn s)) \<and> \<not> ended sid (conn s) \<longrightarrow>
         accepted h sid = payloads (out_frames s) sid @ queued_bytes (conn s) sid)"
proof -
  have inv: "sent_inv (accepted h) s" by (rule semaphore.recorded_sent [OF assms(1,4,2,3)])
  then have "out_inv (accepted h) (out_frames s) (active (writing s)) (conn s)" by (simp add: sent_inv_def)
  from out_invD(2) [OF this, of sid] show ?thesis
    using sent_on_wire(1) [OF inv] sent_on_wire(2) [OF inv, of "map fst (wire s)" "[]"] by (auto simp: sealed_def)
qed

theorem sent_in_order_witness:
  "\<exists>s h. recorded bytes_ops bytes_writer counting_ops (2 ^ 61 - 1) default_limits s h \<and> accepted h 0 = [1, 2, 3]
     \<and> prefix (payloads (map fst (wire s)) 0) (accepted h 0)"
  using demo_transfer sent_in_order [OF demo_instances] by metis

text \<open>C8 (invariant): what is read of a stream is what was received on it. In every reachable state, for every stream, the bytes
  handed to the application are a prefix of the payloads of the received frames, in the order of arrival; and the end of
  the stream is reported only after a FIN and all bytes before it. Resets, protocol errors, a close and mixed read
  methods can cut a stream short, and never skip or repeat a byte.\<close>

theorem read_in_order:
  assumes "semaphore S free is_closed waiting" "buf B unread" "writer_buffer W written" "recorded B W S m l s h"
  shows "prefix (delivered h sid) (payloads (frames_of B (items h)) sid)
    \<and> (finished h sid \<longrightarrow> (\<exists>gs hs. frames_of B (items h) = gs @ hs \<and> has_fin gs sid \<and> delivered h sid = payloads gs sid))"
proof -
  have "read_inv B h s" by (rule semaphore.recorded_read [OF assms(1,4,2,3)])
  then have inv: "in_inv (frames_of B (items h)) (reading s) (delivered h) (finished h) (readers s) (conn s)" by (simp add: read_inv_def)
  show ?thesis using in_invD(3) [OF inv, of sid] in_invD(4) [OF inv, of sid] by (simp add: ends_def)
qed

theorem read_in_order_witness:
  "\<exists>s h. recorded bytes_ops bytes_writer counting_ops (2 ^ 61 - 1) default_limits s h \<and> delivered h 0 = [1, 2, 3]
     \<and> prefix (delivered h 0) (payloads (frames_of bytes_ops (items h)) 0)"
  using demo_transfer read_in_order [OF demo_instances] by metis

text \<open>C2 (refinement): a stream of a connection is a reliable byte pipe. Let two endpoints run, each with its own limits,
  application and interleaving of tasks, over a transport that delivers, of the encoded frames that the first endpoint
  handed to it, a prefix in order. Then, for every stream, the bytes read at the second endpoint are a prefix of the bytes
  written at the first; and when the second reports the end of the stream, they are all of them.\<close>

theorem end_to_end:
  assumes "semaphore S free is_closed waiting" "buf B unread" "writer_buffer W written" "recorded B W S m l s h"
    and "semaphore S' free' is_closed' waiting'" "buf B' unread'" "writer_buffer W' written'" "recorded B' W' S' m' l' s' h'"
    and transport: "prefix (map unread' (items h')) (map (written \<circ> snd) (wire s))"
  shows "prefix (delivered h' sid) (accepted h sid) \<and> (finished h' sid \<longrightarrow> delivered h' sid = accepted h sid)"
proof -
  have "list_all (wire_ok written l) (wire s)"
    using semaphore.reachable_inv [OF assms(1) recorded_reachable [OF assms(4)] assms(2,3)] by (simp add: sys_inv_def)
  then obtain us where us: "wire s = take (length (items h')) (wire s) @ us" "frames_of B' (items h') = map fst (take (length (items h')) (wire s))"
    using frames_of_wire [OF assms(6) _ transport] by blast
  then have fs: "map fst (wire s) = frames_of B' (items h') @ map fst us" by (metis map_append)
  have sent: "sent_inv (accepted h) s" by (rule semaphore.recorded_sent [OF assms(1,4,2,3)])
  have "read_inv B' h' s'" by (rule semaphore.recorded_read [OF assms(5,8,6,7)])
  then have inv: "in_inv (frames_of B' (items h')) (reading s') (delivered h') (finished h') (readers s') (conn s')" by (simp add: read_inv_def)
  have "prefix (payloads (frames_of B' (items h')) sid) (payloads (map fst (wire s)) sid)" by (rule payloads_prefix) (simp add: fs)
  then have "prefix (delivered h' sid) (accepted h sid)"
    using in_invD(3) [OF inv] sent_on_wire(1) [OF sent] prefix_order.trans by blast
  moreover have "delivered h' sid = accepted h sid" if fin: "finished h' sid"
  proof -
    obtain gs hs where g: "frames_of B' (items h') = gs @ hs" "has_fin gs sid" "delivered h' sid = payloads gs sid"
      using in_invD(4) [OF inv fin] unfolding ends_def by blast
    then show ?thesis using sent_on_wire(2) [OF sent, of gs "hs @ map fst us" sid] fs by simp
  qed
  ultimately show ?thesis by blast
qed

theorem end_to_end_witness:
  "\<exists>s h s' h'. recorded bytes_ops bytes_writer counting_ops (2 ^ 61 - 1) default_limits s h
     \<and> recorded bytes_ops bytes_writer counting_ops (2 ^ 61 - 1) default_limits s' h'
     \<and> finished h' 0 \<and> delivered h' 0 = [1, 2, 3] \<and> delivered h' 0 = accepted h 0"
proof -
  obtain s h s' h' where r: "recorded bytes_ops bytes_writer counting_ops (2 ^ 61 - 1) default_limits s h"
    "recorded bytes_ops bytes_writer counting_ops (2 ^ 61 - 1) default_limits s' h'"
    and o: "map snd (wire s) = demo_wire" "items h' = demo_wire" "delivered h' 0 = [1, 2, 3]" "finished h' 0"
    using demo_transfer by metis
  have "delivered h' 0 = accepted h 0" using end_to_end [OF demo_instances r(1) demo_instances r(2), of 0] o by (simp add: comp_def)
  then show ?thesis using r o by blast
qed

end
