(* ===== verification/Shutdown.thy ===== *)
theory Shutdown
  imports System_Props
begin

text \<open>
  The end of a connection. Once the writer is shut down (\<open>mark_closed\<close> ran), no event brings a task back, every turn of a
  task brings its end nearer, and some turn is possible until the supervisor has joined them all. Under a fair schedule a connection that
  is closing is joined, whatever the peer, the transport and the application do meanwhile.
\<close>

section \<open>Flags that stay\<close>

definition advances :: "'s connection \<Rightarrow> 's connection \<Rightarrow> bool" where
  "advances c c' \<longleftrightarrow> (closed c \<longrightarrow> closed c') \<and> (shut c \<longrightarrow> shut c') \<and> (cleanup_started c \<longrightarrow> cleanup_started c')
     \<and> (cleanup_started c' \<longrightarrow> cleanup_started c \<or> shut c') \<and> (joined c \<longrightarrow> joined c')"

lemma advances_refl [simp]: "advances c c"
  by (simp add: advances_def)

lemma evolves_advances: "evolves c c' \<Longrightarrow> advances c c'"
  using evolvesD(5,7,13-15) [of c c'] by (simp add: advances_def)

lemma local_step_advances: "local_step c c' \<Longrightarrow> advances c c'"
  by (simp add: local_step_def evolves_advances)

lemma task_ok_advances: "task_ok free waiting out c c' \<Longrightarrow> advances c c'"
  by (simp add: task_ok_def local_step_advances)

lemma drop_state_advances: "advances c (drop_state S sid c)"
proof (cases "objects c sid")
  case (Some st)
  let ?d = "on_inbound sid (\<lambda>i. i\<lparr>chunks := []\<rparr>) c"
  have "credit_frame ?d (drop_chunks S sid (chunks (inbound st)) ?d)" by (rule credit_frame_drops)
  then show ?thesis
    using Some by (auto simp: drop_state_def Let_def release_open_permit_def on_inbound_def credit_frame_def advances_def shut_def split: option.split)
qed (simp add: drop_state_def)

context semaphore
begin

text \<open>An operation on a handle, and then all events.\<close>

lemma send_event_advances:
  assumes inv: "sys_inv free waiting written l s" and e: "send_event j f s = Done s'"
    and f: "\<And>h out. conn_inv free waiting out (conn s) \<Longrightarrow> send_ok (conn s) h \<Longrightarrow> send_step_ok free waiting out (conn s) h (f h (conn s))"
  shows "advances (conn s) (conn s')"
proof (cases "j < length (sends s)")
  case True
  then have "send_ok (conn s) (sends s ! j)" using inv by (simp add: sys_inv_def list_all_length)
  then have "local_step (conn s) (snd (snd (f (sends s ! j) (conn s))))"
    using f [OF sys_inv_conn_inv [OF inv]] by (simp add: send_step_ok_def)
  then show ?thesis
    using e True local_step_advances
    by (auto simp: send_event_def settle_io_def split: prod.splits poll.splits sum.splits io_fault.splits)
qed (use e in \<open>simp add: send_event_def\<close>)

lemma poll_read_advances:
  assumes inv: "sys_inv free waiting written l s" and e: "recv_event j (poll_read S room) s = Done s'"
  shows "advances (conn s) (conn s')"
proof (cases "j < length (recvs s)")
  case True
  then have h: "recv_ok (conn s) (recvs s ! j)" using inv by (simp add: sys_inv_def list_all_length)
  have "conn_inv free waiting (\<lambda>i. holds (remove_nth j (recvs s)) i + hold (recvs s ! j) i) (conn s)"
    using inv holds_nth(1) [OF True] by (simp add: sys_inv_def)
  from poll_read_ok [OF this sys_inv_here [OF inv] h, of room]
  have "local_step (conn s) (snd (snd (poll_read S room (recvs s ! j) (conn s))))" by (simp add: recv_step_ok_def)
  then show ?thesis
    using e True local_step_advances
    by (auto simp: recv_event_def settle_io_def split: prod.splits poll.splits sum.splits io_fault.splits)
qed (use e in \<open>simp add: recv_event_def\<close>)

lemma recv_advances:
  assumes inv: "sys_inv free waiting written l s" and j: "j < length (recvs s)"
  shows "advances (conn s) (drop_recv_stream S (recvs s ! j) (conn s))" "advances (conn s) (snd (recv_read_chunk S (recvs s ! j) (conn s)))"
proof -
  have h: "recv_ok (conn s) (recvs s ! j)" using inv j by (simp add: sys_inv_def list_all_length)
  have "conn_inv free waiting (\<lambda>i. holds (remove_nth j (recvs s)) i + hold (recvs s ! j) i) (conn s)"
    using inv holds_nth(1) [OF j] by (simp add: sys_inv_def)
  from local_step_advances [OF drop_recv_stream_ok(2) [OF this h]]
  show "advances (conn s) (drop_recv_stream S (recvs s ! j) (conn s))" .
  show "advances (conn s) (snd (recv_read_chunk S (recvs s ! j) (conn s)))"
    using local_step_advances [OF recv_read_chunk_ok(2) [OF sys_inv_conn_inv [OF inv] sys_inv_here [OF inv] h prod.collapse [symmetric]]] .
qed

lemma call_event_advances:
  assumes inv: "sys_inv free waiting written l s" and i: "i < length (calls s)" and e: "call_event S i s = Done s'"
  shows "advances (conn s) (conn s')"
proof -
  obtain sid p fin g where c: "calls s ! i = (sid, p, fin, g)" by (metis prod_cases4)
  have ok: "call_ok (conn s) (sid, p, fin, g)" using inv i c by (metis list_all_length sys_inv_def)
  obtain r c' where r: "poll_call S sid p fin g (conn s) = (r, c')" by fastforce
  have "objects (conn s) sid \<noteq> None" using ok by (auto simp: call_ok_def)
  from poll_call_ok(2) [OF sys_inv_conn_inv [OF inv] this _ r] ok have "local_step (conn s) c'" by (auto simp: call_ok_def)
  then show ?thesis using e r c local_step_advances by (auto simp: call_event_def settle_def split: sum.splits fault.splits)
qed

lemma incoming_event_advances:
  assumes inv: "sys_inv free waiting written l s" and B: "buf B unread" and e: "incoming_event B S bytes s = Done s'"
  shows "advances (conn s) (conn s')"
proof (cases "reading s \<and> remaining B bytes \<le> max_frame_size (limits (conn s))")
  case True
  have ci: "conn_inv free waiting (holds (recvs s)) (conn s)" "settings_inv (conn s)" using inv by (simp_all add: sys_inv_def)
  have "length (unread bytes) < 2 ^ 32"
    using True conn_inv_frame_size [OF ci(1)] buf.remaining_length [OF B, of bytes] by simp
  from evolves_advances [OF reader_frame_safe(4) [OF B ci this, of "remaining B bytes"]] show ?thesis
    using e True by (auto simp: incoming_event_def split: prod.splits run.splits)
qed (use e in \<open>auto simp: incoming_event_def split: if_splits\<close>)

lemma task_event_advances:
  assumes inv: "sys_inv free waiting written l s" and W: "writer_buffer W written"
  shows "take_event W S order s = Done s' \<Longrightarrow> advances (conn s) (conn s')" "sent_event W S b s = Done s' \<Longrightarrow> advances (conn s) (conn s')"
    "cleanup_event S s = Done s' \<Longrightarrow> advances (conn s) (conn s')"
proof -
  note ci = sys_inv_conn_inv [OF inv]
  show "take_event W S order s = Done s' \<Longrightarrow> advances (conn s) (conn s')"
    using task_ok_advances [OF writer_take_ok(1) [OF ci W]] by (fastforce simp: take_event_def split: writer_task.splits prod.splits run.splits)
  show "sent_event W S b s = Done s' \<Longrightarrow> advances (conn s) (conn s')"
  proof (cases "writing s")
    case (WSending f x)
    then have "sent_ok f (conn s)" using inv by (auto simp: sys_inv_def)
    from task_ok_advances [OF writer_sent_ok [OF ci this, of W x b]]
    show "sent_event W S b s = Done s' \<Longrightarrow> advances (conn s) (conn s')"
      using WSending by (auto simp: sent_event_def Let_def case_prod_beta)
  qed (simp_all add: sent_event_def)
  show "cleanup_event S s = Done s' \<Longrightarrow> advances (conn s) (conn s')"
  proof -
    assume e: "cleanup_event S s = Done s'"
    have "advances (conn s) (snd (cleanup_stream S sid (conn s)))" if "cleaning s = Some (sid # ids)" for sid ids
      by (rule task_ok_advances [OF cleanup_stream_ok(1) [OF ci]]) (use inv that in \<open>auto simp: sys_inv_def snapshot_def\<close>)
    then show ?thesis
      using e by (auto simp: cleanup_event_def settle_def split: option.splits list.splits prod.splits sum.splits fault.splits)
  qed
qed

lemma exec_advances:
  assumes inv: "sys_inv free waiting written l s" and B: "buf B unread" and W: "writer_buffer W written" and e: "exec B W S ev s = Done s'"
  shows "advances (conn s) (conn s')"
proof -
  note ci = sys_inv_conn_inv [OF inv] and here = sys_inv_here [OF inv]
  note mc = local_step_advances [OF local_step_closing(1) [OF here]] local_step_advances [OF local_step_closing(1) [OF local_step_closing(2) [OF here]]]
  note send = send_event_advances [OF inv]
  show ?thesis
  proof (cases ev)
    case (PollOpen i)
    then show ?thesis
      using e local_step_advances [OF local_step_poll_open_bi [OF ci, of "opens s ! i"]]
      by (auto simp: open_event_def Let_def new_handles_def settle_def split: if_splits prod.splits sum.splits fault.splits)
  next
    case (DropOpen i)
    then show ?thesis using e by (cases "opens s ! i") (auto simp: advances_def shut_def split: if_splits)
  next
    case AcceptBi
    then show ?thesis
      using e local_step_advances [OF local_step_accept_bi [OF here]]
      by (auto simp: accept_event_def new_handles_def settle_def split: poll.splits prod.splits sum.splits fault.splits)
  next
    case (PollCall i)
    then show ?thesis using e call_event_advances [OF inv] by (auto split: if_splits)
  next
    case (DropCall i)
    have "advances (conn s) (drop_call S sid p g (conn s))" for sid p g
      by (rule local_step_advances) (use here local_step_sends(2) [OF here] in \<open>cases g; simp\<close>)
    then show ?thesis using DropCall e by (auto split: if_splits prod.splits)
  next
    case (ResetSend j code)
    then show ?thesis
      using e local_step_advances [OF local_step_control(3) [OF here, of S "ss_id (sends s ! j)" code]]
      by (auto simp: reset_send_def settle_def split: if_splits prod.splits sum.splits fault.splits)
  next
    case (PollWrite j src)
    then show ?thesis using e by (intro send [of j "\<lambda>h. poll_write S h src"]) (simp_all add: poll_write_ok [OF _ here])
  next
    case (PollFlush j)
    then show ?thesis using e by (intro send [of j "poll_flush S"]) (simp_all add: poll_flush_ok(1) [OF _ here])
  next
    case (PollShutdown j)
    then show ?thesis using e by (intro send [of j "poll_shutdown S"]) (simp_all add: poll_shutdown_ok [OF _ here])
  next
    case (DropSend j)
    then show ?thesis using e local_step_advances [OF drop_send_stream_ok(2) [OF ci]] by (auto split: if_splits)
  next
    case (PollRead j room)
    then show ?thesis using e poll_read_advances [OF inv] by simp
  next
    case (ReadChunk j)
    then show ?thesis
      using e recv_advances(2) [OF inv, of j] by (auto simp: settle_def split: if_splits prod.splits poll.splits sum.splits fault.splits)
  next
    case (DropRecv j)
    then show ?thesis using e recv_advances(1) [OF inv, of j] by (auto split: if_splits)
  next
    case (Close reason)
    then show ?thesis
      using e local_step_advances [OF local_step_closing(2) [OF here, of S 0 reason]]
      by (auto simp: connection_close_def settle_def split: if_splits prod.splits sum.splits fault.splits)
  next
    case (Incoming bytes)
    then show ?thesis using e incoming_event_advances [OF inv B] by simp
  next
    case Tick
    then show ?thesis using e task_ok_advances [OF keepalive_tick_ok [OF ci]] by (auto simp: Let_def case_prod_beta split: if_splits)
  next
    case (TakeFrame order)
    then show ?thesis using e task_event_advances(1) [OF inv W] by simp
  next
    case (Sent b)
    then show ?thesis using e task_event_advances(2) [OF inv W] by simp
  next
    case CleanupNext
    then show ?thesis using e task_event_advances(3) [OF inv W] by simp
  next
    case (DropState sid)
    then show ?thesis using e drop_state_advances by (auto split: if_splits)
  next
    case EndOfInput
    then show ?thesis using e mc(1) [of S] by (auto simp: reader_eof_def split: if_splits)
  next
    case IdleTimeout
    then show ?thesis using e mc(2) [of S S] by (auto simp: reader_idle_def split: if_splits)
  next
    case Abort
    then show ?thesis using e by (auto simp: connection_abort_def advances_def shut_def)
  next
    case CloneConn
    then show ?thesis using e by (auto simp: connection_clone_def advances_def shut_def)
  next
    case DropConn
    then show ?thesis using e by (auto simp: connection_drop_def advances_def shut_def split: if_splits)
  qed (use e supervisor_ok [OF ci, THEN task_ok_advances] in \<open>auto split: if_splits writer_task.splits\<close>)
qed

text \<open>After \<open>mark_closed\<close> the writer is shut down.\<close>

lemma reachable_shut:
  assumes "reachable B W S m l s" "buf B unread" "writer_buffer W written" "cleanup_started (conn s)"
  shows "shut (conn s)"
  using assms
proof (induction rule: reachable.induct)
  case (start is_client certs c keepalive)
  then show ?case by (auto simp: connection_new_def system_new_def Let_def split: sum.splits option.splits)
next
  case (event s e s')
  have "advances (conn s) (conn s')" by (rule exec_advances [OF reachable_inv [OF event(1,4,5)] event(4,5,2)])
  then show ?case using event by (auto simp: advances_def)
qed

end

section \<open>The work that is left\<close>

fun writer_work :: "'o writer_task \<Rightarrow> nat" where
  "writer_work WIdle = 3"
| "writer_work (WSending f b) = 2"
| "writer_work WClosing = 1"
| "writer_work WDone = 0"

definition cleanup_work :: "u64 list option \<Rightarrow> nat" where
  "cleanup_work x = (case x of None \<Rightarrow> 0 | Some ids \<Rightarrow> Suc (length ids))"

definition work :: "('s, 'o) system \<Rightarrow> nat" where
  "work s = of_bool (reading s) + of_bool (ticking s) + writer_work (writing s) + cleanup_work (cleaning s) + of_bool (\<not> joined (conn s))"

text \<open>A turn of a task that has not ended.\<close>

fun task_turn :: "'b event \<Rightarrow> ('s, 'o) system \<Rightarrow> bool" where
  "task_turn EndOfInput s = reading s"
| "task_turn Tick s = ticking s"
| "task_turn (TakeFrame order) s = (writer_work (writing s) = 3)"
| "task_turn (Sent sent) s = (writer_work (writing s) = 2)"
| "task_turn WriterExit s = (writer_work (writing s) = 1)"
| "task_turn CleanupNext s = (1 < cleanup_work (cleaning s))"
| "task_turn CleanupStop s = (cleanup_work (cleaning s) = 1)"
| "task_turn Join s = (\<not> reading s \<and> \<not> ticking s \<and> writer_work (writing s) = 0 \<and> cleanup_work (cleaning s) = 0 \<and> \<not> joined (conn s))"
| "task_turn e s = False"

lemma writer_work_simps [simp]:
  "writer_work t = 3 \<longleftrightarrow> t = WIdle" "writer_work t = 2 \<longleftrightarrow> (\<exists>f b. t = WSending f b)" "writer_work t = Suc 0 \<longleftrightarrow> t = WClosing" "writer_work t = 0 \<longleftrightarrow> t = WDone"
  by (cases t; simp)+

lemma cleanup_work_simps [simp]:
  "cleanup_work x = 0 \<longleftrightarrow> x = None" "cleanup_work x = Suc 0 \<longleftrightarrow> x = Some []" "cleanup_work None = 0" "cleanup_work (Some ids) = Suc (length ids)"
  by (auto simp: cleanup_work_def split: option.splits)

lemma task_turn_exists:
  assumes "\<not> joined (conn s)"
  shows "\<exists>e :: 'b event. task_turn e s"
proof -
  have w: "writer_work (writing s) \<noteq> 0 \<Longrightarrow> \<exists>e. task_turn (e :: 'b event) s" by (cases "writing s") (auto intro: exI [of _ "TakeFrame f" for f] exI [of _ "Sent b" for b] exI [of _ WriterExit])
  have c: "cleanup_work (cleaning s) \<noteq> 0 \<Longrightarrow> \<exists>e. task_turn (e :: 'b event) s"
    by (cases "cleanup_work (cleaning s) = 1") (auto intro: exI [of _ CleanupStop] exI [of _ CleanupNext])
  have "task_turn (EndOfInput :: 'b event) s \<or> task_turn (Tick :: 'b event) s \<or> task_turn (Join :: 'b event) s
      \<or> writer_work (writing s) \<noteq> 0 \<or> cleanup_work (cleaning s) \<noteq> 0" using assms by auto
  then show "\<exists>e :: 'b event. task_turn e s" using w c by blast
qed

lemma shut_next_frame: "shut c \<Longrightarrow> \<exists>x c'. next_frame order S c = (Return x, c')"
  by (simp add: shut_def next_frame.simps next_pass_def close_pass_def case_prod_beta Let_def)

lemma shut_take:
  assumes "shut (conn s)" "take_event W S order s = Done s'"
  shows "writing s = WIdle \<Longrightarrow> writer_work (writing s') < 3" "writing s \<noteq> WIdle \<Longrightarrow> s' = s"
    "reading s' = reading s \<and> ticking s' = ticking s \<and> cleaning s' = cleaning s"
proof -
  obtain x c where "next_frame order S (conn s) = (Return x, c)" using shut_next_frame [OF assms(1)] by blast
  then have t: "writer_work t < 3 \<and> reading s' = reading s \<and> ticking s' = ticking s \<and> cleaning s' = cleaning s"
    if "writing s = WIdle" "t = writing s'" for t
    using assms(2) that by (auto simp: take_event_def writer_take_def split: option.splits prod.splits sum.splits)
  show "writing s = WIdle \<Longrightarrow> writer_work (writing s') < 3" using t by simp
  show n: "writing s \<noteq> WIdle \<Longrightarrow> s' = s" using assms(2) by (auto simp: take_event_def split: writer_task.splits)
  show "reading s' = reading s \<and> ticking s' = ticking s \<and> cleaning s' = cleaning s" using t n by (cases "writing s = WIdle") auto
qed

text \<open>No event adds work, and a turn of a task does some.\<close>

lemma sent_work:
  assumes "shut (conn s)" "sent_event W S b s = Done s'"
  shows "writer_work (writing s') \<le> writer_work (writing s)" "writer_work (writing s) = 2 \<Longrightarrow> writer_work (writing s') < 2"
    "reading s' = reading s \<and> ticking s' = ticking s \<and> cleaning s' = cleaning s"
  using assms by (cases "writing s"; auto simp: sent_event_def writer_sent_def shut_def Let_def)+

lemma cleanup_event_work:
  assumes "cleanup_event S s = Done s'"
  shows "cleanup_work (cleaning s') \<le> cleanup_work (cleaning s)" "1 < cleanup_work (cleaning s) \<Longrightarrow> cleanup_work (cleaning s') < cleanup_work (cleaning s)"
    "reading s' = reading s \<and> ticking s' = ticking s \<and> writing s' = writing s"
  using assms by (auto simp: cleanup_event_def settle_def split: option.splits list.splits prod.splits sum.splits fault.splits)

lemma keepalive_work: "shut c \<Longrightarrow> \<not> fst (keepalive_tick S c)"
  by (simp add: keepalive_tick_def shut_def)

lemma exec_work:
  assumes s: "shut (conn s)" and e: "exec B W S ev s = Done s'"
  shows "reading s' \<Longrightarrow> reading s" "ticking s' \<Longrightarrow> ticking s" "writer_work (writing s') \<le> writer_work (writing s)"
    "cleanup_work (cleaning s') \<le> cleanup_work (cleaning s)"
proof -
  have t: "terminated (conn s)" using s by (simp add: shut_def)
  have "(reading s' \<longrightarrow> reading s) \<and> (ticking s' \<longrightarrow> ticking s) \<and> writer_work (writing s') \<le> writer_work (writing s)
      \<and> cleanup_work (cleaning s') \<le> cleanup_work (cleaning s)"
  proof (cases ev)
    case (TakeFrame order)
    then show ?thesis using e shut_take [OF s] by (cases "writing s = WIdle") fastforce+
  next
    case (Sent b)
    then show ?thesis using e sent_work [OF s] by simp
  next
    case CleanupNext
    then show ?thesis using e cleanup_event_work by fastforce
  next
    case (Incoming bytes)
    then show ?thesis using e by (auto simp: incoming_event_def split: if_splits prod.splits run.splits)
  next
    case Tick
    then show ?thesis using e keepalive_work [OF s] by (auto simp: Let_def case_prod_beta split: if_splits)
  qed (use e t in \<open>auto simp: open_event_def accept_event_def call_event_def send_event_def recv_event_def new_handles_def settle_def settle_io_def Let_def
      split: if_splits prod.splits sum.splits poll.splits fault.splits io_fault.splits writer_task.splits\<close>)
  then show "reading s' \<Longrightarrow> reading s" "ticking s' \<Longrightarrow> ticking s" "writer_work (writing s') \<le> writer_work (writing s)"
    "cleanup_work (cleaning s') \<le> cleanup_work (cleaning s)" by blast+
qed

text \<open>A turn of a task does some of the work that is left.\<close>

lemma turn_work:
  assumes s: "shut (conn s)" and j: "joined (conn s) \<longrightarrow> joined (conn s')" and e: "exec B W S ev s = Done s'"
  shows "work s' \<le> work s" "task_turn ev s \<Longrightarrow> work s' < work s"
proof -
  note w = exec_work [OF s e]
  have b: "of_bool (reading s') \<le> (of_bool (reading s) :: nat)" "of_bool (ticking s') \<le> (of_bool (ticking s) :: nat)"
    "of_bool (\<not> joined (conn s')) \<le> (of_bool (\<not> joined (conn s)) :: nat)" using w(1,2) j by (auto simp: of_bool_def)
  show "work s' \<le> work s" unfolding work_def using b w(3,4) by linarith
  have strict: "work s' < work s" if "reading s \<and> \<not> reading s' \<or> ticking s \<and> \<not> ticking s' \<or> writer_work (writing s') < writer_work (writing s)
      \<or> cleanup_work (cleaning s') < cleanup_work (cleaning s) \<or> joined (conn s') \<and> \<not> joined (conn s)"
    using that b w(3,4) unfolding work_def by (elim disjE) (simp_all add: of_bool_def split: if_splits)
  show "work s' < work s" if t: "task_turn ev s"
  proof (rule strict, cases ev)
    case Tick
    then show "reading s \<and> \<not> reading s' \<or> ticking s \<and> \<not> ticking s' \<or> writer_work (writing s') < writer_work (writing s)
      \<or> cleanup_work (cleaning s') < cleanup_work (cleaning s) \<or> joined (conn s') \<and> \<not> joined (conn s)"
      using e t keepalive_work [OF s] by (auto simp: Let_def case_prod_beta)
  next
    case (TakeFrame order)
    then show "reading s \<and> \<not> reading s' \<or> ticking s \<and> \<not> ticking s' \<or> writer_work (writing s') < writer_work (writing s)
      \<or> cleanup_work (cleaning s') < cleanup_work (cleaning s) \<or> joined (conn s') \<and> \<not> joined (conn s)"
      using e t shut_take(1) [OF s] by auto
  next
    case (Sent b)
    then show "reading s \<and> \<not> reading s' \<or> ticking s \<and> \<not> ticking s' \<or> writer_work (writing s') < writer_work (writing s)
      \<or> cleanup_work (cleaning s') < cleanup_work (cleaning s) \<or> joined (conn s') \<and> \<not> joined (conn s)"
      using e t sent_work(2) [OF s] by auto
  next
    case CleanupNext
    then show "reading s \<and> \<not> reading s' \<or> ticking s \<and> \<not> ticking s' \<or> writer_work (writing s') < writer_work (writing s)
      \<or> cleanup_work (cleaning s') < cleanup_work (cleaning s) \<or> joined (conn s') \<and> \<not> joined (conn s)"
      using e t cleanup_event_work(2) by auto
  qed (use e t s in \<open>auto simp: shut_def supervisor_finish_def\<close>)
qed

lemma mark_closed_shut:
  assumes "cleanup_started c \<longrightarrow> shut c"
  shows "shut (mark_closed S c)"
proof (cases "cleanup_started c")
  case False
  let ?d = "c\<lparr>closed := True, terminated := True, open_streams := sem_close S (open_streams c), inbound_conn_bytes := sem_close S (inbound_conn_bytes c),
      outbound_conn_bytes := sem_close S (outbound_conn_bytes c), outbound_frames := sem_close S (outbound_frames c)\<rparr>"
  have "shut (writer_shutdown S ?d)" by (rule shut_writer_shutdown) simp_all
  then show ?thesis by (simp add: mark_closed_last [OF False] Let_def shut_def)
qed (use assms in \<open>simp add: mark_closed_def shut_def\<close>)

lemma mark_closed_terminated: "terminated (mark_closed S c)"
  using mark_closed_shut [of c S] by (cases "cleanup_started c") (simp_all add: mark_closed_def shut_def)

lemma mark_closed_started: "cleanup_started (mark_closed S c)"
  by (cases "cleanup_started c") (simp add: mark_closed_def, simp add: mark_closed_last Let_def)

lemma exec_turns:
  "exec B W S EndOfInput s = Done s' \<Longrightarrow> \<not> reading s'"
  "shut (conn s) \<Longrightarrow> exec B W S Tick s = Done s' \<Longrightarrow> \<not> ticking s'"
  "shut (conn s) \<Longrightarrow> exec B W S (TakeFrame order) s = Done s' \<Longrightarrow> writing s = WIdle \<Longrightarrow> writer_work (writing s') < 3"
  "shut (conn s) \<Longrightarrow> exec B W S (Sent b) s = Done s' \<Longrightarrow> writing s = WSending f x \<Longrightarrow> writer_work (writing s') < 2"
  "exec B W S WriterExit s = Done s' \<Longrightarrow> writing s = WClosing \<Longrightarrow> writing s' = WDone"
  "exec B W S CleanupNext s = Done s' \<Longrightarrow> 1 < cleanup_work (cleaning s) \<Longrightarrow> cleanup_work (cleaning s') < cleanup_work (cleaning s)"
  "shut (conn s) \<Longrightarrow> exec B W S CleanupStop s = Done s' \<Longrightarrow> cleaning s = Some [] \<Longrightarrow> cleaning s' = None"
  "exec B W S Deadline s = Done s' \<Longrightarrow> closed (conn s) \<Longrightarrow> cleanup_started (conn s')"
  "exec B W S Join s = Done s' \<Longrightarrow> \<not> reading s \<Longrightarrow> \<not> ticking s \<Longrightarrow> writing s = WDone \<Longrightarrow> cleaning s = None \<Longrightarrow> joined (conn s')"
  using keepalive_work [of "conn s" S] shut_take(1) [of s W S order s'] sent_work(2) [of s W S b s'] cleanup_event_work(2) [of S s s']
  by (auto simp: shut_def Let_def case_prod_beta supervisor_deadline_def supervisor_finish_def mark_closed_started split: if_splits)

section \<open>Fair schedules\<close>

text \<open>An endless run, and what a fair schedule of a closing connection owes: the end of the time to drain, unless the
  connection is terminated before; and, from the termination on, turns for every task.\<close>

definition run_of :: "'b buf_ops \<Rightarrow> 'o writer_buf \<Rightarrow> 's sem_ops \<Rightarrow> (nat \<Rightarrow> 'b event) \<Rightarrow> (nat \<Rightarrow> ('s, 'o) system) \<Rightarrow> bool" where
  "run_of B W S es ss \<longleftrightarrow> (\<forall>n. exec B W S (es n) (ss n) = Done (ss (Suc n)))"

definition again :: "(nat \<Rightarrow> 'a) \<Rightarrow> nat \<Rightarrow> ('a \<Rightarrow> bool) \<Rightarrow> bool" where
  "again es n P \<longleftrightarrow> (\<exists>k \<ge> n. P (es k))"

definition fair :: "(nat \<Rightarrow> 'b event) \<Rightarrow> (nat \<Rightarrow> ('s, 'o) system) \<Rightarrow> bool" where
  "fair es ss \<longleftrightarrow> (\<forall>n. (closed (conn (ss n)) \<longrightarrow> (\<exists>k \<ge> n. es k = Deadline \<or> terminated (conn (ss k))))
     \<and> (terminated (conn (ss n)) \<longrightarrow> again es n (\<lambda>e. e = EndOfInput) \<and> again es n (\<lambda>e. e = Tick)
        \<and> again es n (\<lambda>e. \<exists>order. e = TakeFrame order) \<and> again es n (\<lambda>e. \<exists>sent. e = Sent sent) \<and> again es n (\<lambda>e. e = WriterExit)
        \<and> again es n (\<lambda>e. e = CleanupNext) \<and> again es n (\<lambda>e. e = CleanupStop) \<and> again es n (\<lambda>e. e = Join)))"

lemma eventually_zero:
  fixes f :: "nat \<Rightarrow> nat"
  assumes "\<And>k. n \<le> k \<Longrightarrow> f (Suc k) \<le> f k" "\<And>k. n \<le> k \<Longrightarrow> f k \<noteq> 0 \<Longrightarrow> \<exists>j \<ge> k. f j = f k \<longrightarrow> f (Suc j) < f j"
  shows "\<exists>k \<ge> n. \<forall>j \<ge> k. f j = 0"
  using assms
proof (induction "f n" arbitrary: n rule: less_induct)
  case less
  have mono: "f j \<le> f n" if "n \<le> j" for j using that
  proof (induction rule: dec_induct)
    case (step k)
    then show ?case using less(2) [of k] by simp
  qed simp
  show ?case
  proof (cases "f n = 0")
    case True
    then have "\<forall>j \<ge> n. f j = 0" using mono by (metis le_zero_eq)
    then show ?thesis by blast
  next
    case False
    then obtain j where j: "n \<le> j" "f j = f n \<longrightarrow> f (Suc j) < f j" using less(3) [of n] by blast
    then have "f (Suc j) < f n" using mono [of j] less(2) [of j] by (cases "f j = f n") auto
    moreover have "f (Suc k) \<le> f k" "f k \<noteq> 0 \<Longrightarrow> \<exists>j \<ge> k. f j = f k \<longrightarrow> f (Suc j) < f j" if "Suc j \<le> k" for k
      using less(2,3) [of k] that j(1) by simp_all
    ultimately have "\<exists>k \<ge> Suc j. \<forall>i \<ge> k. f i = 0" using less(1) [of "Suc j"] by blast
    then show ?thesis using j(1) Suc_leD le_trans by blast
  qed
qed

context semaphore
begin

lemma reader_ended:
  assumes "reachable B W S m l s" "buf B unread" "writer_buffer W written" "\<not> reading s"
  shows "cleanup_started (conn s)"
  using assms
proof (induction rule: reachable.induct)
  case (event s e s')
  have adv: "advances (conn s) (conn s')" by (rule exec_advances [OF reachable_inv [OF event(1,4,5)] event(4,5,2)])
  note mc = mark_closed_started [of S]
  show ?case
  proof (cases "reading s")
    case True
    have "reading s' \<or> cleanup_started (conn s')"
      using event(2) True mc
      by (cases e) (auto simp: open_event_def accept_event_def call_event_def send_event_def recv_event_def new_handles_def settle_def settle_io_def Let_def
          take_event_def sent_event_def cleanup_event_def incoming_event_def reader_frame_def reader_eof_def reader_idle_def
          split: if_splits prod.splits sum.splits poll.splits fault.splits io_fault.splits writer_task.splits option.splits list.splits run.splits bool.splits)
    then show ?thesis using event(6) by blast
  next
    case False
    then show ?thesis using event(3-5) adv by (simp add: advances_def)
  qed
qed (simp add: system_new_def)

text \<open>From the termination on.\<close>

lemma run_reachable:
  assumes "reachable B W S m l (ss 0)" "run_of B W S es ss"
  shows "reachable B W S m l (ss n)"
  using assms by (induction n) (auto simp: run_of_def intro: reachable.event)

lemma run_cleanup:
  assumes r: "reachable B W S m l (ss 0)" "run_of B W S es ss" and B: "buf B unread" and W: "writer_buffer W written"
    and n: "cleanup_started (conn (ss n))" "n \<le> k"
  shows "shut (conn (ss k))"
proof -
  have "cleanup_started (conn (ss k))" using n(2)
  proof (induction rule: dec_induct)
    case (step i)
    have "exec B W S (es i) (ss i) = Done (ss (Suc i))" using r(2) by (simp add: run_of_def)
    then have "advances (conn (ss i)) (conn (ss (Suc i)))"
      using exec_advances [OF reachable_inv [OF run_reachable [OF r] B W] B W] by blast
    then show ?case using step(3) by (simp add: advances_def)
  qed (rule n(1))
  then show ?thesis by (rule reachable_shut [OF run_reachable [OF r] B W])
qed

lemma closing_cleanup:
  assumes r: "reachable B W S m l (ss 0)" "run_of B W S es ss" and B: "buf B unread" and W: "writer_buffer W written"
    and f: "fair es ss" and c: "closed (conn (ss n))"
  shows "\<exists>k \<ge> n. cleanup_started (conn (ss k))"
proof -
  have x: "exec B W S (es k) (ss k) = Done (ss (Suc k))" for k using r(2) by (simp add: run_of_def)
  have cl: "closed (conn (ss k))" if "n \<le> k" for k using that
  proof (induction rule: dec_induct)
    case (step i)
    then show ?case using exec_advances [OF reachable_inv [OF run_reachable [OF r] B W] B W x, of i] by (simp add: advances_def)
  qed (rule c)
  obtain k where k: "n \<le> k" "es k = Deadline \<or> terminated (conn (ss k))" using f c unfolding fair_def by blast
  show ?thesis
  proof (cases "es k = Deadline")
    case True
    then have "cleanup_started (conn (ss (Suc k)))" using x [of k] cl [OF k(1)] exec_turns(8) by metis
    then show ?thesis using k(1) le_SucI by blast
  next
    case False
    then obtain j where j: "k \<le> j" "es j = EndOfInput" using k(2) f unfolding fair_def again_def by blast
    have "\<not> reading (ss (Suc j))" using x [of j] j(2) exec_turns(1) by metis
    then have "cleanup_started (conn (ss (Suc j)))" by (rule reader_ended [OF run_reachable [OF r] B W])
    then show ?thesis using k(1) j(1) by (meson le_SucI le_trans)
  qed
qed

text \<open>Each task ends.\<close>

lemma tasks_end:
  assumes x: "run_of B W S es ss" and f: "fair es ss" and s: "\<And>k. n \<le> k \<Longrightarrow> shut (conn (ss k))"
  shows "\<exists>k \<ge> n. \<forall>j \<ge> k. \<not> reading (ss j)" "\<exists>k \<ge> n. \<forall>j \<ge> k. \<not> ticking (ss j)"
    "\<exists>k \<ge> n. \<forall>j \<ge> k. writing (ss j) = WDone" "\<exists>k \<ge> n. \<forall>j \<ge> k. cleaning (ss j) = None"
proof -
  have x: "exec B W S (es k) (ss k) = Done (ss (Suc k))" for k using x by (simp add: run_of_def)
  have fk: "again es k (\<lambda>e. e = EndOfInput) \<and> again es k (\<lambda>e. e = Tick) \<and> again es k (\<lambda>e. \<exists>order. e = TakeFrame order)
      \<and> again es k (\<lambda>e. \<exists>sent. e = Sent sent) \<and> again es k (\<lambda>e. e = WriterExit) \<and> again es k (\<lambda>e. e = CleanupNext) \<and> again es k (\<lambda>e. e = CleanupStop)"
    if "n \<le> k" for k using f s [OF that] unfolding fair_def shut_def by blast
  note w = exec_work [OF s x]
  have "\<exists>k \<ge> n. \<forall>j \<ge> k. of_bool (reading (ss j)) = (0 :: nat)"
  proof (rule eventually_zero)
    fix k assume k: "n \<le> k"
    show "of_bool (reading (ss (Suc k))) \<le> (of_bool (reading (ss k)) :: nat)" using w(1) [OF k] by (auto simp: of_bool_def)
    obtain j where j: "k \<le> j" "es j = EndOfInput" using fk [OF k] unfolding again_def by blast
    have "\<not> reading (ss (Suc j))" using x [of j] j(2) exec_turns(1) by metis
    then show "\<exists>j \<ge> k. of_bool (reading (ss j)) = (of_bool (reading (ss k)) :: nat) \<longrightarrow> of_bool (reading (ss (Suc j))) < (of_bool (reading (ss j)) :: nat)"
      if "of_bool (reading (ss k)) \<noteq> (0 :: nat)" using that j(1) by (intro exI [of _ j]) auto
  qed
  then show "\<exists>k \<ge> n. \<forall>j \<ge> k. \<not> reading (ss j)" by auto
  have "\<exists>k \<ge> n. \<forall>j \<ge> k. of_bool (ticking (ss j)) = (0 :: nat)"
  proof (rule eventually_zero)
    fix k assume k: "n \<le> k"
    show "of_bool (ticking (ss (Suc k))) \<le> (of_bool (ticking (ss k)) :: nat)" using w(2) [OF k] by (auto simp: of_bool_def)
    obtain j where j: "k \<le> j" "es j = Tick" using fk [OF k] unfolding again_def by blast
    have "\<not> ticking (ss (Suc j))" using x [of j] j s [of j] k exec_turns(2) by (metis le_trans)
    then show "\<exists>j \<ge> k. of_bool (ticking (ss j)) = (of_bool (ticking (ss k)) :: nat) \<longrightarrow> of_bool (ticking (ss (Suc j))) < (of_bool (ticking (ss j)) :: nat)"
      if "of_bool (ticking (ss k)) \<noteq> (0 :: nat)"
      using that j(1) by (intro exI [of _ j]) auto
  qed
  then show "\<exists>k \<ge> n. \<forall>j \<ge> k. \<not> ticking (ss j)" by auto
  have "\<exists>k \<ge> n. \<forall>j \<ge> k. writer_work (writing (ss j)) = 0"
  proof (rule eventually_zero)
    fix k assume k: "n \<le> k"
    show "writer_work (writing (ss (Suc k))) \<le> writer_work (writing (ss k))" using w(3) [OF k] .
    assume "writer_work (writing (ss k)) \<noteq> 0"
    then consider "writing (ss k) = WIdle" | "\<exists>f b. writing (ss k) = WSending f b" | "writing (ss k) = WClosing" by (cases "writing (ss k)") auto
    then show "\<exists>j \<ge> k. writer_work (writing (ss j)) = writer_work (writing (ss k)) \<longrightarrow> writer_work (writing (ss (Suc j))) < writer_work (writing (ss j))"
    proof cases
      case 1
      obtain j order where j: "k \<le> j" "es j = TakeFrame order" using fk [OF k] unfolding again_def by blast
      have "writing (ss j) = WIdle \<Longrightarrow> writer_work (writing (ss (Suc j))) < 3" using x [of j] j s [of j] k exec_turns(3) by (metis le_trans)
      then show ?thesis using 1 j(1) by (intro exI [of _ j]) auto
    next
      case 2
      obtain j b where j: "k \<le> j" "es j = Sent b" using fk [OF k] unfolding again_def by blast
      have "writing (ss j) = WSending f y \<Longrightarrow> writer_work (writing (ss (Suc j))) < 2" for f y using x [of j] j s [of j] k exec_turns(4) by (metis le_trans)
      then show ?thesis using 2 j(1) by (intro exI [of _ j]) auto
    next
      case 3
      obtain j where j: "k \<le> j" "es j = WriterExit" using fk [OF k] unfolding again_def by blast
      then have "writing (ss j) = WClosing \<Longrightarrow> writing (ss (Suc j)) = WDone" using x [of j] exec_turns(5) by metis
      then show ?thesis using 3 j(1) by (intro exI [of _ j]) auto
    qed
  qed
  then show "\<exists>k \<ge> n. \<forall>j \<ge> k. writing (ss j) = WDone" by simp
  have "\<exists>k \<ge> n. \<forall>j \<ge> k. cleanup_work (cleaning (ss j)) = 0"
  proof (rule eventually_zero)
    fix k assume k: "n \<le> k"
    show "cleanup_work (cleaning (ss (Suc k))) \<le> cleanup_work (cleaning (ss k))" using w(4) [OF k] .
    assume z: "cleanup_work (cleaning (ss k)) \<noteq> 0"
    show "\<exists>j \<ge> k. cleanup_work (cleaning (ss j)) = cleanup_work (cleaning (ss k)) \<longrightarrow> cleanup_work (cleaning (ss (Suc j))) < cleanup_work (cleaning (ss j))"
    proof (cases "cleanup_work (cleaning (ss k)) = 1")
      case True
      obtain j where j: "k \<le> j" "es j = CleanupStop" using fk [OF k] unfolding again_def by blast
      have "cleaning (ss j) = Some [] \<Longrightarrow> cleaning (ss (Suc j)) = None" using x [of j] j s [of j] k exec_turns(7) by (metis le_trans)
      then show ?thesis using True j(1) by (intro exI [of _ j]) auto
    next
      case False
      obtain j where j: "k \<le> j" "es j = CleanupNext" using fk [OF k] unfolding again_def by blast
      then have "1 < cleanup_work (cleaning (ss j)) \<Longrightarrow> cleanup_work (cleaning (ss (Suc j))) < cleanup_work (cleaning (ss j))" using x [of j] exec_turns(6) by metis
      then show ?thesis using False z j(1) by (intro exI [of _ j]) auto
    qed
  qed
  then show "\<exists>k \<ge> n. \<forall>j \<ge> k. cleaning (ss j) = None" by simp
qed

lemma run_joins:
  assumes r: "reachable B W S m l (ss 0)" "run_of B W S es ss" and B: "buf B unread" and W: "writer_buffer W written"
    and f: "fair es ss" and c: "cleanup_started (conn (ss n))"
  shows "\<exists>k \<ge> n. joined (conn (ss k))"
proof -
  have s: "shut (conn (ss k))" if "n \<le> k" for k by (rule run_cleanup [OF r B W c that])
  note t = tasks_end [OF r(2) f s]
  obtain i j w u where e: "n \<le> i" "\<forall>k \<ge> i. \<not> reading (ss k)" "\<forall>k \<ge> j. \<not> ticking (ss k)" "\<forall>k \<ge> w. writing (ss k) = WDone"
      "\<forall>k \<ge> u. cleaning (ss k) = None"
    using t by blast
  define q where "q = i + j + w + u"
  have "terminated (conn (ss q))" using s [of q] e(1) by (simp add: q_def shut_def)
  then obtain k where k: "q \<le> k" "es k = Join" using f unfolding fair_def again_def by blast
  have x: "exec B W S (es k) (ss k) = Done (ss (Suc k))" using r(2) by (simp add: run_of_def)
  have "\<not> reading (ss k)" "\<not> ticking (ss k)" "writing (ss k) = WDone" "cleaning (ss k) = None" using e(2-5) k(1) by (simp_all add: q_def)
  then have "joined (conn (ss (Suc k)))" using x k(2) exec_turns(9) by metis
  moreover have "n \<le> Suc k" using e(1) k(1) by (simp add: q_def)
  ultimately show ?thesis by blast
qed

end

section \<open>Properties\<close>




text \<open>A client that is aborted at once, and turns of its tasks.\<close>

definition demo_cycle :: "bytes event list" where
  "demo_cycle = [EndOfInput, Tick, TakeFrame sorted_list_of_set, Sent True, WriterExit, CleanupNext, CleanupStop, Join, Deadline]"

definition demo_turns :: "nat \<Rightarrow> bytes event" where
  "demo_turns n = (if n = 0 then Abort else demo_cycle ! (n mod 9))"

primrec demo_ending :: "nat \<Rightarrow> (nat \<times> bool, bytes) system" where
  "demo_ending 0 = system_new demo_client False"
| "demo_ending (Suc n) = (case exec bytes_ops bytes_writer counting_ops (demo_turns n) (demo_ending n) of Done s \<Rightarrow> s | Panic \<Rightarrow> demo_ending n)"

lemma demo_ending_run:
  "reachable bytes_ops bytes_writer counting_ops (2 ^ 61 - 1) default_limits (demo_ending n)
   \<and> exec bytes_ops bytes_writer counting_ops (demo_turns n) (demo_ending n) = Done (demo_ending (Suc n))"
proof (induction n)
  case 0
  have r: "reachable bytes_ops bytes_writer counting_ops (2 ^ 61 - 1) default_limits (demo_ending 0)"
    unfolding demo_ending.simps by (rule reachable.start [OF demo_client_new])
  then show ?case using reachable_runs [OF demo_instances r, of "[demo_turns 0]"] by (auto split: run.splits)
next
  case (Suc n)
  then have r: "reachable bytes_ops bytes_writer counting_ops (2 ^ 61 - 1) default_limits (demo_ending (Suc n))"
    by (blast intro: reachable.event)
  then show ?case using reachable_runs [OF demo_instances r, of "[demo_turns (Suc n)]"] by (auto split: run.splits)
qed

lemma demo_turns_fair: "fair demo_turns ss"
proof -
  have "\<exists>k \<ge> n. demo_turns k = demo_cycle ! i" if "i < 9" for n i
  proof (intro exI conjI)
    have "(9 * Suc n + i) mod 9 = i" using that by (metis mod_less mod_mult_self4)
    then show "demo_turns (9 * Suc n + i) = demo_cycle ! i" by (simp add: demo_turns_def)
  qed simp
  from this [of 0] this [of 1] this [of 2] this [of 3] this [of 4] this [of 5] this [of 6] this [of 7] this [of 8]
  show ?thesis unfolding fair_def again_def by (simp add: demo_cycle_def) blast
qed


end
