(* ===== verification/Deviations.thy ===== *)
theory Deviations
  imports End_To_End Shutdown
begin

text \<open>
  Behaviour of the code that departs from the specification of the protocol (\<^verbatim>\<open>muxtls-proto/PROTOCOL.md\<close>,
  \<^verbatim>\<open>FLOW_CONTROL.md\<close>) or from a comment in the code, each shown by a run of the model or a general statement.
\<close>

section \<open>Data can overtake the announcement of its stream\<close>

text \<open>\<open>next_frame\<close> sends control frames first only if the frame at the \<^emph>\<open>front\<close> of the control queue is SETTINGS or OPEN. An
  OPEN that waits behind a PING does not count, and in the turn of the data the writer takes the data of the new stream. A client
  sends SETTINGS and the OPEN of stream 0; its keepalive queues a PING; the application opens stream 2 and writes to it.\<close>

definition overtaking :: "bytes event list" where
  "overtaking = [OpenBi, PollOpen 0, Incoming (demo_wire ! 0), TakeFrame (\<lambda>_. [0]), Sent True, TakeFrame (\<lambda>_. [0]), Sent True,
     Tick, OpenBi, PollOpen 0, WriteChunk 1 [1, 2, 3], PollCall 0, TakeFrame (\<lambda>_. [0, 2]), Sent True]"

lemma overtaking_encoding: "frame_bytes (Stream (VarInt 2) False [1, 2, 3]) = [0, 2, 0, 3, 1, 2, 3]"
  by code_simp

lemma overtaking_run:
  "\<exists>s h. record_events bytes_ops bytes_writer counting_ops overtaking (system_new demo_client True) history_new = Done (s, h)
     \<and> wire s = [(demo_settings, demo_wire ! 0), (OpenStream (VarInt 0), [4, 0]), (Stream (VarInt 2) False [1, 2, 3], [0, 2, 0, 3, 1, 2, 3])]
     \<and> control (writer (conn s)) = [Ping, OpenStream (VarInt 2)]"
  unfolding overtaking_def system_new_def demo_client_eq
  by (simp add: run_state run_open run_send run_writer run_receive keepalive_tick_def enqueue_control_def overtaking_encoding
      del: frame_bytes.simps frame_encode.simps)

lemma overtaken_peer:
  "\<exists>s h. record_events bytes_ops bytes_writer counting_ops (map Incoming [demo_wire ! 0, [4, 0], [0, 2, 0, 3, 1, 2, 3]]) (system_new demo_server False) history_new
       = Done (s, h) \<and> \<not> reading s \<and> terminated (conn s)"
proof -
  have d: "frame_decode bytes_ops [0, 2, 0, 3, 1, 2, 3] = (Inr (Stream (VarInt 2) False [1, 2, 3]), [])"
    by (rule decode_bytes [OF overtaking_encoding]) (simp add: wf_varint_def varint_MAX_def)
  show ?thesis
    unfolding system_new_def demo_server_def demo_client_eq
    by (simp add: run_state run_open run_receive d mark_closed_terminated del: frame_bytes.simps frame_encode.simps)
qed

text \<open>C33 (error): data can be sent before the OPEN of its stream. There is a run of a client with a keepalive, and no
  misbehaviour of the application or the peer, that sends data of stream 2 while the OPEN of stream 2 is still queued behind a
  PING; a server that receives what was sent takes it for a violation of the protocol and terminates the connection.\<close>

theorem data_overtakes_open:
  "\<exists>s h s' h'. record_events bytes_ops bytes_writer counting_ops overtaking (system_new demo_client True) history_new = Done (s, h)
     \<and> map fst (wire s) = [demo_settings, OpenStream (VarInt 0), Stream (VarInt 2) False [1, 2, 3]]
     \<and> control (writer (conn s)) = [Ping, OpenStream (VarInt 2)]
     \<and> record_events bytes_ops bytes_writer counting_ops (map (Incoming \<circ> snd) (wire s)) (system_new demo_server False) history_new = Done (s', h')
     \<and> \<not> reading s' \<and> terminated (conn s')"
proof -
  obtain s h where r: "record_events bytes_ops bytes_writer counting_ops overtaking (system_new demo_client True) history_new = Done (s, h)"
    and w: "wire s = [(demo_settings, demo_wire ! 0), (OpenStream (VarInt 0), [4, 0]), (Stream (VarInt 2) False [1, 2, 3], [0, 2, 0, 3, 1, 2, 3])]"
    and c: "control (writer (conn s)) = [Ping, OpenStream (VarInt 2)]"
    using overtaking_run by blast
  have f: "map fst (wire s) = [demo_settings, OpenStream (VarInt 0), Stream (VarInt 2) False [1, 2, 3]]" using w by simp
  have e: "map (Incoming \<circ> snd) (wire s) = map Incoming [demo_wire ! 0, [4, 0], [0, 2, 0, 3, 1, 2, 3]]" using w by simp
  obtain s' h' where "record_events bytes_ops bytes_writer counting_ops (map (Incoming \<circ> snd) (wire s)) (system_new demo_server False) history_new = Done (s', h')"
    "\<not> reading s'" "terminated (conn s')"
    unfolding e using overtaken_peer by (elim exE conjE)
  then show ?thesis using r f c by (intro exI conjI)
qed

section \<open>A graceful close can lose data to a frame of the peer\<close>

text \<open>\<open>close\<close> promises to drain the queued data. But it closes the semaphore for streams at once, so that an OPEN of the
  peer that crosses it on the wire is refused as \<^verbatim>\<open>max open streams reached\<close>; the error ends the reader, which terminates the connection and
  drops the data that was still queued. A client writes three bytes and closes; the server has just opened its first stream.\<close>

definition crossing :: "bytes event list" where
  "crossing = [OpenBi, PollOpen 0, Incoming (demo_wire ! 0), WriteChunk 0 [1, 2, 3], PollCall 0, Close []]"

lemma initiate_close_again: "closed c \<Longrightarrow> snd (initiate_close S code reason c) = c"
  by (simp add: initiate_close_def split: sum.split)

lemma mark_closed_queues:
  assumes "\<not> cleanup_started c"
  shows "by_stream (writer (mark_closed S c)) = []" "close_frame (writer (mark_closed S c)) = None"
    "closing (writer (mark_closed S c))" "\<not> graceful_close (writer (mark_closed S c))"
  by (simp_all add: mark_closed_last [OF assms] Let_def writer_shutdown_def on_queues_def)

lemma graceful_close_drained:
  "\<exists>s h. record_events bytes_ops bytes_writer counting_ops crossing (system_new demo_client False) history_new = Done (s, h)
     \<and> accepted h 0 = [1, 2, 3] \<and> graceful_close (writer (conn s)) \<and> queued_bytes (conn s) 0 = [1, 2, 3] \<and> wire s = []"
  unfolding crossing_def system_new_def demo_client_eq
  by (simp add: run_state run_open run_send run_writer run_receive connection_close_def initiate_close_def fit_close_reason_def validate_close_reason_def
      error_code_from_u64_def error_code_encoded_len_def queued_bytes_def del: frame_bytes.simps frame_encode.simps)

text \<open>C34 (error): a graceful close can lose data. There is a run of a client that writes three bytes and closes the
  connection gracefully, in which the bytes are reported as written; one OPEN of the peer that was on its way, allowed by the
  protocol, then terminates the connection, and the bytes are neither sent nor queued any more.\<close>

theorem close_loses_data:
  "\<exists>s h. record_events bytes_ops bytes_writer counting_ops (crossing @ [Incoming [4, 1]]) (system_new demo_client False) history_new = Done (s, h)
     \<and> accepted h 0 = [1, 2, 3] \<and> by_stream (writer (conn s)) = [] \<and> wire s = [] \<and> terminated (conn s)"
proof -
  have "frame_bytes (OpenStream (VarInt 1)) = [4, 1]" by code_simp
  then have d: "frame_decode bytes_ops [4, 1] = (Inr (OpenStream (VarInt 1)), [])"
    by (rule decode_bytes) (simp add: wf_varint_def varint_MAX_def)
  show ?thesis
    unfolding crossing_def system_new_def demo_client_eq
    by (simp add: run_state run_open run_send run_writer run_receive connection_close_def initiate_close_def fit_close_reason_def validate_close_reason_def
        error_code_from_u64_def error_code_encoded_len_def d initiate_close_again mark_closed_queues mark_closed_terminated del: frame_bytes.simps frame_encode.simps)
qed

section \<open>The close frame of a protocol error is not sent\<close>

text \<open>C35 (error): the close frame of a protocol error is not sent. On an error of \<^verbatim>\<open>handle_incoming_frame\<close> the reader
  queues a CONNECTION_CLOSE with code one and then calls \<^verbatim>\<open>mark_closed\<close>, which takes it back: a writer that runs afterwards is
  told that there is nothing left to send.\<close>

theorem failure_sends_no_close:
  assumes "handle_incoming_frame B S bytes (record_received n c) = (Inl (Fail e), d)" "\<not> cleanup_started d"
  shows "\<exists>c'. reader_frame B S bytes n c = (Done False, c') \<and> fst (next_frame order S c') = Return None"
proof -
  let ?d = "snd (initiate_close S 1 (str_bytes (''protocol/runtime error: '' @ error_display e)) d)"
  have "cleanup_started (drop_out_chunks S chs x) = cleanup_started x" for chs and x :: "'a connection"
    by (induction chs arbitrary: x) (simp_all add: drop_out_chunk_def on_stream_def)
  then have "\<not> cleanup_started ?d" using assms(2) by (auto simp: initiate_close_def Let_def on_queues_def split: sum.split)
  note q = mark_closed_queues [OF this, of S]
  have "fst (next_frame order S (mark_closed S ?d)) = Return None"
    using q by (simp add: next_frame.simps next_pass_def close_pass_def take_close_frame_def)
  then show ?thesis using assms(1) by (simp add: reader_frame_def)
qed

theorem failure_sends_no_close_witness:
  "\<exists>c'. reader_frame bytes_ops counting_ops [4, 1] 2 demo_client = (Done False, c') \<and> fst (next_frame (\<lambda>_. []) counting_ops c') = Return None"
proof -
  have "frame_bytes (OpenStream (VarInt 1)) = [4, 1]" by code_simp
  then have d: "frame_decode bytes_ops [4, 1] = (Inr (OpenStream (VarInt 1)), [])"
    by (rule decode_bytes) (simp add: wf_varint_def varint_MAX_def)
  have "\<exists>e c. handle_incoming_frame bytes_ops counting_ops [4, 1] (record_received 2 demo_client) = (Inl (Fail e), c) \<and> \<not> cleanup_started c"
    unfolding demo_client_eq by (simp add: run_receive run_state d)
  then show ?thesis using failure_sends_no_close by metis
qed

end
