(* ===== verification/Tls_Config.thy ===== *)
theory Tls_Config
  imports Messages
begin

text \<open>
  \<^verbatim>\<open>muxtls/src/config.rs\<close>: the TLS configurations of the two sides. The certificates, keys, root stores and
  configurations are values of \<^verbatim>\<open>rustls\<close> and the crates around it, which are not part of the repository: their types are type
  variables, and the calls the code makes are the fields of two records, which the definitions take as arguments. Errors of
  these crates are represented by their text, the only thing the code uses of them. What the code relies on is
  that the field \<open>alpn_protocols\<close> holds what was assigned to it, and that a root store to which a certificate
  was added holds it.
\<close>

section \<open>The calls into rustls\<close>

text \<open>The nine signature schemes the code names.\<close>

datatype signature_scheme =
    ECDSA_NISTP256_SHA256 | ECDSA_NISTP384_SHA384 | ED25519
  | RSA_PSS_SHA256 | RSA_PSS_SHA384 | RSA_PSS_SHA512
  | RSA_PKCS1_SHA256 | RSA_PKCS1_SHA384 | RSA_PKCS1_SHA512

text \<open>The trait \<open>ServerCertVerifier\<close>; the assertions it returns carry no data.\<close>

record ('cert, 'name, 'sig) server_cert_verifier =
  verify_server_cert :: "'cert \<Rightarrow> 'cert list \<Rightarrow> 'name \<Rightarrow> bytes \<Rightarrow> u64 \<Rightarrow> string + unit"
  verify_tls12_signature :: "bytes \<Rightarrow> 'cert \<Rightarrow> 'sig \<Rightarrow> string + unit"
  verify_tls13_signature :: "bytes \<Rightarrow> 'cert \<Rightarrow> 'sig \<Rightarrow> string + unit"
  supported_verify_schemes :: "signature_scheme list"

text \<open>Root stores (\<open>RootCertStore\<close>) and the platform's certificates (\<open>load_native_certs\<close>: certificates and errors).\<close>

record ('cert, 'roots) root_ops =
  roots_empty :: 'roots
  roots_add :: "'cert \<Rightarrow> 'roots \<Rightarrow> string + 'roots"
  roots_is_empty :: "'roots \<Rightarrow> bool"
  load_native_certs :: "'cert list \<times> string list"

text \<open>The builder of the client: the two ways to verify the server, each without and with a client certificate, the field
  \<open>alpn_protocols\<close>, the platform's verifier and the parser of server names.\<close>

record ('cert, 'key, 'roots, 'name, 'sig, 'config) client_ops =
  client_with_roots :: "'roots \<Rightarrow> 'config"
  client_with_roots_auth :: "'roots \<Rightarrow> 'cert list \<Rightarrow> 'key \<Rightarrow> string + 'config"
  client_with_verifier :: "('cert, 'name, 'sig) server_cert_verifier \<Rightarrow> 'config"
  client_with_verifier_auth :: "('cert, 'name, 'sig) server_cert_verifier \<Rightarrow> 'cert list \<Rightarrow> 'key \<Rightarrow> string + 'config"
  client_alpn :: "'config \<Rightarrow> bytes list"
  set_client_alpn :: "bytes list \<Rightarrow> 'config \<Rightarrow> 'config"
  platform_verifier :: "string + ('cert, 'name, 'sig) server_cert_verifier"
  parse_server_name :: "string \<Rightarrow> 'name option"

text \<open>The builder of the server, the verifier of client certificates, the PEM readers and the generator of
  self-signed certificates (a certificate and the bytes of its key). A file that cannot be opened is an I/O error.\<close>

record ('cert, 'key, 'roots, 'cverifier, 'config, 'path, 'file) server_ops =
  server_single_cert :: "'cert list \<Rightarrow> 'key \<Rightarrow> string + 'config"
  server_verified_single_cert :: "'cverifier \<Rightarrow> 'cert list \<Rightarrow> 'key \<Rightarrow> string + 'config"
  client_verifier :: "'roots \<Rightarrow> string + 'cverifier"
  server_alpn :: "'config \<Rightarrow> bytes list"
  set_server_alpn :: "bytes list \<Rightarrow> 'config \<Rightarrow> 'config"
  file_open :: "'path \<Rightarrow> string + 'file"
  pem_certs :: "'file \<Rightarrow> string + 'cert list"
  pem_key :: "'file \<Rightarrow> string + 'key"
  simple_self_signed :: "string list \<Rightarrow> string + ('cert \<times> bytes)"
  key_of_der :: "bytes \<Rightarrow> string + 'key"

section \<open>Helpers\<close>

definition ALPN_PROTOCOL :: bytes where
  "ALPN_PROTOCOL = str_bytes ''muxtls/1''"

text \<open>\<^verbatim>\<open>?\<close>, which hands an error on.\<close>

definition sum_bind :: "'e + 'a \<Rightarrow> ('a \<Rightarrow> 'e + 'b) \<Rightarrow> 'e + 'b" where
  "sum_bind r k = (case r of Inl e \<Rightarrow> Inl e | Inr v \<Rightarrow> k v)"

lemma map_err_iff [simp]: "map_err f r = Inr v \<longleftrightarrow> r = Inr v" "map_err f r = Inl e' \<longleftrightarrow> (\<exists>e. r = Inl e \<and> e' = f e)"
  by (auto simp: map_err_def split: sum.splits)

lemma sum_bind_simps [simp]: "sum_bind (Inl e) k = Inl e" "sum_bind (Inr v) k = k v"
  by (simp_all add: sum_bind_def)

lemma sum_bind_Inr_iff: "sum_bind r k = Inr w \<longleftrightarrow> (\<exists>v. r = Inr v \<and> k v = Inr w)"
  by (auto simp: sum_bind_def split: sum.splits)

fun add_roots :: "('cert, 'roots) root_ops \<Rightarrow> 'cert list \<Rightarrow> 'roots \<Rightarrow> error + 'roots" where
  "add_roots R [] roots = Inr roots"
| "add_roots R (cert # certs) roots = sum_bind (map_err Config (roots_add R cert roots)) (add_roots R certs)"

definition root_store :: "('cert, 'roots) root_ops \<Rightarrow> 'cert list \<Rightarrow> string \<Rightarrow> error + 'roots" where
  "root_store R certs certificate_kind =
     (if certs = [] then Inl (Config (''at least one '' @ certificate_kind @ '' certificate is required''))
      else add_roots R certs (roots_empty R))"

definition native_roots :: "('cert, 'roots) root_ops \<Rightarrow> error + 'roots" where
  "native_roots R =
     (case load_native_certs R of (certs, errors) \<Rightarrow>
        sum_bind (add_roots R certs (roots_empty R)) (\<lambda>roots.
          if roots_is_empty R roots
          then Inl (Config (''no usable native root certificates: ''
                 @ (case errors of [] \<Rightarrow> ''the platform returned no certificates'' | e # _ \<Rightarrow> e)))
          else Inr roots))"

section \<open>The verifier that accepts everything\<close>

definition insecure_no_verify :: "('cert, 'name, 'sig) server_cert_verifier" where
  "insecure_no_verify = \<lparr>
     verify_server_cert = (\<lambda>_ _ _ _ _. Inr ()),
     verify_tls12_signature = (\<lambda>_ _ _. Inr ()),
     verify_tls13_signature = (\<lambda>_ _ _. Inr ()),
     supported_verify_schemes = [ECDSA_NISTP256_SHA256, ECDSA_NISTP384_SHA384, ED25519,
       RSA_PSS_SHA256, RSA_PSS_SHA384, RSA_PSS_SHA512, RSA_PKCS1_SHA256, RSA_PKCS1_SHA384, RSA_PKCS1_SHA512] \<rparr>"

section \<open>Client configurations\<close>

definition with_native_roots ::
  "('cert, 'roots) root_ops \<Rightarrow> ('cert, 'key, 'roots, 'name, 'sig, 'config) client_ops \<Rightarrow> error + 'config" where
  "with_native_roots R C =
     sum_bind (native_roots R) (\<lambda>roots. Inr (set_client_alpn C [ALPN_PROTOCOL] (client_with_roots C roots)))"

definition with_platform_verifier :: "('cert, 'key, 'roots, 'name, 'sig, 'config) client_ops \<Rightarrow> error + 'config" where
  "with_platform_verifier C =
     sum_bind (map_err Tls (platform_verifier C)) (\<lambda>verifier.
       Inr (set_client_alpn C [ALPN_PROTOCOL] (client_with_verifier C verifier)))"

definition with_platform_verifier_and_client_auth ::
  "('cert, 'key, 'roots, 'name, 'sig, 'config) client_ops \<Rightarrow> 'cert list \<Rightarrow> 'key \<Rightarrow> error + 'config" where
  "with_platform_verifier_and_client_auth C client_certs client_key =
     (if client_certs = [] then Inl (Config ''at least one client certificate is required'')
      else sum_bind (map_err Tls (platform_verifier C)) (\<lambda>verifier.
        sum_bind (map_err Config (client_with_verifier_auth C verifier client_certs client_key)) (\<lambda>config.
          Inr (set_client_alpn C [ALPN_PROTOCOL] config))))"

definition dangerous_insecure_no_verify_for_testing ::
  "('cert, 'key, 'roots, 'name, 'sig, 'config) client_ops \<Rightarrow> 'config" where
  "dangerous_insecure_no_verify_for_testing C =
     set_client_alpn C [ALPN_PROTOCOL] (client_with_verifier C insecure_no_verify)"

definition with_custom_roots ::
  "('cert, 'roots) root_ops \<Rightarrow> ('cert, 'key, 'roots, 'name, 'sig, 'config) client_ops \<Rightarrow> 'cert list \<Rightarrow> error + 'config" where
  "with_custom_roots R C certs =
     sum_bind (root_store R certs ''custom root'') (\<lambda>roots.
       Inr (set_client_alpn C [ALPN_PROTOCOL] (client_with_roots C roots)))"

definition with_roots_and_client_auth ::
  "('cert, 'key, 'roots, 'name, 'sig, 'config) client_ops \<Rightarrow> 'roots \<Rightarrow> 'cert list \<Rightarrow> 'key \<Rightarrow> error + 'config" where
  "with_roots_and_client_auth C roots client_certs client_key =
     (if client_certs = [] then Inl (Config ''at least one client certificate is required'')
      else sum_bind (map_err Config (client_with_roots_auth C roots client_certs client_key)) (\<lambda>config.
        Inr (set_client_alpn C [ALPN_PROTOCOL] config)))"

definition with_native_roots_and_client_auth ::
  "('cert, 'roots) root_ops \<Rightarrow> ('cert, 'key, 'roots, 'name, 'sig, 'config) client_ops \<Rightarrow> 'cert list \<Rightarrow> 'key \<Rightarrow> error + 'config" where
  "with_native_roots_and_client_auth R C client_certs client_key =
     sum_bind (native_roots R) (\<lambda>roots. with_roots_and_client_auth C roots client_certs client_key)"

definition with_custom_roots_and_client_auth ::
  "('cert, 'roots) root_ops \<Rightarrow> ('cert, 'key, 'roots, 'name, 'sig, 'config) client_ops \<Rightarrow> 'cert list \<Rightarrow> 'cert list \<Rightarrow> 'key \<Rightarrow> error + 'config" where
  "with_custom_roots_and_client_auth R C roots client_certs client_key =
     sum_bind (root_store R roots ''custom root'') (\<lambda>roots. with_roots_and_client_auth C roots client_certs client_key)"

definition server_name :: "('cert, 'key, 'roots, 'name, 'sig, 'config) client_ops \<Rightarrow> string \<Rightarrow> error + 'name" where
  "server_name C name = (case parse_server_name C name of None \<Rightarrow> Inl (InvalidDnsName name) | Some n \<Rightarrow> Inr n)"

section \<open>Server configurations\<close>

definition from_der :: "('cert, 'key, 'roots, 'cverifier, 'config, 'path, 'file) server_ops \<Rightarrow> 'cert list \<Rightarrow> 'key \<Rightarrow> error + 'config" where
  "from_der V certs key =
     (if certs = [] then Inl (Config ''at least one server certificate is required'')
      else sum_bind (map_err Config (server_single_cert V certs key)) (\<lambda>config.
        Inr (set_server_alpn V [ALPN_PROTOCOL] config)))"

definition from_pem_files :: "('cert, 'key, 'roots, 'cverifier, 'config, 'path, 'file) server_ops \<Rightarrow> 'path \<Rightarrow> 'path \<Rightarrow> error + 'config" where
  "from_pem_files V cert_path key_path =
     sum_bind (map_err Io (file_open V cert_path)) (\<lambda>cert_file.
     sum_bind (map_err Config (pem_certs V cert_file)) (\<lambda>certs.
       if certs = [] then Inl (Config ''no certificates found in PEM file'')
       else sum_bind (map_err Io (file_open V key_path)) (\<lambda>key_file.
         sum_bind (map_err Config (pem_key V key_file)) (\<lambda>key. from_der V certs key))))"

definition from_der_with_client_auth ::
  "('cert, 'roots) root_ops \<Rightarrow> ('cert, 'key, 'roots, 'cverifier, 'config, 'path, 'file) server_ops
     \<Rightarrow> 'cert list \<Rightarrow> 'key \<Rightarrow> 'cert list \<Rightarrow> error + 'config" where
  "from_der_with_client_auth R V certs key client_roots =
     (if certs = [] then Inl (Config ''at least one server certificate is required'')
      else sum_bind (root_store R client_roots ''client root'') (\<lambda>client_roots.
        sum_bind (map_err Config (client_verifier V client_roots)) (\<lambda>verifier.
        sum_bind (map_err Config (server_verified_single_cert V verifier certs key)) (\<lambda>config.
          Inr (set_server_alpn V [ALPN_PROTOCOL] config)))))"

definition self_signed_for_localhost ::
  "('cert, 'key, 'roots, 'cverifier, 'config, 'path, 'file) server_ops \<Rightarrow> error + ('config \<times> 'cert)" where
  "self_signed_for_localhost V =
     sum_bind (map_err Config (simple_self_signed V [''localhost'', ''127.0.0.1''])) (\<lambda>(cert_der, key_bytes).
     sum_bind (map_err Config (key_of_der V key_bytes)) (\<lambda>key_der.
     sum_bind (from_der V [cert_der] key_der) (\<lambda>cfg. Inr (cfg, cert_der))))"

section \<open>The contract of the library\<close>

text \<open>\<open>anchors r\<close> is the set of the certificates a root store trusts.\<close>

locale tls_library =
  fixes R :: "('cert, 'roots) root_ops"
    and C :: "('cert, 'key, 'roots, 'name, 'sig, 'client) client_ops"
    and V :: "('cert, 'key, 'roots, 'cverifier, 'server, 'path, 'file) server_ops"
    and anchors :: "'roots \<Rightarrow> 'cert set"
  assumes client_alpn_set: "client_alpn C (set_client_alpn C ps cc) = ps"
    and server_alpn_set: "server_alpn V (set_server_alpn V ps sc) = ps"
    and anchors_empty: "anchors (roots_empty R) = {}"
    and anchors_add: "roots_add R cert r = Inr r' \<Longrightarrow> anchors r' = insert cert (anchors r)"
    and anchors_none: "roots_is_empty R r \<longleftrightarrow> anchors r = {}"
begin

lemma add_roots_anchors: "add_roots R certs r = Inr r' \<Longrightarrow> anchors r' = anchors r \<union> set certs"
  by (induction certs arbitrary: r) (auto simp: sum_bind_Inr_iff dest: anchors_add)

text \<open>A root store that the code builds trusts exactly the certificates it was given, and there is one.\<close>

lemma root_store_anchors:
  assumes "root_store R certs kind = Inr r"
  shows "certs \<noteq> []" "anchors r = set certs"
  using assms add_roots_anchors [of certs "roots_empty R" r] by (auto simp: root_store_def anchors_empty split: if_splits)

lemma native_roots_anchors:
  assumes "native_roots R = Inr r"
  shows "anchors r = set (fst (load_native_certs R))" "anchors r \<noteq> {}"
proof -
  obtain certs errors where l: "load_native_certs R = (certs, errors)" by fastforce
  with assms have r: "add_roots R certs (roots_empty R) = Inr r" "\<not> roots_is_empty R r"
    by (auto simp: native_roots_def sum_bind_Inr_iff split: if_splits)
  show "anchors r = set (fst (load_native_certs R))" using add_roots_anchors [OF r(1)] l by (simp add: anchors_empty)
  show "anchors r \<noteq> {}" using r(2) by (simp add: anchors_none)
qed

lemma custom_roots_trusted:
  assumes "with_custom_roots R C roots = Inr cc"
  shows "roots \<noteq> [] \<and> (\<exists>r. anchors r = set roots \<and> cc = set_client_alpn C [ALPN_PROTOCOL] (client_with_roots C r))"
  using assms root_store_anchors unfolding with_custom_roots_def sum_bind_Inr_iff by blast

lemma native_roots_trusted:
  assumes "with_native_roots R C = Inr cc"
  shows "\<exists>r. anchors r = set (fst (load_native_certs R)) \<and> anchors r \<noteq> {}
    \<and> cc = set_client_alpn C [ALPN_PROTOCOL] (client_with_roots C r)"
  using assms native_roots_anchors unfolding with_native_roots_def sum_bind_Inr_iff by blast

lemma client_roots_verify:
  assumes "from_der_with_client_auth R V certs key roots = Inr sc"
  shows "certs \<noteq> [] \<and> roots \<noteq> [] \<and> (\<exists>r v sc'. anchors r = set roots \<and> client_verifier V r = Inr v
    \<and> server_verified_single_cert V v certs key = Inr sc' \<and> sc = set_server_alpn V [ALPN_PROTOCOL] sc')"
proof -
  from assms obtain r v sc' where r: "certs \<noteq> []" "root_store R roots ''client root'' = Inr r" "client_verifier V r = Inr v"
      "server_verified_single_cert V v certs key = Inr sc'" "sc = set_server_alpn V [ALPN_PROTOCOL] sc'"
    by (auto simp: from_der_with_client_auth_def sum_bind_Inr_iff split: if_splits)
  then show ?thesis using root_store_anchors [OF r(2)] by blast
qed

lemmas client_configs = with_native_roots_def with_platform_verifier_def with_platform_verifier_and_client_auth_def
  dangerous_insecure_no_verify_for_testing_def with_custom_roots_def with_native_roots_and_client_auth_def
  with_custom_roots_and_client_auth_def with_roots_and_client_auth_def

lemmas server_configs = from_pem_files_def from_der_with_client_auth_def self_signed_for_localhost_def from_der_def

text \<open>Whichever way a configuration was made, it offers the one protocol the endpoints insist on.\<close>

lemma client_offers:
  assumes "with_native_roots R C = Inr cc \<or> with_platform_verifier C = Inr cc
    \<or> with_platform_verifier_and_client_auth C certs key = Inr cc \<or> dangerous_insecure_no_verify_for_testing C = cc
    \<or> with_custom_roots R C roots = Inr cc \<or> with_native_roots_and_client_auth R C certs key = Inr cc
    \<or> with_custom_roots_and_client_auth R C roots certs key = Inr cc"
  shows "client_alpn C cc = [ALPN_PROTOCOL]"
  using assms unfolding client_configs
  by (elim disjE) (auto simp: sum_bind_Inr_iff client_alpn_set split: if_splits)

lemma server_offers:
  assumes "from_der V certs key = Inr sc \<or> from_pem_files V cert_path key_path = Inr sc
    \<or> from_der_with_client_auth R V certs key roots = Inr sc \<or> self_signed_for_localhost V = Inr (sc, cert)"
  shows "server_alpn V sc = [ALPN_PROTOCOL]"
  using assms unfolding server_configs
  by (elim disjE) (auto simp: sum_bind_Inr_iff server_alpn_set split: if_splits)

end

text \<open>An instance of the contract: certificates are byte strings, of which the empty one is refused, a root store is the list
  of its certificates, and a configuration is what it was built from, with the list of the protocols it offers.\<close>

type_synonym plain_config = "bytes list \<times> bytes list \<times> bytes list"

definition list_roots :: "(bytes, bytes list) root_ops" where
  "list_roots = \<lparr> roots_empty = [], roots_add = (\<lambda>cert r. if cert = [] then Inl ''bad certificate'' else Inr (cert # r)),
     roots_is_empty = (\<lambda>r. r = []), load_native_certs = ([[1]], []) \<rparr>"

definition list_clients :: "(bytes, bytes, bytes list, string, unit, plain_config) client_ops" where
  "list_clients = \<lparr> client_with_roots = (\<lambda>r. ([], r, [])), client_with_roots_auth = (\<lambda>r certs key. Inr ([], r, certs)),
     client_with_verifier = (\<lambda>v. ([], [], [])), client_with_verifier_auth = (\<lambda>v certs key. Inr ([], [], certs)),
     client_alpn = fst, set_client_alpn = (\<lambda>ps (_, x). (ps, x)), platform_verifier = Inl ''no verifier'',
     parse_server_name = (\<lambda>n. if n = [] then None else Some n) \<rparr>"

definition list_servers :: "(bytes, bytes, bytes list, bytes list, plain_config, string, string) server_ops" where
  "list_servers = \<lparr> server_single_cert = (\<lambda>certs key. Inr ([], [], certs)),
     server_verified_single_cert = (\<lambda>v certs key. Inr ([], v, certs)), client_verifier = Inr,
     server_alpn = fst, set_server_alpn = (\<lambda>ps (_, x). (ps, x)), file_open = Inr, pem_certs = (\<lambda>_. Inr [[1]]), pem_key = (\<lambda>_. Inr [2]),
     simple_self_signed = (\<lambda>_. Inr ([1], [2])), key_of_der = Inr \<rparr>"

interpretation list_tls: tls_library list_roots list_clients list_servers set
  by unfold_locales (auto simp: list_roots_def list_clients_def list_servers_def split: if_splits)

section \<open>Properties\<close>



end
