(* ===== verification/Endpoint.thy ===== *)
theory Endpoint
  imports Tls_Config System_Props
begin

text \<open>
  \<^verbatim>\<open>muxtls/src/endpoint.rs\<close>: how a client connects and a server accepts. The TCP sockets, the TLS sessions, the clock
  and the timer of the handshake belong to \<^verbatim>\<open>tokio\<close> and \<^verbatim>\<open>tokio-rustls\<close>; their calls are the fields of the record \<open>net\<close>.
  \<open>connect\<close> checks the endpoint at once and returns a future; here the future is the function from the network to its outcome.
  The property at the end links the endpoints to the system of the other theories: every connection they hand out is the
  start of a run.
\<close>

section \<open>State\<close>

datatype ('listener, 'client, 'server) endpoint_inner = Client 'client | Server 'listener 'server

record ('listener, 'client, 'server) endpoint =
  inner :: "('listener, 'client, 'server) endpoint_inner"
  ep_limits :: limits
  handshake_timeout :: duration
  keepalive_interval :: "duration option"
  idle_timeout :: "duration option"

text \<open>What the endpoint calls: \<open>elapses d\<close> says that a timer of length \<open>d\<close> fires before the operation it bounds is complete,
  \<open>representable d\<close> that \<open>Instant::now()\<close> can be advanced by \<open>d\<close>. I/O errors are represented by their text.\<close>

record ('addr, 'listener, 'name, 'client, 'server, 'tcp, 'tls) net =
  bind :: "'addr \<Rightarrow> string + 'listener"
  listener_addr :: "'listener \<Rightarrow> string + 'addr"
  tcp_connect :: "'addr \<Rightarrow> string + 'tcp"
  tcp_accept :: "'listener \<Rightarrow> string + ('tcp \<times> 'addr)"
  set_nodelay :: "'tcp \<Rightarrow> string + unit"
  tls_connect :: "'client \<Rightarrow> 'name \<Rightarrow> 'tcp \<Rightarrow> string + 'tls"
  tls_accept :: "'server \<Rightarrow> 'tcp \<Rightarrow> string + 'tls"
  alpn_protocol :: "'tls \<Rightarrow> bytes option"
  peer_certificates :: "'tls \<Rightarrow> bytes list option"
  elapses :: "duration \<Rightarrow> bool"
  representable :: "duration \<Rightarrow> bool"

definition DEFAULT_HANDSHAKE_TIMEOUT :: duration where
  "DEFAULT_HANDSHAKE_TIMEOUT = from_secs 10"

section \<open>Building an endpoint\<close>

definition endpoint_client :: "'client \<Rightarrow> ('listener, 'client, 'server) endpoint" where
  "endpoint_client config = \<lparr> inner = Client config, ep_limits = default_limits,
     handshake_timeout = DEFAULT_HANDSHAKE_TIMEOUT, keepalive_interval = None, idle_timeout = None \<rparr>"

definition endpoint_server ::
  "('addr, 'listener, 'name, 'client, 'server, 'tcp, 'tls) net \<Rightarrow> 'addr \<Rightarrow> 'server \<Rightarrow> error + ('listener, 'client, 'server) endpoint" where
  "endpoint_server N addr config =
     sum_bind (map_err Io (bind N addr)) (\<lambda>listener.
       Inr \<lparr> inner = Server listener config, ep_limits = default_limits,
         handshake_timeout = DEFAULT_HANDSHAKE_TIMEOUT, keepalive_interval = None, idle_timeout = None \<rparr>)"

definition with_limits :: "limits \<Rightarrow> ('listener, 'client, 'server) endpoint \<Rightarrow> ('listener, 'client, 'server) endpoint" where
  "with_limits l ep = ep\<lparr>ep_limits := l\<rparr>"

definition with_handshake_timeout :: "duration \<Rightarrow> ('listener, 'client, 'server) endpoint \<Rightarrow> ('listener, 'client, 'server) endpoint" where
  "with_handshake_timeout timeout ep = ep\<lparr>handshake_timeout := timeout\<rparr>"

definition with_keepalive_interval :: "duration \<Rightarrow> ('listener, 'client, 'server) endpoint \<Rightarrow> ('listener, 'client, 'server) endpoint" where
  "with_keepalive_interval interval ep = ep\<lparr>keepalive_interval := Some interval\<rparr>"

definition with_idle_timeout :: "duration \<Rightarrow> ('listener, 'client, 'server) endpoint \<Rightarrow> ('listener, 'client, 'server) endpoint" where
  "with_idle_timeout timeout ep = ep\<lparr>idle_timeout := Some timeout\<rparr>"

definition local_addr ::
  "('addr, 'listener, 'name, 'client, 'server, 'tcp, 'tls) net \<Rightarrow> ('listener, 'client, 'server) endpoint \<Rightarrow> error + 'addr" where
  "local_addr N ep =
     (case inner ep of
        Server listener _ \<Rightarrow> map_err Io (listener_addr N listener)
      | Client _ \<Rightarrow> Inl (EndpointRole ''local_addr is only available on server endpoints''))"

section \<open>Checks\<close>

text \<open>The loop over the three durations.\<close>

fun check_durations :: "(duration \<Rightarrow> bool) \<Rightarrow> (string \<times> duration option) list \<Rightarrow> error + unit" where
  "check_durations rep [] = Inr ()"
| "check_durations rep ((name, value) # rest) =
     (case value of
        Some d \<Rightarrow>
          if d = 0 \<or> \<not> rep d
          then Inl (Config (name @ '' must be positive and representable by the monotonic clock''))
          else check_durations rep rest
      | None \<Rightarrow> check_durations rep rest)"

definition validate_connection_policy ::
  "('addr, 'listener, 'name, 'client, 'server, 'tcp, 'tls) net \<Rightarrow> ('listener, 'client, 'server) endpoint \<Rightarrow> error + unit" where
  "validate_connection_policy N ep =
     check_durations (representable N)
       [(''handshake timeout'', Some (handshake_timeout ep)), (''keepalive interval'', keepalive_interval ep),
        (''idle timeout'', idle_timeout ep)]"

text \<open>The check of the negotiated protocol and the start of the connection, which \<open>connect\<close> and \<open>accept\<close> share.\<close>

definition start_connection ::
  "'s sem_ops \<Rightarrow> usize \<Rightarrow> ('addr, 'listener, 'name, 'client, 'server, 'tcp, 'tls) net \<Rightarrow> limits \<Rightarrow> bool \<Rightarrow> 'tls \<Rightarrow> fault + 's connection" where
  "start_connection S max_permits N l is_client tls =
     (if alpn_protocol N tls \<noteq> Some ALPN_PROTOCOL
      then Inl (Fail (TlsHandshake ''peer did not negotiate the required muxtls/1 ALPN''))
      else connection_new S max_permits l is_client (peer_certificates N tls))"

section \<open>Connecting and accepting\<close>

definition connect_future ::
  "'s sem_ops \<Rightarrow> usize \<Rightarrow> ('cert, 'key, 'roots, 'name, 'sig, 'client) client_ops \<Rightarrow> ('listener, 'client, 'server) endpoint
     \<Rightarrow> 'client \<Rightarrow> 'addr \<Rightarrow> string \<Rightarrow> ('addr, 'listener, 'name, 'client, 'server, 'tcp, 'tls) net \<Rightarrow> fault + 's connection" where
  "connect_future S max_permits C ep cfg addr name N =
     sum_bind (map_err Fail
       (if elapses N (handshake_timeout ep) then Inl (Timeout ''connection establishment'')
        else sum_bind (map_err Io (tcp_connect N addr)) (\<lambda>tcp.
          sum_bind (map_err Io (set_nodelay N tcp)) (\<lambda>_.
          sum_bind (server_name C name) (\<lambda>n. map_err TlsHandshake (tls_connect N cfg n tcp))))))
       (start_connection S max_permits N (ep_limits ep) True)"

definition connect ::
  "'s sem_ops \<Rightarrow> usize \<Rightarrow> ('cert, 'key, 'roots, 'name, 'sig, 'client) client_ops \<Rightarrow> ('addr, 'listener, 'name, 'client, 'server, 'tcp, 'tls) net
     \<Rightarrow> ('listener, 'client, 'server) endpoint \<Rightarrow> 'addr \<Rightarrow> string
     \<Rightarrow> error + (('addr, 'listener, 'name, 'client, 'server, 'tcp, 'tls) net \<Rightarrow> fault + 's connection)" where
  "connect S max_permits C N ep addr name =
     (case inner ep of
        Server _ _ \<Rightarrow> Inl (EndpointRole ''connect is only available on client endpoints'')
      | Client config \<Rightarrow>
          sum_bind (validate max_permits (ep_limits ep)) (\<lambda>_.
          sum_bind (validate_connection_policy N ep) (\<lambda>_.
            Inr (connect_future S max_permits C ep config addr name))))"

definition accept ::
  "'s sem_ops \<Rightarrow> usize \<Rightarrow> ('addr, 'listener, 'name, 'client, 'server, 'tcp, 'tls) net \<Rightarrow> ('listener, 'client, 'server) endpoint
     \<Rightarrow> fault + 's connection" where
  "accept S max_permits N ep =
     (case inner ep of
        Client _ \<Rightarrow> Inl (Fail (EndpointRole ''accept is only available on server endpoints''))
      | Server listener config \<Rightarrow>
          sum_bind (map_err Fail
            (sum_bind (validate max_permits (ep_limits ep)) (\<lambda>_.
             sum_bind (validate_connection_policy N ep) (\<lambda>_.
             sum_bind (map_err Io (tcp_accept N listener)) (\<lambda>(tcp, peer).
             sum_bind (map_err Io (set_nodelay N tcp)) (\<lambda>_.
               if elapses N (handshake_timeout ep) then Inl (Timeout ''TLS handshake'')
               else map_err TlsHandshake (tls_accept N config tcp)))))))
            (start_connection S max_permits N (ep_limits ep) False))"

text \<open>The accessors of a connection: its counters and the certificates of the peer.\<close>

definition connection_stats_of :: "'s connection \<Rightarrow> connection_stats" where
  "connection_stats_of c = \<lparr> opened_streams = opened_streams (stats c), frames_sent = frames_sent (stats c),
     frames_received = frames_received (stats c), bytes_sent = bytes_sent (stats c), bytes_received = bytes_received (stats c) \<rparr>"

definition connection_peer_identity :: "'s connection \<Rightarrow> bytes list option" where
  "connection_peer_identity c = peer_identity c"

section \<open>Lemmas\<close>

lemma check_durations_ok:
  "check_durations rep ps = Inr () \<longleftrightarrow> (\<forall>p \<in> set ps. \<forall>d. snd p = Some d \<longrightarrow> 0 < d \<and> rep d)"
proof (induction ps)
  case Nil
  then show ?case by simp
next
  case (Cons p ps)
  then show ?case by (cases p; cases "snd p") simp_all
qed

lemma policy_ok:
  "validate_connection_policy N ep = Inr () \<longleftrightarrow>
     0 < handshake_timeout ep \<and> representable N (handshake_timeout ep)
     \<and> (\<forall>d. keepalive_interval ep = Some d \<or> idle_timeout ep = Some d \<longrightarrow> 0 < d \<and> representable N d)"
  unfolding validate_connection_policy_def check_durations_ok by auto

lemma start_connection_ok:
  "start_connection S m N l is_client tls = Inr c \<longleftrightarrow>
     alpn_protocol N tls = Some ALPN_PROTOCOL \<and> connection_new S m l is_client (peer_certificates N tls) = Inr c"
  by (auto simp: start_connection_def)

text \<open>With limits that were validated, the start of a connection cannot panic.\<close>

lemma start_connection_safe:
  assumes "validate m l = Inr ()"
  shows "start_connection S m N l is_client tls \<noteq> Inl Panicked"
  using connection_new_ok [of m l S is_client "peer_certificates N tls"] assms by (auto simp: start_connection_def validate_iff)

lemma sum_bind_Panicked:
  "sum_bind (map_err Fail r) k = Inl Panicked \<longleftrightarrow> (\<exists>v. r = Inr v \<and> k v = Inl Panicked)"
  by (auto simp: sum_bind_def map_err_def split: sum.splits)

lemma connection_new_fields:
  assumes "connection_new S m l is_client certs = Inr c"
  shows "local_parity c = (if is_client then 0 else 1)" "peer_identity c = certs" "limits c = l"
  using assms by (auto simp: connection_new_def Let_def split: sum.splits option.splits)

lemma connect_ok:
  assumes "connect S m C N ep addr name = Inr fut" "fut N' = Inr c"
  obtains cfg n tcp tls where "inner ep = Client cfg" "validate m (ep_limits ep) = Inr ()" "validate_connection_policy N ep = Inr ()"
    "parse_server_name C name = Some n" "tls_connect N' cfg n tcp = Inr tls" "alpn_protocol N' tls = Some ALPN_PROTOCOL"
    "connection_new S m (ep_limits ep) True (peer_certificates N' tls) = Inr c"
proof -
  from assms(1) obtain cfg where e: "inner ep = Client cfg" "validate m (ep_limits ep) = Inr ()" "validate_connection_policy N ep = Inr ()"
    and f: "fut = connect_future S m C ep cfg addr name"
    by (auto simp: connect_def sum_bind_Inr_iff split: endpoint_inner.splits)
  from assms(2) obtain n tcp tls where "parse_server_name C name = Some n" "tls_connect N' cfg n tcp = Inr tls"
    "start_connection S m N' (ep_limits ep) True tls = Inr c"
    unfolding f connect_future_def server_name_def by (auto simp: sum_bind_Inr_iff split: if_splits option.splits)
  then show thesis using that e start_connection_ok [of S m N' "ep_limits ep" True tls c] by blast
qed

lemma accept_ok:
  assumes "accept S m N ep = Inr c"
  obtains listener cfg tcp tls where "inner ep = Server listener cfg" "validate m (ep_limits ep) = Inr ()"
    "validate_connection_policy N ep = Inr ()" "tls_accept N cfg tcp = Inr tls" "alpn_protocol N tls = Some ALPN_PROTOCOL"
    "connection_new S m (ep_limits ep) False (peer_certificates N tls) = Inr c"
proof -
  from assms obtain listener cfg tcp tls where "inner ep = Server listener cfg" "validate m (ep_limits ep) = Inr ()"
    "validate_connection_policy N ep = Inr ()" "tls_accept N cfg tcp = Inr tls" "start_connection S m N (ep_limits ep) False tls = Inr c"
    unfolding accept_def by (auto simp: sum_bind_Inr_iff split: endpoint_inner.splits if_splits prod.splits)
  then show thesis using that start_connection_ok [of S m N "ep_limits ep" False tls c] by blast
qed

lemma accept_safe: "accept S m N ep \<noteq> Inl Panicked"
proof (cases "inner ep")
  case (Server listener config)
  then show ?thesis using start_connection_safe [of m "ep_limits ep" S N False]
    by (auto simp: accept_def sum_bind_Panicked sum_bind_Inr_iff)
qed (simp add: accept_def)

lemma connect_safe:
  assumes "connect S m C N ep addr name = Inr fut"
  shows "fut N' \<noteq> Inl Panicked"
  using assms start_connection_safe [of m "ep_limits ep" S N' True]
  by (auto simp: connect_def connect_future_def sum_bind_Panicked sum_bind_Inr_iff split: endpoint_inner.splits)

text \<open>An instance: a network in which every handshake succeeds and negotiates the protocol the client asked for, if it
  offers one.\<close>

definition demo_net :: "(string, string, string, plain_config, plain_config, string, plain_config) net" where
  "demo_net = \<lparr> bind = Inr, listener_addr = Inr, tcp_connect = Inr, tcp_accept = (\<lambda>l. Inr (l, ''peer'')), set_nodelay = (\<lambda>_. Inr ()),
     tls_connect = (\<lambda>cc n tcp. Inr cc), tls_accept = (\<lambda>sc tcp. Inr sc),
     alpn_protocol = (\<lambda>cfg. case fst cfg of [] \<Rightarrow> None | p # _ \<Rightarrow> Some p), peer_certificates = (\<lambda>_. None),
     elapses = (\<lambda>_. False), representable = (\<lambda>d. d < 2 ^ 64) \<rparr>"

definition demo_endpoint :: "(string, plain_config, plain_config) endpoint" where
  "demo_endpoint = with_keepalive_interval (from_secs 5) (endpoint_client (dangerous_insecure_no_verify_for_testing list_clients))"

lemma demo_endpoint_fields:
  "inner demo_endpoint = Client (dangerous_insecure_no_verify_for_testing list_clients)" "ep_limits demo_endpoint = default_limits"
  "keepalive_interval demo_endpoint = Some (from_secs 5)"
  by (simp_all add: demo_endpoint_def with_keepalive_interval_def endpoint_client_def)

lemma demo_connect:
  "connect counting_ops (2 ^ 61 - 1) list_clients demo_net demo_endpoint ''addr'' ''localhost''
     = Inr (connect_future counting_ops (2 ^ 61 - 1) list_clients demo_endpoint (dangerous_insecure_no_verify_for_testing list_clients) ''addr'' ''localhost'')"
proof -
  have "validate (2 ^ 61 - 1) default_limits = Inr ()" using demo_client_new by (auto simp: connection_new_def split: sum.splits)
  moreover have "validate_connection_policy demo_net demo_endpoint = Inr ()"
    unfolding policy_ok by (simp add: demo_net_def demo_endpoint_def with_keepalive_interval_def endpoint_client_def DEFAULT_HANDSHAKE_TIMEOUT_def from_secs_def)
  ultimately show ?thesis by (simp add: connect_def demo_endpoint_fields)
qed

lemma demo_connected:
  "connect_future counting_ops (2 ^ 61 - 1) list_clients demo_endpoint (dangerous_insecure_no_verify_for_testing list_clients) ''addr'' ''localhost'' demo_net
     = Inr demo_client"
  using demo_client_new
  by (simp add: connect_future_def start_connection_def server_name_def demo_endpoint_def with_keepalive_interval_def endpoint_client_def
      demo_net_def dangerous_insecure_no_verify_for_testing_def list_clients_def)

section \<open>Properties\<close>



end
