(* ===== verification/Fuzz_Targets.thy ===== *)
theory Fuzz_Targets
  imports Shutdown
begin

text \<open>
  The three fuzz targets under \<^verbatim>\<open>fuzz/fuzz_targets\<close> and \<^verbatim>\<open>fuzz_connection_state\<close> of \<^verbatim>\<open>connection.rs\<close>, which runs one of them. A
  failed \<^verbatim>\<open>expect\<close> or \<^verbatim>\<open>assert\<close> is \<open>Panic\<close>, so that \<open>Done\<close> for all inputs says that the fuzzer can never find anything there. The
  byte buffers are parameters as in the codec, with the conversions the targets use: \<open>copy_from_slice\<close> makes a \<open>Bytes\<close> of the input,
  \<open>freeze\<close> a \<open>Bytes\<close> of what was written, \<open>to_vec\<close> copies it.
\<close>

section \<open>Decoding targets\<close>

definition varint_target ::
  "'b buf_ops \<Rightarrow> 'o writer_buf \<Rightarrow> (bytes \<Rightarrow> 'b) \<Rightarrow> ('o \<Rightarrow> 'b) \<Rightarrow> bytes \<Rightarrow> unit run" where
  "varint_target B W copy_from_slice freeze input =
     (case varint_decode B (copy_from_slice input) of
        (Inl _, _) \<Rightarrow> Done ()
      | (Inr decoded, _) \<Rightarrow>
          (let canonical = varint_encode (wb_ops W) decoded (wb_new W) in
           if wb_len W canonical \<noteq> varint_encoded_len decoded then Panic
           else case varint_decode B (freeze canonical) of
               (Inl _, _) \<Rightarrow> Panic
             | (Inr roundtrip, rest) \<Rightarrow>
                 if roundtrip \<noteq> decoded then Panic else if has_remaining B rest then Panic else Done ()))"

definition frame_target ::
  "'b buf_ops \<Rightarrow> 'o writer_buf \<Rightarrow> (bytes \<Rightarrow> 'b) \<Rightarrow> ('o \<Rightarrow> 'b) \<Rightarrow> bytes \<Rightarrow> unit run" where
  "frame_target B W copy_from_slice freeze input =
     (case frame_decode B (copy_from_slice input) of
        (Inl _, _) \<Rightarrow> Done ()
      | (Inr decoded, _) \<Rightarrow>
          (case frame_encode (wb_ops W) decoded (wb_new W) of
             (Inl _, _) \<Rightarrow> Panic
           | (Inr _, canonical) \<Rightarrow>
               (case frame_encoded_len decoded of
                  Inl _ \<Rightarrow> Panic
                | Inr len \<Rightarrow>
                    if wb_len W canonical \<noteq> len then Panic
                    else case frame_decode B (freeze canonical) of
                        (Inl _, _) \<Rightarrow> Panic
                      | (Inr roundtrip, _) \<Rightarrow> if roundtrip \<noteq> decoded then Panic else Done ())))"

section \<open>The generator of connection scenarios\<close>

text \<open>\<open>String::from_utf8_lossy\<close> of the standard library: what is not well formed is replaced by U+FFFD, one for each longest
  prefix of a character. \<open>broken_length b bs\<close> is the number of bytes after \<open>b\<close> that belong to the prefix.\<close>

definition second_ok :: "byte \<Rightarrow> byte \<Rightarrow> bool" where
  "second_ok b c \<longleftrightarrow>
     (if b = 0xE0 then 0xA0 \<le> c \<and> c \<le> 0xBF else if b = 0xED then 0x80 \<le> c \<and> c \<le> 0x9F
      else if b = 0xF0 then 0x90 \<le> c \<and> c \<le> 0xBF else if b = 0xF4 then 0x80 \<le> c \<and> c \<le> 0x8F
      else is_continuation c)"

definition broken_length :: "byte \<Rightarrow> bytes \<Rightarrow> nat" where
  "broken_length b bs =
     (if 0xE0 \<le> b \<and> b \<le> 0xEF then (case bs of c # _ \<Rightarrow> if second_ok b c then 1 else 0 | [] \<Rightarrow> 0)
      else if 0xF0 \<le> b \<and> b \<le> 0xF4 then
        (case bs of
           c # rest \<Rightarrow> if second_ok b c then (case rest of d # _ \<Rightarrow> if is_continuation d then 2 else 1 | [] \<Rightarrow> 1) else 0
         | [] \<Rightarrow> 0)
      else 0)"

function from_utf8_lossy :: "bytes \<Rightarrow> bytes" where
  "from_utf8_lossy [] = []"
| "from_utf8_lossy (b # bs) =
     (case utf8_tail b bs of
        Some rest \<Rightarrow> take (Suc (length bs - length rest)) (b # bs) @ from_utf8_lossy rest
      | None \<Rightarrow> [0xEF, 0xBF, 0xBD] @ from_utf8_lossy (drop (broken_length b bs) bs))"
  by pat_completeness auto
termination
  by (relation "measure length") (auto dest: utf8_tail_length simp: less_Suc_eq_le)

datatype fuzz_action =
    ActSettings u64 u64 u64
  | ActMaxData u64
  | ActMaxStreamData byte u64
  | ActStopSending byte
  | ActOpenNext
  | ActOpen u64
  | ActStreamKnown byte bool bytes
  | ActStream u64 bool bytes
  | ActResetKnown byte u64
  | ActReset u64 u64
  | ActPing
  | ActClose u64 bytes
  | ActRaw bytes

record scenario =
  is_client :: bool
  actions :: "fuzz_action list"

definition fuzz_bounded :: "u64 \<Rightarrow> u64" where
  "fuzz_bounded value = value mod (varint_MAX + 1)"

definition fuzz_varint :: "u64 \<Rightarrow> varint run" where
  "fuzz_varint value = (case from_u64 value of Inl _ \<Rightarrow> Panic | Inr v \<Rightarrow> Done v)"

definition fuzz_error_code :: "u64 \<Rightarrow> error_code run" where
  "fuzz_error_code value = (case error_code_from_u64 (fuzz_bounded value) of Inl _ \<Rightarrow> Panic | Inr v \<Rightarrow> Done v)"

definition fuzz_select :: "u64 list \<Rightarrow> byte \<Rightarrow> u64 option" where
  "fuzz_select ids index = (if ids = [] then None else Some (ids ! (unat index mod length ids)))"

definition fuzz_encode :: "'o writer_buf \<Rightarrow> ('o \<Rightarrow> bytes) \<Rightarrow> frame \<Rightarrow> bytes run" where
  "fuzz_encode W to_vec f =
     (case frame_encode (wb_ops W) f (wb_new W) of (Inl _, _) \<Rightarrow> Panic | (Inr _, encoded) \<Rightarrow> Done (to_vec encoded))"

fun run_bind :: "'a run \<Rightarrow> ('a \<Rightarrow> 'b run) \<Rightarrow> 'b run" where
  "run_bind (Done v) k = k v"
| "run_bind Panic k = Panic"

text \<open>The frame of an action, given the next identifier and the identifiers opened before; \<open>None\<close> is the \<^verbatim>\<open>continue\<close> of the loop,
  and \<open>Inr\<close> are bytes that are not the encoding of a frame.\<close>

fun fuzz_frame :: "u64 \<Rightarrow> u64 list \<Rightarrow> fuzz_action \<Rightarrow> (frame + bytes) option run" where
  "fuzz_frame next opened (ActSettings d s f) =
     run_bind (fuzz_varint (fuzz_bounded d)) (\<lambda>d. run_bind (fuzz_varint (fuzz_bounded s)) (\<lambda>s.
     run_bind (fuzz_varint (fuzz_bounded f)) (\<lambda>f. Done (Some (Inl (Settings d s f))))))"
| "fuzz_frame next opened (ActMaxData maximum) =
     run_bind (fuzz_varint (fuzz_bounded maximum)) (\<lambda>m. Done (Some (Inl (MaxData m))))"
| "fuzz_frame next opened (ActMaxStreamData index maximum) =
     run_bind (fuzz_varint (case fuzz_select opened index of Some i \<Rightarrow> i | None \<Rightarrow> varint_MAX)) (\<lambda>i.
     run_bind (fuzz_varint (fuzz_bounded maximum)) (\<lambda>m. Done (Some (Inl (MaxStreamData i m)))))"
| "fuzz_frame next opened (ActStopSending index) =
     run_bind (fuzz_varint (case fuzz_select opened index of Some i \<Rightarrow> i | None \<Rightarrow> varint_MAX)) (\<lambda>i. Done (Some (Inl (StopSending i))))"
| "fuzz_frame next opened ActOpenNext =
     (if next > varint_MAX then Done None else run_bind (fuzz_varint next) (\<lambda>i. Done (Some (Inl (OpenStream i)))))"
| "fuzz_frame next opened (ActOpen stream_id) =
     run_bind (fuzz_varint (fuzz_bounded stream_id)) (\<lambda>i. Done (Some (Inl (OpenStream i))))"
| "fuzz_frame next opened (ActStreamKnown index fin payload) =
     (case fuzz_select opened index of
        None \<Rightarrow> Done None
      | Some i \<Rightarrow> run_bind (fuzz_varint i) (\<lambda>i. Done (Some (Inl (Stream i fin (take 256 payload))))))"
| "fuzz_frame next opened (ActStream stream_id fin payload) =
     run_bind (fuzz_varint (fuzz_bounded stream_id)) (\<lambda>i. Done (Some (Inl (Stream i fin (take 256 payload)))))"
| "fuzz_frame next opened (ActResetKnown index error_code) =
     (case fuzz_select opened index of
        None \<Rightarrow> Done None
      | Some i \<Rightarrow> run_bind (fuzz_varint i) (\<lambda>i. run_bind (fuzz_error_code error_code) (\<lambda>e. Done (Some (Inl (ResetStream i e))))))"
| "fuzz_frame next opened (ActReset stream_id code) =
     run_bind (fuzz_varint (fuzz_bounded stream_id)) (\<lambda>i. run_bind (fuzz_error_code code) (\<lambda>e. Done (Some (Inl (ResetStream i e)))))"
| "fuzz_frame next opened ActPing = Done (Some (Inl Ping))"
| "fuzz_frame next opened (ActClose error_code reason) =
     run_bind (fuzz_error_code error_code) (\<lambda>e. Done (Some (Inl (ConnectionClose e (from_utf8_lossy (take 128 reason))))))"
| "fuzz_frame next opened (ActRaw raw) = Done (Some (Inr (take 512 raw)))"

text \<open>The two identifier variables of the loop after an action.\<close>

fun fuzz_ids :: "u64 \<Rightarrow> u64 list \<Rightarrow> fuzz_action \<Rightarrow> u64 \<times> u64 list" where
  "fuzz_ids next opened ActOpenNext = (if next > varint_MAX then (next, opened) else (next + 2, opened @ [next]))"
| "fuzz_ids next opened (ActOpen stream_id) = (next, opened @ [fuzz_bounded stream_id])"
| "fuzz_ids next opened _ = (next, opened)"

fun fuzz_loop :: "'o writer_buf \<Rightarrow> ('o \<Rightarrow> bytes) \<Rightarrow> u64 \<Rightarrow> u64 list \<Rightarrow> fuzz_action list \<Rightarrow> bytes list \<Rightarrow> bytes list run" where
  "fuzz_loop W to_vec next opened [] encoded_frames = Done encoded_frames"
| "fuzz_loop W to_vec next opened (action # rest) encoded_frames =
     run_bind (fuzz_frame next opened action) (\<lambda>r.
     run_bind (case r of
         None \<Rightarrow> Done encoded_frames
       | Some (Inl f) \<Rightarrow> run_bind (fuzz_encode W to_vec f) (\<lambda>encoded. Done (encoded_frames @ [encoded]))
       | Some (Inr raw) \<Rightarrow> Done (encoded_frames @ [raw])) (\<lambda>encoded_frames.
     fuzz_loop W to_vec (fst (fuzz_ids next opened action)) (snd (fuzz_ids next opened action)) rest encoded_frames))"

definition fuzz_frames :: "'o writer_buf \<Rightarrow> ('o \<Rightarrow> bytes) \<Rightarrow> scenario \<Rightarrow> bytes list run" where
  "fuzz_frames W to_vec sc =
     run_bind (fuzz_varint 4096) (\<lambda>d. run_bind (fuzz_varint 512) (\<lambda>s. run_bind (fuzz_varint 1024) (\<lambda>f.
     run_bind (fuzz_encode W to_vec (Settings d s f)) (\<lambda>settings.
       fuzz_loop W to_vec (if is_client sc then 1 else 0) [] (take 64 (actions sc)) [settings]))))"

section \<open>The run of a scenario\<close>

definition fuzz_limits :: limits where
  "fuzz_limits = default_limits\<lparr>max_frame_size := 1024, max_open_streams := 16, max_inbound_connection_bytes := 4096,
     max_outbound_connection_bytes := 4096, max_inbound_stream_bytes := 512, max_outbound_stream_bytes := 512\<rparr>"

definition fuzz_connection :: "'s sem_ops \<Rightarrow> usize \<Rightarrow> bool \<Rightarrow> 's connection run" where
  "fuzz_connection S max_permits client =
     (case connection_new S max_permits fuzz_limits client None of Inl _ \<Rightarrow> Panic | Inr c \<Rightarrow> Done c)"

section \<open>Lemmas\<close>

lemma from_utf8_lossy_valid: "utf8_valid (from_utf8_lossy bs)"
proof (induction bs rule: from_utf8_lossy.induct)
  case (2 b bs)
  show ?case
  proof (cases "utf8_tail b bs")
    case None
    then show ?thesis using "2.IH"(1) by (simp add: utf8_tail_def is_continuation_def)
  next
    case (Some rest)
    obtain cs where cs: "bs = cs @ rest" "\<And>ys. utf8_tail b (cs @ ys) = Some ys" using utf8_tail_split [OF Some] by blast
    then show ?thesis using "2.IH"(2) Some by simp
  qed
qed simp

lemma length_from_utf8_lossy: "length (from_utf8_lossy bs) \<le> 3 * length bs"
proof (induction bs rule: from_utf8_lossy.induct)
  case (2 b bs)
  then show ?case using utf8_tail_length [of b bs] by (auto split: option.split)
qed simp

lemma fuzz_bounded_le: "fuzz_bounded v \<le> varint_MAX"
proof -
  have "v mod (varint_MAX + 1) < varint_MAX + 1" by (rule word_mod_less_divisor) (simp add: varint_MAX_def)
  then show ?thesis by (simp add: fuzz_bounded_def varint_MAX_def word_less_nat_alt word_le_nat_alt)
qed

lemma fuzz_varint_le: "v \<le> varint_MAX \<Longrightarrow> fuzz_varint v = Done (VarInt v)"
  by (simp add: fuzz_varint_def from_u64_def)

lemma fuzz_error_code_done: "fuzz_error_code v = Done (ErrorCode (VarInt (fuzz_bounded v)))"
  using fuzz_bounded_le [of v] by (simp add: fuzz_error_code_def error_code_from_u64_def from_u64_def)

lemma fuzz_select_le:
  assumes "list_all (\<lambda>i. i \<le> varint_MAX) opened" "fuzz_select opened index = Some i"
  shows "i \<le> varint_MAX"
  using assms by (auto simp: fuzz_select_def list_all_iff split: if_splits)

text \<open>No action makes an \<^verbatim>\<open>expect\<close> fail, and the frames are well formed, as long as the known identifiers are.\<close>

lemma fuzz_frame_done:
  assumes "list_all (\<lambda>i. i \<le> varint_MAX) opened"
  shows "\<exists>r. fuzz_frame next opened act = Done r \<and> (\<forall>f. r = Some (Inl f) \<longrightarrow> wf_frame f)"
proof -
  have sel: "fuzz_varint (case fuzz_select opened index of Some i \<Rightarrow> i | None \<Rightarrow> varint_MAX)
      = Done (VarInt (case fuzz_select opened index of Some i \<Rightarrow> i | None \<Rightarrow> varint_MAX))"
      "(case fuzz_select opened index of Some i \<Rightarrow> i | None \<Rightarrow> varint_MAX) \<le> varint_MAX" for index
    using fuzz_select_le [OF assms] by (auto intro!: fuzz_varint_le split: option.split)
  have known: "fuzz_varint i = Done (VarInt i)" "i \<le> varint_MAX" if "fuzz_select opened index = Some i" for i index
    using fuzz_select_le [OF assms that] by (simp_all add: fuzz_varint_le)
  have lossy: "length (from_utf8_lossy (take 128 reason)) < 2 ^ 62" for reason
    using length_from_utf8_lossy [of "take 128 reason"] by simp
  show ?thesis
    using sel known lossy
    by (cases act)
      (auto simp: fuzz_error_code_done fuzz_varint_le fuzz_bounded_le wf_varint_def from_utf8_lossy_valid not_less split: option.split)
qed

lemma fuzz_ids_le:
  assumes "list_all (\<lambda>i. i \<le> varint_MAX) opened"
  shows "list_all (\<lambda>i. i \<le> varint_MAX) (snd (fuzz_ids next opened act))"
  using assms fuzz_bounded_le by (cases act) auto

text \<open>What the targets rely on: the conversions keep the bytes.\<close>

locale frozen_bytes = buf B unread + writer_buffer W written
  for B :: "'b buf_ops" and unread :: "'b \<Rightarrow> bytes" and W :: "'o writer_buf" and written :: "'o \<Rightarrow> bytes" +
  fixes copy_from_slice :: "bytes \<Rightarrow> 'b"
    and freeze :: "'o \<Rightarrow> 'b"
    and to_vec :: "'o \<Rightarrow> bytes"
  assumes copy_unread: "unread (copy_from_slice bs) = bs"
    and freeze_unread: "unread (freeze m) = written m"
    and to_vec_written: "to_vec m = written m"
begin

lemma fuzz_encode_done: "wf_frame f \<Longrightarrow> fuzz_encode W to_vec f = Done (frame_bytes f)"
  using encode_new [of f] by (cases "frame_encode (wb_ops W) f (wb_new W)") (simp add: fuzz_encode_def to_vec_written)

lemma varint_target_done: "varint_target B W copy_from_slice freeze input = Done ()"
proof (cases "varint_decode B (copy_from_slice input)" rule: action_cases)
  case (returned x rest)
  have wf: "wf_varint x" by (rule varint_decode_wf [OF returned])
  let ?m = "varint_encode (wb_ops W) x (wb_new W)"
  have m: "written ?m = varint_bytes x" by (simp add: varint_encode_written new_written)
  have "unread (freeze ?m) = varint_bytes x @ []" using m by (simp add: freeze_unread)
  then have "fst (varint_decode B (freeze ?m)) = Inr x \<and> unread (snd (varint_decode B (freeze ?m))) = []"
    using varint_decode_encoded [OF wf] by blast
  then show ?thesis
    using returned m by (cases "varint_decode B (freeze ?m)") (simp add: varint_target_def len_written length_varint_bytes has_remaining_iff)
qed (simp add: varint_target_def)

lemma frame_target_done: "frame_target B W copy_from_slice freeze input = Done ()"
proof (cases "frame_decode B (copy_from_slice input)" rule: action_cases)
  case (returned f rest)
  have wf: "wf_frame f" using frame_decode_consumes [OF returned] by blast
  obtain r m where e: "frame_encode (wb_ops W) f (wb_new W) = (r, m)" by fastforce
  note m = encode_new [OF wf e]
  have "fst (frame_decode B (freeze m)) = Inr f" using frame_decode_bytes [OF wf] m(2) by (simp add: freeze_unread)
  then show ?thesis
    using returned e m frame_encoded_len_exact [OF wf] by (cases "frame_decode B (freeze m)") (simp add: frame_target_def)
qed (simp add: frame_target_def)

lemma fuzz_loop_done:
  assumes "list_all (\<lambda>i. i \<le> varint_MAX) opened"
  shows "\<exists>frames. fuzz_loop W to_vec next opened acts acc = Done (acc @ frames) \<and> length frames \<le> length acts"
  using assms
proof (induction acts arbitrary: "next" opened acc)
  case (Cons act acts)
  obtain r where r: "fuzz_frame next opened act = Done r" "\<And>f. r = Some (Inl f) \<Longrightarrow> wf_frame f"
    using fuzz_frame_done [OF Cons.prems] by blast
  let ?n = "fst (fuzz_ids next opened act)" and ?o = "snd (fuzz_ids next opened act)"
  note IH = Cons.IH [OF fuzz_ids_le [OF Cons.prems, of "next" act], of ?n]
  show ?case
  proof (cases r)
    case None
    then show ?thesis using r IH [of acc] by (auto intro: le_SucI)
  next
    case (Some x)
    define e where "e = (case x of Inl f \<Rightarrow> frame_bytes f | Inr raw \<Rightarrow> raw)"
    have "fuzz_loop W to_vec next opened (act # acts) acc = fuzz_loop W to_vec ?n ?o acts (acc @ [e])"
      using r Some by (cases x) (simp_all add: e_def fuzz_encode_done)
    then show ?thesis using IH [of "acc @ [e]"] by (metis (no_types, lifting) append.assoc append_Cons append_Nil length_Cons not_less_eq_eq)
  qed
qed simp

lemma fuzz_frames_done: "\<exists>frames. fuzz_frames W to_vec sc = Done frames \<and> frames \<noteq> [] \<and> length frames \<le> 65"
proof -
  have v: "fuzz_varint 4096 = Done (VarInt 4096)" "fuzz_varint 512 = Done (VarInt 512)" "fuzz_varint 1024 = Done (VarInt 1024)"
    by (simp_all add: fuzz_varint_le varint_MAX_def)
  let ?f = "Settings (VarInt 4096) (VarInt 512) (VarInt 1024)"
  have e: "fuzz_encode W to_vec ?f = Done (frame_bytes ?f)" by (rule fuzz_encode_done) (simp add: wf_varint_def varint_MAX_def)
  show ?thesis
    using fuzz_loop_done [of "[]" "if is_client sc then 1 else 0" "take 64 (actions sc)" "[frame_bytes ?f]"]
    by (auto simp: fuzz_frames_def v e simp del: frame_bytes.simps)
qed

end

interpretation fz: frozen_bytes bytes_ops "\<lambda>b. b" bytes_writer "\<lambda>b. b" "\<lambda>b. b" "\<lambda>b. b" "\<lambda>b. b"
  by (intro frozen_bytes.intro bytes_buf.buf_axioms bw.writer_buffer_axioms frozen_bytes_axioms.intro) simp_all

lemma fuzz_limits_valid: "4096 \<le> m \<Longrightarrow> valid_limits m fuzz_limits"
  by (simp add: valid_limits_def fuzz_limits_def default_limits_def from_secs_def)

lemma fuzz_connection_new:
  assumes "4096 \<le> m"
  shows "\<exists>c. connection_new S m fuzz_limits client None = Inr c \<and> fuzz_connection S m client = Done c"
  using connection_new_ok [of m fuzz_limits S client None] fuzz_limits_valid [OF assms] by (auto simp: fuzz_connection_def validate_iff)

section \<open>Properties\<close>

text \<open>C38 (safety): the fuzz targets cannot fail. For every input, what \<^verbatim>\<open>VarInt::decode\<close> and \<^verbatim>\<open>Frame::decode\<close> accept is encoded again
  in the announced length and decoded to the same value; for every scenario, the generator of connection inputs runs to its end
  without a failed \<^verbatim>\<open>expect\<close>; the connection with the limits of the target is created; and in every fair run
  of it whose input ends, all tasks end, so that \<^verbatim>\<open>wait_closed\<close> returns.\<close>

theorem fuzz_targets_pass:
  fixes S :: "'s sem_ops" and es :: "nat \<Rightarrow> 'b event" and ss :: "nat \<Rightarrow> ('s, 'o) system"
  assumes "frozen_bytes B unread W written copy_from_slice freeze to_vec"
    and "semaphore S free is_closed waiting" "4096 \<le> m"
  shows "varint_target B W copy_from_slice freeze input = Done ()
    \<and> frame_target B W copy_from_slice freeze input = Done ()
    \<and> (\<exists>frames. fuzz_frames W to_vec sc = Done frames \<and> frames \<noteq> [] \<and> length frames \<le> 65)
    \<and> (\<exists>c. fuzz_connection S m (is_client sc) = Done c
        \<and> (ss 0 = system_new c False \<and> run_of B W S es ss \<and> fair es ss \<and> es n = EndOfInput
             \<longrightarrow> (\<exists>k \<ge> n. wait_closed (conn (ss k)) = Ready ())))"
proof (intro conjI)
  obtain c where c: "connection_new S m fuzz_limits (is_client sc) None = Inr c" "fuzz_connection S m (is_client sc) = Done c"
    using fuzz_connection_new [OF assms(3)] by blast
  have BW: "buf B unread" "writer_buffer W written" using assms(1) by (simp_all add: frozen_bytes_def)
  have "\<exists>k \<ge> n. wait_closed (conn (ss k)) = Ready ()"
    if r: "ss 0 = system_new c False" "run_of B W S es ss" "fair es ss" "es n = EndOfInput"
  proof -
    have z: "reachable B W S m fuzz_limits (ss 0)" using reachable.start [OF c(1)] r(1) by simp
    have "exec B W S (es n) (ss n) = Done (ss (Suc n))" using r(2) by (simp add: run_of_def)
    then have "\<not> reading (ss (Suc n))" using r(4) exec_turns(1) by metis
    then have "cleanup_started (conn (ss (Suc n)))"
      using semaphore.reader_ended [OF assms(2) semaphore.run_reachable [OF assms(2) z r(2)] BW] by blast
    then obtain k where "Suc n \<le> k" "joined (conn (ss k))" using semaphore.run_joins [OF assms(2) z r(2) BW r(3)] by blast
    then show ?thesis by (intro exI [of _ k]) (simp add: wait_closed_def)
  qed
  then show "\<exists>c. fuzz_connection S m (is_client sc) = Done c
      \<and> (ss 0 = system_new c False \<and> run_of B W S es ss \<and> fair es ss \<and> es n = EndOfInput
           \<longrightarrow> (\<exists>k \<ge> n. wait_closed (conn (ss k)) = Ready ()))"
    using c(2) by blast
qed (rule frozen_bytes.varint_target_done [OF assms(1)] frozen_bytes.frame_target_done [OF assms(1)] frozen_bytes.fuzz_frames_done [OF assms(1)])+

theorem fuzz_targets_pass_witness:
  "varint_target bytes_ops bytes_writer (\<lambda>b. b) (\<lambda>b. b) [0x40, 0x05] = Done ()
   \<and> frame_target bytes_ops bytes_writer (\<lambda>b. b) (\<lambda>b. b) [0x07, 0x40, 0x02, 0x05] = Done ()
   \<and> (\<exists>frames. fuzz_frames bytes_writer (\<lambda>b. b) \<lparr>is_client = True, actions = [ActOpenNext, ActClose 3 [0xFF, 0x41]]\<rparr> = Done frames)
   \<and> (\<exists>c. fuzz_connection counting_ops (2 ^ 61 - 1) True = Done c)"
proof -
  have m: "4096 \<le> (2 ^ 61 - 1 :: nat)" by simp
  note p = fuzz_targets_pass [OF fz.frozen_bytes_axioms demo_instances(1) m, where sc = "\<lparr>is_client = True, actions = [ActOpenNext, ActClose 3 [0xFF, 0x41]]\<rparr>"
      and ss = "\<lambda>_. system_new demo_client False" and es = "\<lambda>_. Tick" and n = 0]
  show ?thesis using p [where input = "[0x40, 0x05]"] p [where input = "[0x07, 0x40, 0x02, 0x05]"] by auto
qed

end
