(* ===== verification/Spec2Isabelle.thy ===== *)
theory Spec2Isabelle
  imports Deviations Endpoint Fuzz_Targets
begin

text \<open>
  \<^bold>\<open>muxtls\<close>: bidirectional byte streams multiplexed over one TLS connection.

  The workspace has two crates. \<^verbatim>\<open>muxtls-proto\<close> is the wire format (variable-length integers, frames);
  \<^verbatim>\<open>muxtls\<close> is the runtime: limits, credit-based flow control, stream and connection state, the tasks of a connection,
  the stream handles and the endpoints. An application calls the handles; their calls and the frames the reader task
  receives change the shared state of the connection; the writer task takes frames from its queues and hands them to
  the transport. Both directions are bounded by credit (receive windows) and by permits (semaphores).

  \<^bold>\<open>The wire format\<close>

  \<^item> \<open>Mux_Prelude\<close>: machine integers, fallible computations with state, shared lemmas.
  \<^item> \<open>Byte_Buffers\<close>: the \<open>Buf\<close> and \<open>BufMut\<close> traits of the \<open>bytes\<close> crate as dictionaries, with laws as locales.
  \<^item> \<open>Varint\<close>: \<^verbatim>\<open>muxtls-proto/src/varint.rs\<close>. Round trip, shortest encoding, agreement with the QUIC representation.
  \<^item> \<open>Utf8\<close>: what the sources use of \<open>str\<close>: validation and character boundaries.
  \<^item> \<open>Frame_Codec\<close>: \<^verbatim>\<open>muxtls-proto/src/frame.rs\<close> and \<^verbatim>\<open>error.rs\<close>. Round trip, soundness of the decoder, its errors.

  \<^bold>\<open>The state of a connection and its operations\<close>

  \<^item> \<open>Limits\<close>, \<open>Messages\<close>: \<^verbatim>\<open>muxtls/src/limits.rs\<close> and \<^verbatim>\<open>error.rs\<close>, with the texts of errors. Validation accepts exactly the
    documented ranges.
  \<^item> \<open>Flow_Window\<close>: \<^verbatim>\<open>muxtls/src/flow.rs\<close>. Credit never exceeds the window, and an exhausted window is refilled.
  \<^item> \<open>Sync\<close>: the interface of tokio's semaphore as a locale, with the counting semaphore as an instance.
  \<^item> \<open>Conn_State\<close>: the structs of \<^verbatim>\<open>muxtls/src/connection.rs\<close> and \<open>Connection::new\<close>. A \<open>StreamState\<close> behind an \<open>Arc\<close> is an entry
    of \<open>objects\<close>, the table \<open>streams\<close> is the set of the identifiers in it.
  \<^item> \<open>Inbound\<close>: received chunks, their permits and credit (\<open>push_inbound\<close>, \<open>read_chunk\<close>), and the accounts of bytes.
  \<^item> \<open>Writer\<close>, \<open>Scheduling\<close>: \<open>WriterState\<close> and its scheduler \<open>next_frame\<close>: order, credit, fairness.
  \<^item> \<open>Closing\<close>: \<open>close\<close>, \<open>abort\<close>, \<open>initiate_close\<close>, \<open>mark_closed\<close>, the close frame, \<open>max_stream_payload\<close>.
  \<^item> \<open>Streams\<close>: opening, accepting, resetting and retiring streams; \<open>Sending\<close>: \<open>send_stream_chunk\<close> as a staged future that can
    be cancelled at every await point.
  \<^item> \<open>Incoming\<close>: \<open>handle_incoming_frame\<close> and the body of the reader's loop.
  \<^item> \<open>Stream_Api\<close>: \<^verbatim>\<open>muxtls/src/stream.rs\<close>, the handles with \<open>AsyncRead\<close> and \<open>AsyncWrite\<close>.
  \<^item> \<open>Conn_Inv\<close>, \<open>Writer_Inv\<close>, \<open>Evolution\<close>, \<open>Api_Inv\<close>: the invariant of a connection, and that each operation keeps it and changes
    only what it may (identifiers grow, flags stay set).

  \<^bold>\<open>The running system\<close>

  \<^item> \<open>Tasks\<close>, \<open>System\<close>: the tasks of \<open>spawn_connection_tasks\<close> and the application as events of one transition system. An event is
    one poll of a call, one step of a task, or one input of the transport; their order is arbitrary, so that \<open>reachable\<close> covers
    every interleaving at the granularity of the await points.
  \<^item> \<open>System_Inv\<close>, \<open>System_Props\<close>: no event panics; memory is bounded; permits are conserved; references are valid; the
    sender stays within credit.
  \<^item> \<open>History\<close>, \<open>Transfer_Out\<close>, \<open>Wire_Order\<close>, \<open>Transfer_In\<close>, \<open>Read_Order\<close>, \<open>End_To_End\<close>: runs with a record of what was
    accepted, sent, received and read. A stream is a reliable pipe from the writer at one end to the reader at the other.
  \<^item> \<open>Shutdown\<close>: the tasks of a terminated connection end, by a measure of their remaining work, and a connection
    that is closed comes to its end in every fair schedule.
  \<^item> \<open>Deviations\<close>: runs that depart from the specification of the protocol.

  \<^bold>\<open>Around the connection\<close>

  \<^item> \<open>Tls_Config\<close>: \<^verbatim>\<open>muxtls/src/config.rs\<close>; \<open>Endpoint\<close>: \<^verbatim>\<open>muxtls/src/endpoint.rs\<close>. Configurations offer \<^verbatim>\<open>muxtls/1\<close> only, and the
    connections that \<open>connect\<close> and \<open>accept\<close> hand out are starts of runs of the system.
  \<^item> \<open>Fuzz_Targets\<close>: \<^verbatim>\<open>fuzz/fuzz_targets\<close> and the connection of \<open>fuzz_connection_state\<close>. No input makes an assertion fail.

  \<^bold>\<open>Parameters\<close>. Code of other crates is an argument of the definitions: \<open>Buf\<close> and \<open>BufMut\<close> (locales \<open>buf\<close>, \<open>buf_mut\<close>,
  \<open>writer_buffer\<close>, \<open>frozen_bytes\<close>), the semaphore (\<open>semaphore\<close>) with its largest number of permits, rustls (\<open>tls_library\<close>), sockets and
  timers (the record \<open>net\<close>), and the order in which a hash map is walked. Each locale has an instance on which the
  theorems are applied.

  \<^bold>\<open>Loops and bounds\<close>. No definition uses fuel. The loops are structural recursion or have a measure: the bytes left
  (\<open>utf8_valid\<close>, \<open>from_utf8_lossy\<close>), the interval of the binary search, the chunks left to read (\<open>read_loop\<close>), the two turns of the
  scheduler. Integers of 64 bits are words, and wrap; lengths in memory are natural numbers.

  \<^bold>\<open>Not modelled\<close>

  \<^item> Parallelism inside an event: what runs between two await points is one step, although on a runtime with several threads the
    steps of two tasks may overlap between their locks. Memory orderings of the atomic flags are not distinguished.
  \<^item> Time: a timer is an event that may occur at any moment; its length plays no role. Wake-ups: a pending poll may be repeated at
    any time, so that a lost wake-up would not show.
  \<^item> The length-delimited codec, TCP and TLS: the transport delivers items of at most the frame size or ends; an item that is too long, like any
    failure to read, is an end of the input.
  \<^item> The in-memory transport of \<open>fuzz_connection_state\<close>, log messages, and the formatting of values for debugging.
  \<^item> Examples, tests and the benchmark, which only call the code above, and the crate roots, which only re-export.
\<close>

end
